(* ===== verification/Prelude.thy ===== *)
theory Prelude
  imports Main "HOL-Library.Word" "HOL-Library.List_Lexorder" "HOL-Library.Char_ord"
begin

text \<open>
  Shared vocabulary of the development.

  \<^item> Machine integers are words of the width the C++ code uses; a C++ \<open>char\<close> is an Isabelle
    \<open>char\<close>, read as an unsigned byte by \<open>byte_of_char\<close>; \<open>std::string\<close> is \<open>string\<close>, ordered
    lexicographically on unsigned bytes, which is the order of \<open>std::string::compare\<close>.
  \<^item> \<open>std::map\<close> whose iteration order is observable is a key-sorted association list
    (\<open>om_put\<close>, \<open>om_erase\<close>, read by \<open>map_of\<close>); \<open>om_wf\<close> is its representation invariant.
    A map that is only looked up is a partial function.
  \<^item> Every component has its own status type, as the code has. \<open>Aborts\<close> is the outcome of a failed
    \<open>VERIFY\<close> (lang/verify.h).
  \<^item> The locale \<open>invariant_system\<close> is the interface of every step relation of the development:
    an invariant that the initial states have and that steps preserve holds in every reachable
    state. The locale \<open>data_refinement\<close> is that of every component with an abstract specification:
    operation by operation simulation gives the same answers for every sequence of operations.
\<close>

unbundle bit_operations_syntax

section \<open>Types\<close>

type_synonym byte = "8 word"
type_synonym u16 = "16 word"
type_synonym u32 = "32 word"
type_synonym u64 = "64 word"

text \<open>A C++ computation that can fail a \<open>VERIFY\<close>, which aborts the process.\<close>

datatype 'a outcome = Returns (returned: 'a) | Aborts

primrec obind :: "'a outcome \<Rightarrow> ('a \<Rightarrow> 'b outcome) \<Rightarrow> 'b outcome" where
  "obind (Returns a) f = f a"
| "obind Aborts f = Aborts"

definition VERIFY :: "bool \<Rightarrow> 'a outcome \<Rightarrow> 'a outcome" where
  "VERIFY b k = (if b then k else Aborts)"

definition byte_of_char :: "char \<Rightarrow> byte" where
  "byte_of_char c = word_of_nat (of_char c)"

definition char_of_byte :: "byte \<Rightarrow> char" where
  "char_of_byte b = char_of (unat b)"

text \<open>\<open>std::string::resize(n)\<close>: truncates, or pads with NUL bytes.\<close>

definition NUL :: char where
  "NUL = CHR 0x00"

definition str_resize :: "nat \<Rightarrow> string \<Rightarrow> string" where
  "str_resize n s = take n s @ replicate (n - length s) NUL"

section \<open>Key-sorted association lists: std::map\<close>

type_synonym ('k, 'v) omap = "('k \<times> 'v) list"

fun om_put :: "'k::linorder \<Rightarrow> 'v \<Rightarrow> ('k, 'v) omap \<Rightarrow> ('k, 'v) omap" where
  "om_put k v [] = [(k, v)]"
| "om_put k v ((k', v') # m) =
     (if k < k' then (k, v) # (k', v') # m
      else if k = k' then (k, v) # m
      else (k', v') # om_put k v m)"

definition om_erase :: "'k \<Rightarrow> ('k, 'v) omap \<Rightarrow> ('k, 'v) omap" where
  "om_erase k m = filter (\<lambda>e. fst e \<noteq> k) m"

definition om_wf :: "('k::linorder, 'v) omap \<Rightarrow> bool" where
  "om_wf m = sorted_wrt (<) (map fst m)"

text \<open>\<open>std::map::insert\<close> keeps the entry that is already there.\<close>

definition om_insert :: "'k::linorder \<Rightarrow> 'v \<Rightarrow> ('k, 'v) omap \<Rightarrow> ('k, 'v) omap" where
  "om_insert k v m = (if map_of m k = None then om_put k v m else m)"

section \<open>Sequences of operations\<close>

fun run_ops :: "('o \<Rightarrow> 's \<Rightarrow> 'r \<times> 's) \<Rightarrow> 'o list \<Rightarrow> 's \<Rightarrow> 'r list \<times> 's" where
  "run_ops f [] s = ([], s)"
| "run_ops f (x # xs) s = (let (r, s) = f x s; (rs, s) = run_ops f xs s in (r # rs, s))"

fun ops_ok :: "('o \<Rightarrow> 's \<Rightarrow> bool) \<Rightarrow> ('o \<Rightarrow> 's \<Rightarrow> 'r \<times> 's) \<Rightarrow> 'o list \<Rightarrow> 's \<Rightarrow> bool" where
  "ops_ok p f [] s = True"
| "ops_ok p f (x # xs) s = (p x s \<and> ops_ok p f xs (snd (f x s)))"

section \<open>Lemma collections\<close>

named_theorems om_simps "lookups and well-formedness of key-sorted association lists"

section \<open>Bytes and strings\<close>

lemma byte_of_char_of_byte [simp]: "byte_of_char (char_of_byte b) = b"
proof -
  have "unat b < 256"
    using unsigned_less [of b, where ?'a = nat] by simp
  then show ?thesis
    by (simp add: byte_of_char_def char_of_byte_def)
qed

lemma char_of_byte_of_char [simp]: "char_of_byte (byte_of_char c) = c"
proof -
  have "of_char c < (256::nat)"
    using of_char_mod_256 [of c, where ?'a = nat] mod_less_divisor [of 256 "of_char c :: nat"] by simp
  then show ?thesis
    by (simp add: byte_of_char_def char_of_byte_def unat_of_nat)
qed

lemma length_str_resize [simp]: "length (str_resize n s) = n"
  by (simp add: str_resize_def)

lemma str_resize_id [simp]: "length s = n \<Longrightarrow> str_resize n s = s"
  by (simp add: str_resize_def)

lemma str_resize_take: "n \<le> length s \<Longrightarrow> str_resize n s = take n s"
  by (simp add: str_resize_def)

lemma sint_of_nat: "n < 2 ^ 31 \<Longrightarrow> sint (of_nat n :: u32) = int n"
  by (simp add: sint_uint uint_nat unat_of_nat signed_take_bit_int_eq_self)

text \<open>Bit 31 tells the inode numbers of files from those of directories.\<close>

lemma bit_0x80000000: "bit (0x80000000::u64) n \<longleftrightarrow> n = 31"
proof -
  have "(0x80000000::u64) = 2 ^ 31"
    by simp
  then show ?thesis
    by (simp only: bit_exp_iff) auto
qed

lemma and_bit31: "(x::u64) AND 0x80000000 \<noteq> 0 \<longleftrightarrow> bit x 31"
proof -
  have "x AND 0x80000000 = (if bit x 31 then 0x80000000 else 0)"
    by (rule bit_word_eqI, cases "bit x 31")
      (auto simp only: bit_and_iff bit_0x80000000 if_True if_False bit_0_eq bot_fun_def bot_bool_def)
  then show ?thesis
    by simp
qed

lemma mod_bit31: "\<not> bit ((d::u64) mod 0x80000000) 31"
proof -
  have "d mod 0x80000000 = take_bit 31 d"
    by (simp add: take_bit_eq_mod)
  then show ?thesis
    by (simp add: bit_take_bit_iff)
qed

section \<open>Sorted association lists\<close>

lemma map_of_om_put [simp, om_simps]: "map_of (om_put k v m) = (map_of m)(k \<mapsto> v)"
  by (induction k v m rule: om_put.induct) (auto simp: fun_eq_iff)

lemma map_of_om_erase [simp, om_simps]: "map_of (om_erase k m) = (map_of m)(k := None)"
  unfolding om_erase_def by (induction m) (auto simp: fun_eq_iff)

lemma set_om_put: "fst ` set (om_put k v m) = insert k (fst ` set m)"
  by (induction k v m rule: om_put.induct) auto

lemma om_wf_Nil [simp, om_simps]: "om_wf []"
  by (simp add: om_wf_def)

lemma om_wf_put [simp, om_simps]: "om_wf m \<Longrightarrow> om_wf (om_put k v m)"
proof (induction k v m rule: om_put.induct)
  case (2 k v k' v' m)
  then show ?case
    using set_om_put [of k v m] by (auto simp: om_wf_def simp flip: image_set)
qed (simp add: om_wf_def)

lemma om_wf_erase [simp, om_simps]: "om_wf m \<Longrightarrow> om_wf (om_erase k m)"
  unfolding om_wf_def om_erase_def by (induction m) auto

lemma om_wf_insert [simp, om_simps]: "om_wf m \<Longrightarrow> om_wf (om_insert k v m)"
  by (simp add: om_insert_def)

lemma om_wf_distinct: "om_wf m \<Longrightarrow> distinct (map fst m)"
  by (simp add: om_wf_def strict_sorted_iff)

lemma om_put_append:
  "\<forall>k' \<in> fst ` set m. k' < k \<Longrightarrow> om_put k v m = m @ [(k, v)]"
  by (induction k v m rule: om_put.induct) auto

lemma om_insert_append:
  assumes "\<forall>k' \<in> fst ` set m. k' < k"
  shows "om_insert k v m = m @ [(k, v)]"
proof -
  have "map_of m k = None"
    using assms by (auto simp: map_of_eq_None_iff)
  then show ?thesis
    using assms by (simp add: om_insert_def om_put_append)
qed

text \<open>
  Rebuilding a map by inserting the entries of another one in iteration order gives the same
  map: this is what every unmarshalling loop of the program relies on.
\<close>

lemma foldl_om_put:
  "om_wf (acc @ m) \<Longrightarrow> foldl (\<lambda>a (k, v). om_put k v a) acc m = acc @ m"
proof (induction m arbitrary: acc)
  case (Cons e m)
  obtain k v where e: "e = (k, v)" by fastforce
  have "om_put k v acc = acc @ [(k, v)]"
    using Cons.prems e by (intro om_put_append) (auto simp: om_wf_def sorted_wrt_append)
  then show ?case
    using Cons e by simp
qed simp

lemma foldl_om_insert:
  "om_wf (acc @ m) \<Longrightarrow> foldl (\<lambda>a (k, v). om_insert k v a) acc m = acc @ m"
proof (induction m arbitrary: acc)
  case (Cons e m)
  obtain k v where e: "e = (k, v)" by fastforce
  have "om_insert k v acc = acc @ [(k, v)]"
    using Cons.prems e by (intro om_insert_append) (auto simp: om_wf_def sorted_wrt_append)
  then show ?case
    using Cons e by simp
qed simp

lemma om_ext:
  assumes "om_wf m" and "om_wf m'" and "map_of m = map_of m'"
  shows "m = m'"
proof -
  have d: "distinct (map fst m)" "distinct (map fst m')"
    using assms om_wf_distinct by blast+
  then have "set m = set m'"
    using assms(3) by (metis map_of_inject_set)
  moreover have "sorted (map fst m)" "sorted (map fst m')"
    using assms by (simp_all add: om_wf_def strict_sorted_iff)
  ultimately show ?thesis
    using d by (metis map_sorted_distinct_set_unique distinct_map sup_idem)
qed

section \<open>Outcomes\<close>

lemma obind_Returns_iff: "obind m f = Returns b \<longleftrightarrow> (\<exists>a. m = Returns a \<and> f a = Returns b)"
  by (cases m) auto

lemma obind_Aborts_iff: "obind m f = Aborts \<longleftrightarrow> m = Aborts \<or> (\<exists>a. m = Returns a \<and> f a = Aborts)"
  by (cases m) auto

lemma VERIFY_Returns_iff [simp]: "VERIFY b k = Returns a \<longleftrightarrow> b \<and> k = Returns a"
  by (simp add: VERIFY_def)

lemma VERIFY_True [simp]: "VERIFY True k = k" and VERIFY_False [simp]: "VERIFY False k = Aborts"
  by (simp_all add: VERIFY_def)

section \<open>Invariants of step relations\<close>

locale invariant_system =
  fixes init :: "'s \<Rightarrow> bool"
    and step :: "'s \<Rightarrow> 's \<Rightarrow> bool"
    and inv :: "'s \<Rightarrow> bool"
  assumes inv_init: "init s \<Longrightarrow> inv s"
    and inv_step: "inv s \<Longrightarrow> step s t \<Longrightarrow> inv t"
begin

lemma inv_steps: "step\<^sup>*\<^sup>* s t \<Longrightarrow> inv s \<Longrightarrow> inv t"
  by (induction rule: rtranclp_induct) (auto intro: inv_step)

lemma inv_reachable: "init s \<Longrightarrow> step\<^sup>*\<^sup>* s t \<Longrightarrow> inv t"
  using inv_init inv_steps by blast

end

section \<open>Data refinement\<close>

locale data_refinement =
  fixes inv :: "'s \<Rightarrow> bool"
    and ok :: "'o \<Rightarrow> 's \<Rightarrow> bool"
    and cop :: "'o \<Rightarrow> 's \<Rightarrow> 'r \<times> 's"
    and abs :: "'s \<Rightarrow> 'a"
    and aop :: "'o \<Rightarrow> 'a \<Rightarrow> 'r \<times> 'a"
  assumes cop_inv: "inv s \<Longrightarrow> ok x s \<Longrightarrow> inv (snd (cop x s))"
    and cop_refines: "inv s \<Longrightarrow> ok x s \<Longrightarrow> aop x (abs s) = apsnd abs (cop x s)"
begin

lemma runs_refine:
  "inv s \<Longrightarrow> ops_ok ok cop xs s \<Longrightarrow> run_ops aop xs (abs s) = apsnd abs (run_ops cop xs s)"
  by (induction xs arbitrary: s) (auto simp: cop_refines cop_inv Let_def split_beta)

lemma runs_inv: "inv s \<Longrightarrow> ops_ok ok cop xs s \<Longrightarrow> inv (snd (run_ops cop xs s))"
  by (induction xs arbitrary: s) (auto simp: cop_inv Let_def split_beta)

end

end
