(* ===== verification/Marshall.thy ===== *)
theory Marshall
  imports Prelude
begin

text \<open>
  The RPC library's marshalling layer: rpc/marshall.h and the operators of rpc/rpc.cc.

  \<^item> \<open>marshall\<close> is the growing output buffer. Its memory is a list of optional characters, \<open>None\<close>
    being a byte that \<open>malloc\<close> or \<open>realloc\<close> left uninitialised; \<open>m_capa\<close> and \<open>m_ind\<close> are
    \<open>_capa\<close> and \<open>_ind\<close>. A write outside the memory is lost, so that the facts on what has been
    written hold only because every write is in bounds.
  \<^item> \<open>unmarshall\<close> is the input cursor. \<open>u_oob\<close> is a ghost flag that the code cannot see: it
    records that \<open>rawbytes\<close> copied from outside the buffer.
  \<^item> C++ \<open>int\<close> values that are marshalled are 32-bit words (their two's complement bits).
  \<^item> The locale \<open>codec\<close> is the contract between an \<open>operator<<\<close> and its \<open>operator>>\<close>; vectors
    and maps of codecs are codecs, proved once inside the locale.
\<close>

unbundle bit_operations_syntax

section \<open>Headers and sizes\<close>

record req_header =
  rq_xid :: u32
  rq_proc :: u32
  rq_clt_nonce :: u32
  rq_srv_nonce :: u32
  rq_xid_rep :: u32

record reply_header =
  rp_xid :: u32
  rp_ret :: u32

text \<open>\<open>RPC_CHECKSUMMING\<close> is not defined by the build: the header is the larger of the two
  header structs (five and two 4-byte fields) and the 4-byte size of the PDU.\<close>

definition sizeof_rpc_sz :: nat where
  "sizeof_rpc_sz = 4"

definition DEFAULT_RPC_SZ :: nat where
  "DEFAULT_RPC_SZ = 1024"

definition RPC_HEADER_SZ :: nat where
  "RPC_HEADER_SZ = max 20 8 + sizeof_rpc_sz"

section \<open>The output buffer\<close>

record marshall =
  m_buf :: "char option list"
  m_capa :: nat
  m_ind :: nat

definition mem_realloc :: "char option list \<Rightarrow> nat \<Rightarrow> char option list" where
  "mem_realloc b n = take n b @ replicate (n - length b) None"

fun mem_write :: "char option list \<Rightarrow> nat \<Rightarrow> string \<Rightarrow> char option list" where
  "mem_write b i [] = b"
| "mem_write b i (c # cs) = mem_write (b[i := Some c]) (Suc i) cs"

definition marshall_new :: marshall where
  "marshall_new =
     \<lparr>m_buf = mem_realloc [] DEFAULT_RPC_SZ, m_capa = DEFAULT_RPC_SZ, m_ind = RPC_HEADER_SZ\<rparr>"

definition m_rawbyte :: "marshall \<Rightarrow> byte \<Rightarrow> marshall" where
  "m_rawbyte m x =
     (let m1 = (if m_capa m \<le> m_ind m
                then m\<lparr>m_capa := m_capa m * 2, m_buf := mem_realloc (m_buf m) (m_capa m * 2)\<rparr>
                else m)
      in m1\<lparr>m_buf := mem_write (m_buf m1) (m_ind m1) [char_of_byte x], m_ind := m_ind m1 + 1\<rparr>)"

definition m_rawbytes :: "marshall \<Rightarrow> string \<Rightarrow> marshall" where
  "m_rawbytes m p =
     (let n = length p;
          m1 = (if m_capa m < m_ind m + n
                then (let capa = (if n < m_capa m then 2 * m_capa m else m_capa m + n)
                      in m\<lparr>m_capa := capa, m_buf := mem_realloc (m_buf m) capa\<rparr>)
                else m)
      in m1\<lparr>m_buf := mem_write (m_buf m1) (m_ind m1) p, m_ind := m_ind m1 + n\<rparr>)"

definition get_content :: "marshall \<Rightarrow> string option" where
  "get_content m = those (take (m_ind m - RPC_HEADER_SZ) (drop RPC_HEADER_SZ (m_buf m)))"

definition m_take_buf :: "marshall \<Rightarrow> char option list \<times> marshall" where
  "m_take_buf m = (take (m_ind m) (m_buf m), m\<lparr>m_buf := [], m_ind := 0\<rparr>)"

definition put_bool :: "marshall \<Rightarrow> bool \<Rightarrow> marshall" where
  "put_bool m x = m_rawbyte m (if x then 1 else 0)"

definition put_uchar :: "marshall \<Rightarrow> byte \<Rightarrow> marshall" where
  "put_uchar m x = m_rawbyte m x"

definition put_char :: "marshall \<Rightarrow> char \<Rightarrow> marshall" where
  "put_char m x = put_uchar m (byte_of_char x)"

definition put_ushort :: "marshall \<Rightarrow> u16 \<Rightarrow> marshall" where
  "put_ushort m x = m_rawbyte (m_rawbyte m (ucast (drop_bit 8 x AND 0xff))) (ucast (x AND 0xff))"

definition put_short :: "marshall \<Rightarrow> u16 \<Rightarrow> marshall" where
  "put_short m x = put_ushort m x"

definition put_uint :: "marshall \<Rightarrow> u32 \<Rightarrow> marshall" where
  "put_uint m x =
     (let m = m_rawbyte m (ucast (drop_bit 24 x AND 0xff));
          m = m_rawbyte m (ucast (drop_bit 16 x AND 0xff));
          m = m_rawbyte m (ucast (drop_bit 8 x AND 0xff))
      in m_rawbyte m (ucast (x AND 0xff)))"

definition put_int :: "marshall \<Rightarrow> u32 \<Rightarrow> marshall" where
  "put_int m x = put_uint m x"

definition put_string :: "marshall \<Rightarrow> string \<Rightarrow> marshall" where
  "put_string m s = m_rawbytes (put_uint m (of_nat (length s))) s"

definition put_ull :: "marshall \<Rightarrow> u64 \<Rightarrow> marshall" where
  "put_ull m x = put_uint (put_uint m (ucast (drop_bit 32 x))) (ucast x)"

text \<open>\<open>pack\<close> takes an \<open>int\<close>: its right shifts are arithmetic.\<close>

definition m_pack :: "marshall \<Rightarrow> u32 \<Rightarrow> marshall" where
  "m_pack m x =
     (let m = m_rawbyte m (ucast (signed_drop_bit 24 x AND 0xff));
          m = m_rawbyte m (ucast (signed_drop_bit 16 x AND 0xff));
          m = m_rawbyte m (ucast (signed_drop_bit 8 x AND 0xff))
      in m_rawbyte m (ucast (x AND 0xff)))"

definition pack_req_header :: "marshall \<Rightarrow> req_header \<Rightarrow> marshall" where
  "pack_req_header m h =
     (let saved_sz = m_ind m;
          m = m\<lparr>m_ind := sizeof_rpc_sz\<rparr>;
          m = m_pack m (rq_xid h);
          m = m_pack m (rq_proc h);
          m = m_pack m (rq_clt_nonce h);
          m = m_pack m (rq_srv_nonce h);
          m = m_pack m (rq_xid_rep h)
      in m\<lparr>m_ind := saved_sz\<rparr>)"

definition pack_reply_header :: "marshall \<Rightarrow> reply_header \<Rightarrow> marshall" where
  "pack_reply_header m h =
     (let saved_sz = m_ind m;
          m = m\<lparr>m_ind := sizeof_rpc_sz\<rparr>;
          m = m_pack m (rp_xid h);
          m = m_pack m (rp_ret h)
      in m\<lparr>m_ind := saved_sz\<rparr>)"

section \<open>The input cursor\<close>

record unmarshall =
  u_buf :: string
  u_sz :: nat
  u_ind :: nat
  u_ok :: bool
  u_oob :: bool

definition unmarshall_empty :: unmarshall where
  "unmarshall_empty = \<lparr>u_buf = [], u_sz = 0, u_ind = 0, u_ok = False, u_oob = False\<rparr>"

definition unmarshall_buf :: "string \<Rightarrow> unmarshall" where
  "unmarshall_buf b = \<lparr>u_buf = b, u_sz = length b, u_ind = 0, u_ok = True, u_oob = False\<rparr>"

text \<open>\<open>junk\<close> is what \<open>realloc\<close> leaves in the header part of the buffer.\<close>

definition take_content :: "string \<Rightarrow> string \<Rightarrow> unmarshall" where
  "take_content junk s =
     \<lparr>u_buf = str_resize RPC_HEADER_SZ junk @ s, u_sz = length s + RPC_HEADER_SZ,
      u_ind = RPC_HEADER_SZ, u_ok = True, u_oob = False\<rparr>"

definition u_okdone :: "unmarshall \<Rightarrow> bool" where
  "u_okdone u = (u_ok u \<and> u_ind u = u_sz u)"

definition u_rawbyte :: "unmarshall \<Rightarrow> u32 \<times> unmarshall" where
  "u_rawbyte u =
     (if u_sz u \<le> u_ind u then (0, u\<lparr>u_ok := False\<rparr>)
      else (scast (byte_of_char (u_buf u ! u_ind u)), u\<lparr>u_ind := u_ind u + 1\<rparr>))"

text \<open>The bound is tested in unsigned 32-bit arithmetic, which wraps around.\<close>

definition u_rawbytes :: "string \<Rightarrow> u32 \<Rightarrow> unmarshall \<Rightarrow> string \<times> unmarshall" where
  "u_rawbytes ss n u =
     (if (of_nat (u_sz u) :: u32) < of_nat (u_ind u) + n then (ss, u\<lparr>u_ok := False\<rparr>)
      else (take (unat n) (drop (u_ind u) (u_buf u)),
            u\<lparr>u_ind := unat (of_nat (u_ind u) + n :: u32),
              u_oob := (u_oob u \<or> u_sz u < u_ind u + unat n)\<rparr>))"

definition u_unpack :: "unmarshall \<Rightarrow> u32 \<times> unmarshall" where
  "u_unpack u =
     (let (a, u) = u_rawbyte u; (b, u) = u_rawbyte u; (c, u) = u_rawbyte u; (d, u) = u_rawbyte u
      in (push_bit 24 (a AND 0xff) OR push_bit 16 (b AND 0xff) OR push_bit 8 (c AND 0xff)
            OR (d AND 0xff), u))"

definition u_take_buf :: "unmarshall \<Rightarrow> string \<times> nat \<times> unmarshall" where
  "u_take_buf u = (u_buf u, u_sz u, u\<lparr>u_buf := [], u_sz := 0, u_ind := 0\<rparr>)"

definition u_take_in :: "unmarshall \<Rightarrow> unmarshall \<Rightarrow> unmarshall \<times> unmarshall" where
  "u_take_in u another =
     (let (b, sz, another) = u_take_buf another
      in (u\<lparr>u_buf := b, u_sz := sz, u_ind := RPC_HEADER_SZ, u_ok := (RPC_HEADER_SZ \<le> sz)\<rparr>,
          another))"

definition get_bool :: "unmarshall \<Rightarrow> bool \<times> unmarshall" where
  "get_bool u = (let (a, u) = u_rawbyte u in (a \<noteq> 0, u))"

definition get_uchar :: "unmarshall \<Rightarrow> byte \<times> unmarshall" where
  "get_uchar u = (let (a, u) = u_rawbyte u in (ucast a, u))"

definition get_char :: "unmarshall \<Rightarrow> char \<times> unmarshall" where
  "get_char u = (let (a, u) = u_rawbyte u in (char_of_byte (ucast a), u))"

definition get_ushort :: "unmarshall \<Rightarrow> u16 \<times> unmarshall" where
  "get_ushort u =
     (let (a, u) = u_rawbyte u; (b, u) = u_rawbyte u
      in (ucast (push_bit 8 (a AND 0xff)) OR ucast (b AND 0xff), u))"

definition get_short :: "unmarshall \<Rightarrow> u16 \<times> unmarshall" where
  "get_short u =
     (let (a, u) = u_rawbyte u; (b, u) = u_rawbyte u
      in (ucast (push_bit 8 (a AND 0xff)) OR ucast (b AND 0xff), u))"

definition get_uint :: "unmarshall \<Rightarrow> u32 \<times> unmarshall" where
  "get_uint u =
     (let (a, u) = u_rawbyte u; (b, u) = u_rawbyte u; (c, u) = u_rawbyte u; (d, u) = u_rawbyte u
      in (push_bit 24 (a AND 0xff) OR push_bit 16 (b AND 0xff) OR push_bit 8 (c AND 0xff)
            OR (d AND 0xff), u))"

definition get_int :: "unmarshall \<Rightarrow> u32 \<times> unmarshall" where
  "get_int u =
     (let (a, u) = u_rawbyte u; (b, u) = u_rawbyte u; (c, u) = u_rawbyte u; (d, u) = u_rawbyte u
      in (push_bit 24 (a AND 0xff) OR push_bit 16 (b AND 0xff) OR push_bit 8 (c AND 0xff)
            OR (d AND 0xff), u))"

definition get_ull :: "unmarshall \<Rightarrow> u64 \<times> unmarshall" where
  "get_ull u = (let (h, u) = get_uint u; (l, u) = get_uint u in (ucast l OR push_bit 32 (ucast h), u))"

text \<open>The destination keeps its old value \<open>s\<close> when the input is short.\<close>

definition get_string_into :: "string \<Rightarrow> unmarshall \<Rightarrow> string \<times> unmarshall" where
  "get_string_into s u =
     (let (sz, u) = get_uint u in if u_ok u then u_rawbytes s sz u else (s, u))"

abbreviation get_string :: "unmarshall \<Rightarrow> string \<times> unmarshall" where
  "get_string \<equiv> get_string_into []"

definition unpack_req_header :: "unmarshall \<Rightarrow> req_header \<times> unmarshall" where
  "unpack_req_header u =
     (let u = u\<lparr>u_ind := sizeof_rpc_sz\<rparr>;
          (xid, u) = u_unpack u;
          (proc, u) = u_unpack u;
          (clt, u) = u_unpack u;
          (srv, u) = u_unpack u;
          (rep, u) = u_unpack u
      in (\<lparr>rq_xid = xid, rq_proc = proc, rq_clt_nonce = clt, rq_srv_nonce = srv,
           rq_xid_rep = rep\<rparr>, u\<lparr>u_ind := RPC_HEADER_SZ\<rparr>))"

definition unpack_reply_header :: "unmarshall \<Rightarrow> reply_header \<times> unmarshall" where
  "unpack_reply_header u =
     (let u = u\<lparr>u_ind := sizeof_rpc_sz\<rparr>;
          (xid, u) = u_unpack u;
          (ret, u) = u_unpack u
      in (\<lparr>rp_xid = xid, rp_ret = ret\<rparr>, u\<lparr>u_ind := RPC_HEADER_SZ\<rparr>))"

section \<open>Vectors and maps\<close>

definition put_vector :: "(marshall \<Rightarrow> 'a \<Rightarrow> marshall) \<Rightarrow> marshall \<Rightarrow> 'a list \<Rightarrow> marshall" where
  "put_vector put m v = foldl put (put_uint m (of_nat (length v))) v"

fun get_times :: "nat \<Rightarrow> (unmarshall \<Rightarrow> 'a \<times> unmarshall) \<Rightarrow> unmarshall \<Rightarrow> 'a list \<times> unmarshall" where
  "get_times 0 get u = ([], u)"
| "get_times (Suc n) get u =
     (let (z, u) = get u; (v, u) = get_times n get u in (z # v, u))"

definition get_vector :: "(unmarshall \<Rightarrow> 'a \<times> unmarshall) \<Rightarrow> unmarshall \<Rightarrow> 'a list \<times> unmarshall" where
  "get_vector get u = (let (n, u) = get_uint u in get_times (unat n) get u)"

definition put_pair ::
  "(marshall \<Rightarrow> 'a \<Rightarrow> marshall) \<Rightarrow> (marshall \<Rightarrow> 'b \<Rightarrow> marshall) \<Rightarrow> marshall \<Rightarrow> 'a \<times> 'b \<Rightarrow> marshall" where
  "put_pair putA putB m ab = putB (putA m (fst ab)) (snd ab)"

definition get_pair ::
  "(unmarshall \<Rightarrow> 'a \<times> unmarshall) \<Rightarrow> (unmarshall \<Rightarrow> 'b \<times> unmarshall) \<Rightarrow>
   unmarshall \<Rightarrow> ('a \<times> 'b) \<times> unmarshall" where
  "get_pair getA getB u = (let (a, u) = getA u; (b, u) = getB u in ((a, b), u))"

definition put_map ::
  "(marshall \<Rightarrow> 'a \<Rightarrow> marshall) \<Rightarrow> (marshall \<Rightarrow> 'b \<Rightarrow> marshall) \<Rightarrow>
   marshall \<Rightarrow> ('a, 'b) omap \<Rightarrow> marshall" where
  "put_map putA putB m d = foldl (put_pair putA putB) (put_uint m (of_nat (length d))) d"

definition get_map ::
  "(unmarshall \<Rightarrow> 'a::linorder \<times> unmarshall) \<Rightarrow> (unmarshall \<Rightarrow> 'b \<times> unmarshall) \<Rightarrow>
   unmarshall \<Rightarrow> ('a, 'b) omap \<times> unmarshall" where
  "get_map getA getB u =
     (let (n, u) = get_uint u; (es, u) = get_times (unat n) (get_pair getA getB) u
      in (foldl (\<lambda>d (a, b). om_put a b d) [] es, u))"


section \<open>Specification: well-formed buffers and the wire format\<close>

text \<open>
  \<open>m_wf\<close> and \<open>u_wf\<close> are the representation invariants of the two buffers, \<open>m_written\<close> the
  prefix written so far and \<open>u_rest\<close> the part not read yet. \<open>be16\<close>, \<open>be32\<close>, \<open>be64\<close> and the
  \<open>enc_\<close> functions are the wire format: network byte order, strings and vectors preceded by a
  32-bit length. \<open>carries\<close> relates what is sent to what is received: an uninitialised byte may
  arrive as anything.
\<close>

definition m_wf :: "marshall \<Rightarrow> bool" where
  "m_wf m \<longleftrightarrow> length (m_buf m) = m_capa m \<and> m_ind m \<le> m_capa m \<and> RPC_HEADER_SZ \<le> m_capa m"

definition m_written :: "marshall \<Rightarrow> char option list" where
  "m_written m = take (m_ind m) (m_buf m)"

definition be16 :: "u16 \<Rightarrow> string" where
  "be16 x = map char_of_byte [ucast (drop_bit 8 x), ucast x]"

definition be32 :: "u32 \<Rightarrow> string" where
  "be32 x = map char_of_byte [ucast (drop_bit 24 x), ucast (drop_bit 16 x), ucast (drop_bit 8 x), ucast x]"

definition be64 :: "u64 \<Rightarrow> string" where
  "be64 x = be32 (ucast (drop_bit 32 x)) @ be32 (ucast x)"

definition u_wf :: "unmarshall \<Rightarrow> bool" where
  "u_wf u \<longleftrightarrow> length (u_buf u) = u_sz u \<and> u_ind u \<le> u_sz u \<and> u_sz u < 2 ^ 31"

definition u_rest :: "unmarshall \<Rightarrow> string" where
  "u_rest u = drop (u_ind u) (u_buf u)"

definition u_skip :: "nat \<Rightarrow> unmarshall \<Rightarrow> unmarshall" where
  "u_skip n u = u\<lparr>u_ind := u_ind u + n\<rparr>"

definition enc_string :: "string \<Rightarrow> string" where
  "enc_string s = be32 (of_nat (length s)) @ s"

definition enc_vector :: "('a \<Rightarrow> string) \<Rightarrow> 'a list \<Rightarrow> string" where
  "enc_vector enc v = be32 (of_nat (length v)) @ concat (map enc v)"

definition enc_map :: "('a \<Rightarrow> string) \<Rightarrow> ('b \<Rightarrow> string) \<Rightarrow> ('a, 'b) omap \<Rightarrow> string" where
  "enc_map encA encB = enc_vector (\<lambda>ab. encA (fst ab) @ encB (snd ab))"

definition enc_req_header :: "req_header \<Rightarrow> string" where
  "enc_req_header h =
     be32 (rq_xid h) @ be32 (rq_proc h) @ be32 (rq_clt_nonce h) @ be32 (rq_srv_nonce h)
       @ be32 (rq_xid_rep h)"

definition enc_reply_header :: "reply_header \<Rightarrow> string" where
  "enc_reply_header h = be32 (rp_xid h) @ be32 (rp_ret h)"

definition carries :: "char option list \<Rightarrow> string \<Rightarrow> bool" where
  "carries sent b \<longleftrightarrow> list_all2 (\<lambda>x c. x = None \<or> x = Some c) sent b"

text \<open>Concrete buffers for the examples of the properties.\<close>

definition example_pdu :: marshall where
  "example_pdu = \<lparr>m_buf = replicate 24 None @ map Some ''ping'', m_capa = 28, m_ind = 28\<rparr>"

definition example_req :: req_header where
  "example_req = \<lparr>rq_xid = 7, rq_proc = 0x7001, rq_clt_nonce = 0x80000001, rq_srv_nonce = 5, rq_xid_rep = 3\<rparr>"

section \<open>Buffer lemmas\<close>

lemma length_mem_write [simp]: "length (mem_write b i s) = length b"
  by (induction b i s rule: mem_write.induct) auto

lemma mem_write_eq:
  "i + length s \<le> length b \<Longrightarrow> mem_write b i s = take i b @ map Some s @ drop (i + length s) b"
proof (induction b i s rule: mem_write.induct)
  case (2 b i c cs)
  then show ?case
    by (simp add: take_Suc_conv_app_nth upd_conv_take_nth_drop ac_simps)
qed simp

lemma length_mem_realloc [simp]: "length (mem_realloc b n) = n"
  by (simp add: mem_realloc_def)

lemma take_mem_realloc: "i \<le> length b \<Longrightarrow> i \<le> n \<Longrightarrow> take i (mem_realloc b n) = take i b"
  by (simp add: mem_realloc_def min_def)

lemma m_rawbyte_appends:
  assumes "m_wf m"
  shows "m_wf (m_rawbyte m x)" 
    and "m_written (m_rawbyte m x) = m_written m @ [Some (char_of_byte x)]"
  using assms
  by (auto simp: m_wf_def m_written_def m_rawbyte_def Let_def mem_write_eq take_mem_realloc RPC_HEADER_SZ_def
        simp del: mem_write.simps)

lemma m_rawbytes_appends:
  assumes "m_wf m"
  shows "m_wf (m_rawbytes m s)" 
    and "m_written (m_rawbytes m s) = m_written m @ map Some s"
  using assms
  by (auto simp: m_wf_def m_written_def m_rawbytes_def Let_def mem_write_eq take_mem_realloc RPC_HEADER_SZ_def)

lemma ucast_and_ff: "(ucast (x AND 0xff) :: byte) = ucast (x::u32)"
proof -
  have m: "(0xff::u32) = mask 8" by (simp add: mask_eq_exp_minus_1)
  show ?thesis unfolding m by (rule bit_word_eqI) (auto simp: bit_simps)
qed
lemma ucast16_and_ff: "(ucast (x AND 0xff) :: byte) = ucast (x::u16)"
proof -
  have m: "(0xff::u16) = mask 8" by (simp add: mask_eq_exp_minus_1)
  show ?thesis unfolding m by (rule bit_word_eqI) (auto simp: bit_simps)
qed

lemma scast_and_ff: "(scast (b::byte) :: u32) AND 0xff = ucast b"
proof -
  have m: "(0xff::u32) = mask 8" by (simp add: mask_eq_exp_minus_1)
  show ?thesis
    unfolding m
  proof (rule bit_word_eqI)
    fix n :: nat
    show "bit ((scast b :: u32) AND mask 8) n = bit (ucast b :: u32) n"
      by (cases "n < 8") (auto simp: bit_simps min_absorb2 dest: bit_imp_le_length)
  qed
qed

lemma ucast_signed_drop_bit: "n + 8 \<le> 32 \<Longrightarrow> (ucast (signed_drop_bit n (x::u32)) :: byte) = ucast (drop_bit n x)"
  by (rule bit_word_eqI) (auto simp: bit_simps)

lemma join32:
  "push_bit 24 (ucast (ucast (drop_bit 24 x) :: byte)) OR push_bit 16 (ucast (ucast (drop_bit 16 x) :: byte))
   OR push_bit 8 (ucast (ucast (drop_bit 8 x) :: byte)) OR ucast (ucast x :: byte) = (x::u32)"
proof (rule bit_word_eqI)
  fix n :: nat
  assume "n < LENGTH(32)"
  then consider "n < 8" | "8 \<le> n" "n < 16" | "16 \<le> n" "n < 24" | "24 \<le> n" "n < 32"
    by fastforce
  then show "bit (push_bit 24 (ucast (ucast (drop_bit 24 x) :: byte)) OR
      push_bit 16 (ucast (ucast (drop_bit 16 x) :: byte)) OR
      push_bit 8 (ucast (ucast (drop_bit 8 x) :: byte)) OR ucast (ucast x :: byte) :: u32) n = bit x n"
    by cases (auto simp: bit_simps)
qed
lemma join16:
  "ucast (push_bit 8 (ucast (ucast (drop_bit 8 x) :: byte) :: u32)) OR ucast (ucast (ucast x :: byte) :: u32) = (x::u16)"
  by (rule bit_word_eqI) (auto simp: bit_simps not_le)
lemma join64:
  "ucast (ucast x :: u32) OR push_bit 32 (ucast (ucast (drop_bit 32 x) :: u32)) = (x::u64)"
  by (rule bit_word_eqI) (auto simp: bit_simps not_le)


lemma length_be [simp]: "length (be16 x) = 2" "length (be32 y) = 4" "length (be64 z) = 8"
  by (simp_all add: be16_def be32_def be64_def)

lemma put_uint_appends:
  assumes "m_wf m"
  shows "m_wf (put_uint m x)" and "m_written (put_uint m x) = m_written m @ map Some (be32 x)"
  using assms by (simp_all add: put_uint_def m_rawbyte_appends ucast_and_ff be32_def)

lemma m_pack_appends:
  assumes "m_wf m"
  shows "m_wf (m_pack m x)" and "m_written (m_pack m x) = m_written m @ map Some (be32 x)"
  using assms
  by (simp_all add: m_pack_def m_rawbyte_appends ucast_and_ff ucast_signed_drop_bit be32_def)

lemma u_skip_simps [simp]:
  "u_ok (u_skip n u) = u_ok u" "u_skip 0 u = u" "u_skip a (u_skip b u) = u_skip (b + a) u"
  "u_rest (u_skip n u) = drop n (u_rest u)" "u_ind (u_skip n u) = u_ind u + n" "u_sz (u_skip n u) = u_sz u"
  "u_oob (u_skip n u) = u_oob u" "u_buf (u_skip n u) = u_buf u"
  by (simp_all add: u_skip_def u_rest_def add.commute)

lemma u_skip_seek [simp]: "(u_skip n u)\<lparr>u_ind := i\<rparr> = u\<lparr>u_ind := i\<rparr>"
  by (simp add: u_skip_def)

lemma u_wf_skip [simp]: "u_wf u \<Longrightarrow> n \<le> length (u_rest u) \<Longrightarrow> u_wf (u_skip n u)"
  by (auto simp: u_wf_def u_rest_def)

lemma u_rawbyte_rest:
  assumes "u_wf u" and "u_rest u = c # cs"
  shows "u_rawbyte u = (scast (byte_of_char c), u_skip 1 u)"
proof -
  have "u_ind u < length (u_buf u)"
    using assms(2) by (cases "u_ind u < length (u_buf u)") (auto simp: u_rest_def)
  then show ?thesis
    using assms by (simp add: u_rawbyte_def u_skip_def u_wf_def u_rest_def Cons_nth_drop_Suc [symmetric])
qed

lemma get_uint_rest:
  assumes "u_wf u" and "u_rest u = be32 x @ r"
  shows "get_uint u = (x, u_skip 4 u)"
  using assms
  by (simp add: get_uint_def be32_def u_rawbyte_rest scast_and_ff join32 del: push_bit_and)

lemma u_unpack_eq: "u_unpack = get_uint" and get_int_eq: "get_int = get_uint" and put_int_eq: "put_int = put_uint"
  by (simp_all add: fun_eq_iff u_unpack_def get_uint_def get_int_def put_int_def)

locale codec =
  fixes put :: "marshall \<Rightarrow> 'a \<Rightarrow> marshall"
    and get :: "unmarshall \<Rightarrow> 'a \<times> unmarshall"
    and enc :: "'a \<Rightarrow> string"
  assumes put_wf: "m_wf m \<Longrightarrow> m_wf (put m a)"
    and put_written: "m_wf m \<Longrightarrow> m_written (put m a) = m_written m @ map Some (enc a)"
    and get_enc: "u_wf u \<Longrightarrow> u_ok u \<Longrightarrow> u_rest u = enc a @ r \<Longrightarrow> get u = (a, u_skip (length (enc a)) u)"
    and enc_nonempty: "enc a \<noteq> []"
begin

lemma get_enc_only:
  "u_wf u \<Longrightarrow> u_ok u \<Longrightarrow> u_rest u = enc a \<Longrightarrow> get u = (a, u_skip (length (enc a)) u)"
  using get_enc [of u a "[]"] by simp

lemma roundtrip:
  assumes "length (enc a) < 2 ^ 31 - RPC_HEADER_SZ"
  shows "\<exists>s u. get_content (put marshall_new a) = Some s \<and> get (take_content junk s) = (a, u) \<and> u_okdone u \<and> \<not> u_oob u"
proof -
  have w: "m_wf marshall_new"
    by (simp add: m_wf_def marshall_new_def DEFAULT_RPC_SZ_def RPC_HEADER_SZ_def sizeof_rpc_sz_def)
  have "drop RPC_HEADER_SZ (m_written (put marshall_new a)) = map Some (enc a)"
    using put_written [OF w, of a]
    by (simp add: m_written_def marshall_new_def DEFAULT_RPC_SZ_def RPC_HEADER_SZ_def sizeof_rpc_sz_def)
  then have "get_content (put marshall_new a) = those (map Some (enc a))"
    by (simp add: get_content_def m_written_def drop_take)
  moreover have "those (map Some s) = Some s" for s :: string
    by (induction s) auto
  moreover have "get (take_content junk (enc a)) = (a, u_skip (length (enc a)) (take_content junk (enc a)))"
    using assms by (intro get_enc_only) (auto simp: u_wf_def u_rest_def take_content_def)
  ultimately show ?thesis
    by (simp add: u_okdone_def take_content_def)
qed

lemma foldl_put_wf: "m_wf m \<Longrightarrow> m_wf (foldl put m v)"
  by (induction v arbitrary: m) (auto simp: put_wf)

lemma foldl_put_written:
  "m_wf m \<Longrightarrow> m_written (foldl put m v) = m_written m @ map Some (concat (map enc v))"
  by (induction v arbitrary: m) (auto simp: put_wf put_written)

lemma length_concat_enc: "length v \<le> length (concat (map enc v))"
proof (induction v)
  case (Cons a v)
  then show ?case
    using enc_nonempty [of a] by (cases "enc a") auto
qed simp

lemma get_times_enc:
  "u_wf u \<Longrightarrow> u_ok u \<Longrightarrow> u_rest u = concat (map enc v) @ r \<Longrightarrow>
   get_times (length v) get u = (v, u_skip (length (concat (map enc v))) u)"
proof (induction v arbitrary: u)
  case (Cons a v)
  have "get u = (a, u_skip (length (enc a)) u)"
    using Cons.prems by (intro get_enc [of _ _ "concat (map enc v) @ r"]) auto
  moreover have "get_times (length v) get (u_skip (length (enc a)) u) =
      (v, u_skip (length (concat (map enc v))) (u_skip (length (enc a)) u))"
    using Cons.prems by (intro Cons.IH) auto
  ultimately show ?case
    by simp
qed simp

lemma vector_codec: "codec (put_vector put) (get_vector get) (enc_vector enc)"
proof
  fix m v
  assume w: "m_wf m"
  show "m_wf (put_vector put m v)"
    using w by (simp add: put_vector_def foldl_put_wf put_uint_appends)
  show "m_written (put_vector put m v) = m_written m @ map Some (enc_vector enc v)"
    using w by (simp add: put_vector_def enc_vector_def foldl_put_written put_uint_appends)
next
  fix u v r
  assume u: "u_wf u" "u_ok u" "u_rest u = enc_vector enc v @ r"
  have len: "length v < 2 ^ 32"
    using u length_concat_enc [of v]
    by (auto simp: u_wf_def u_rest_def enc_vector_def dest!: arg_cong [of _ _ length])
  have "get_uint u = (of_nat (length v), u_skip 4 u)"
    using u by (intro get_uint_rest) (auto simp: enc_vector_def)
  moreover have "get_times (length v) get (u_skip 4 u) =
      (v, u_skip (length (concat (map enc v))) (u_skip 4 u))"
    using u by (intro get_times_enc [where r = r]) (auto simp: enc_vector_def)
  ultimately show "get_vector get u = (v, u_skip (length (enc_vector enc v)) u)"
    using len by (simp add: get_vector_def enc_vector_def unat_of_nat)
qed (simp add: enc_vector_def be32_def)

lemma iso_codec:
  assumes "\<And>a. g (f a) = a"
  shows "codec (\<lambda>m b. put m (f b)) (\<lambda>u. apfst g (get u)) (\<lambda>b. enc (f b))"
  using assms by unfold_locales (auto simp: put_wf put_written get_enc enc_nonempty)

end

locale codec_pair = A: codec putA getA encA + B: codec putB getB encB
  for putA :: "marshall \<Rightarrow> 'a \<Rightarrow> marshall" and getA encA
    and putB :: "marshall \<Rightarrow> 'b \<Rightarrow> marshall" and getB encB
begin

lemma pair_codec:
  "codec (put_pair putA putB) (get_pair getA getB) (\<lambda>ab. encA (fst ab) @ encB (snd ab))"
proof
  fix u ab r
  assume u: "u_wf u" "u_ok u" "u_rest u = (encA (fst ab) @ encB (snd ab)) @ r"
  have "getA u = (fst ab, u_skip (length (encA (fst ab))) u)"
    using u by (intro A.get_enc [of _ _ "encB (snd ab) @ r"]) auto
  moreover have "getB (u_skip (length (encA (fst ab))) u) =
      (snd ab, u_skip (length (encB (snd ab))) (u_skip (length (encA (fst ab))) u))"
    using u by (intro B.get_enc [of _ _ r]) auto
  ultimately show "get_pair getA getB u =
      (ab, u_skip (length (encA (fst ab) @ encB (snd ab))) u)"
    by (simp add: get_pair_def)
qed (auto simp: put_pair_def A.put_wf B.put_wf A.put_written B.put_written A.enc_nonempty)

end

interpretation uint_c: codec put_uint get_uint be32
  by unfold_locales (auto simp: put_uint_appends get_uint_rest be32_def)

lemma get_string_enc:
  assumes "u_wf u" "u_ok u" "u_rest u = enc_string s @ r"
  shows "get_string_into s0 u = (s, u_skip (length (enc_string s)) u)"
proof -
  have len: "u_ind u + 4 + length s \<le> u_sz u" "u_sz u < 2 ^ 31"
    using assms by (auto simp: u_wf_def u_rest_def enc_string_def dest!: arg_cong [of _ _ length])
  have d: "drop (u_ind u + 4) (u_buf u) = s @ r"
    using assms(3) by (metis (no_types, lifting) append_assoc append_eq_conv_conj drop_drop enc_string_def length_be(2) u_rest_def add.commute)
  have "get_uint u = (of_nat (length s), u_skip 4 u)"
    using assms by (intro get_uint_rest) (auto simp: enc_string_def)
  moreover have "\<not> (of_nat (u_sz u) :: u32) < of_nat (u_ind u + 4) + of_nat (length s)"
     "unat (of_nat (u_ind u + 4) + of_nat (length s) :: u32) = u_ind u + 4 + length s"
    using len by (simp_all add: unat_of_nat word_less_nat_alt flip: of_nat_add)
  ultimately show ?thesis
    using assms(2) len d
    by (simp add: get_string_into_def u_rawbytes_def u_skip_def enc_string_def unat_of_nat)
qed

interpretation string_c: codec put_string get_string enc_string
  by unfold_locales
    (auto simp: put_string_def enc_string_def put_uint_appends m_rawbytes_appends get_string_enc be32_def)

section \<open>Scalars\<close>

lemma ucast_scast_byte [simp]: "(ucast (scast b :: u32) :: byte) = b"
proof (rule bit_word_eqI)
  fix n :: nat
  assume "n < LENGTH(8)"
  then show "bit (ucast (scast b :: u32) :: byte) n = bit b n"
    by (auto simp: bit_simps min_absorb2)
qed

lemma put_short_eq: "put_short = put_ushort"
  by (simp add: fun_eq_iff put_short_def)

lemma get_short_eq: "get_short = get_ushort"
  by (simp add: fun_eq_iff get_short_def get_ushort_def)

lemma put_bool_appends:
  assumes "m_wf m"
  shows "m_wf (put_bool m x)" and "m_written (put_bool m x) = m_written m @ [Some (char_of_byte (of_bool x))]"
  using assms by (simp_all add: put_bool_def m_rawbyte_appends)

interpretation bool_c: codec put_bool get_bool "\<lambda>x. [char_of_byte (of_bool x)]"
  by unfold_locales
    (auto simp: put_bool_appends get_bool_def u_rawbyte_rest split: if_splits)

interpretation uchar_c: codec put_uchar get_uchar "\<lambda>x. [char_of_byte x]"
  by unfold_locales
    (auto simp: put_uchar_def m_rawbyte_appends get_uchar_def u_rawbyte_rest)

interpretation char_c: codec put_char get_char "\<lambda>x. [x]"
  by unfold_locales
    (auto simp: put_char_def put_uchar_def m_rawbyte_appends get_char_def u_rawbyte_rest)

interpretation ushort_c: codec put_ushort get_ushort be16
  by unfold_locales
    (auto simp: put_ushort_def m_rawbyte_appends get_ushort_def be16_def u_rawbyte_rest
      ucast16_and_ff scast_and_ff join16 simp del: push_bit_and)

interpretation short_c: codec put_short get_short be16
  using ushort_c.codec_axioms by (simp add: put_short_eq get_short_eq)

interpretation int_c: codec put_int get_int be32
  using uint_c.codec_axioms by (simp add: put_int_eq get_int_eq)

interpretation ull_c: codec put_ull get_ull be64
proof
  fix u x r
  assume u: "u_wf u" "u_rest u = be64 x @ r"
  then have "get_uint u = (ucast (drop_bit 32 x), u_skip 4 u)"
    by (intro get_uint_rest) (auto simp: be64_def)
  moreover have "get_uint (u_skip 4 u) = (ucast x, u_skip 4 (u_skip 4 u))"
    using u by (intro get_uint_rest) (auto simp: be64_def)
  ultimately show "get_ull u = (x, u_skip (length (be64 x)) u)"
    by (simp add: get_ull_def join64)
qed (auto simp: put_ull_def be64_def put_uint_appends be32_def)

section \<open>Structs\<close>

text \<open>
  The operators of a struct send its fields one after the other: they form a codec because the
  struct is isomorphic to the nested pair of its fields.
\<close>

lemma codec_pairI:
  "codec pA gA eA \<Longrightarrow> codec pB gB eB \<Longrightarrow>
   codec (put_pair pA pB) (get_pair gA gB) (\<lambda>ab. eA (fst ab) @ eB (snd ab))"
  by (rule codec_pair.pair_codec) (rule codec_pair.intro)

lemma codec_structI:
  assumes "codec p g e" and "\<And>a. of_tup (tup a) = a"
    and "\<And>m a. p' m a = p m (tup a)" and "\<And>u. g' u = apfst of_tup (g u)" and "\<And>a. e' a = e (tup a)"
  shows "codec p' g' e'"
proof -
  have "p' = (\<lambda>m a. p m (tup a))" "g' = (\<lambda>u. apfst of_tup (g u))" "e' = (\<lambda>a. e (tup a))"
    using assms(3-5) by (auto simp: fun_eq_iff)
  then show ?thesis
    using codec.iso_codec [OF assms(1), of of_tup tup] assms(2) by simp
qed

interpretation uint_pair: codec_pair put_uint get_uint be32 put_uint get_uint be32
  by unfold_locales

section \<open>Maps\<close>

text \<open>The entries of a \<open>std::map\<close> arrive in key order, so that inserting them rebuilds the map.\<close>

locale codec_map = codec_pair putA getA encA putB getB encB
  for putA :: "marshall \<Rightarrow> 'a::linorder \<Rightarrow> marshall" and getA encA
    and putB :: "marshall \<Rightarrow> 'b \<Rightarrow> marshall" and getB encB
begin

lemma get_map_enc:
  assumes "om_wf d" and "u_wf u" and "u_ok u" and "u_rest u = enc_map encA encB d @ r"
  shows "get_map getA getB u = (d, u_skip (length (enc_map encA encB d)) u)"
proof -
  have "get_vector (get_pair getA getB) u = (d, u_skip (length (enc_map encA encB d)) u)"
    using codec.get_enc [OF codec.vector_codec [OF pair_codec], of u d r] assms
    by (simp add: enc_map_def)
  then show ?thesis
    using assms(1) foldl_om_put [of "[]" d] by (simp add: get_map_def get_vector_def split: prod.splits)
qed

lemma put_map_appends:
  assumes "m_wf m"
  shows "m_wf (put_map putA putB m d)"
    and "m_written (put_map putA putB m d) = m_written m @ map Some (enc_map encA encB d)"
  using codec.put_wf [OF codec.vector_codec [OF pair_codec], of m d]
    codec.put_written [OF codec.vector_codec [OF pair_codec], of m d] assms
  by (simp_all add: put_map_def put_vector_def enc_map_def)

end

interpretation string_uint_map: codec_map put_string get_string enc_string put_uint get_uint be32
  by unfold_locales

section \<open>Headers\<close>

lemma mem_write_append:
  "mem_write b i (s @ t) = mem_write (mem_write b i s) (i + length s) t"
  by (induction b i s rule: mem_write.induct) auto

lemma m_rawbyte_inplace:
  "m_ind m < m_capa m \<Longrightarrow>
   m_rawbyte m x = m\<lparr>m_buf := (m_buf m)[m_ind m := Some (char_of_byte x)], m_ind := m_ind m + 1\<rparr>"
  by (simp add: m_rawbyte_def)

lemma m_pack_inplace:
  "m_ind m + 4 \<le> m_capa m \<Longrightarrow>
   m_pack m x = m\<lparr>m_buf := mem_write (m_buf m) (m_ind m) (be32 x), m_ind := m_ind m + 4\<rparr>"
  by (simp add: m_pack_def m_rawbyte_inplace be32_def ucast_and_ff ucast_signed_drop_bit)

lemma length_enc_header [simp]:
  "length (enc_req_header h) = 20" "length (enc_reply_header g) = 8"
  by (simp_all add: enc_req_header_def enc_reply_header_def)

lemma pack_req_header_eq:
  "RPC_HEADER_SZ \<le> m_capa m \<Longrightarrow>
   pack_req_header m h = m\<lparr>m_buf := mem_write (m_buf m) sizeof_rpc_sz (enc_req_header h)\<rparr>"
  by (simp add: pack_req_header_def enc_req_header_def m_pack_inplace mem_write_append
      RPC_HEADER_SZ_def sizeof_rpc_sz_def)

lemma pack_reply_header_eq:
  "RPC_HEADER_SZ \<le> m_capa m \<Longrightarrow>
   pack_reply_header m h = m\<lparr>m_buf := mem_write (m_buf m) sizeof_rpc_sz (enc_reply_header h)\<rparr>"
  by (simp add: pack_reply_header_def enc_reply_header_def m_pack_inplace mem_write_append
      RPC_HEADER_SZ_def sizeof_rpc_sz_def)

lemma unpack_req_header_enc:
  assumes "length b < 2 ^ 31" and "drop sizeof_rpc_sz b = enc_req_header h @ s"
  shows "unpack_req_header (unmarshall_buf b) = (h, (unmarshall_buf b)\<lparr>u_ind := RPC_HEADER_SZ\<rparr>)"
proof -
  let ?u = "(unmarshall_buf b)\<lparr>u_ind := sizeof_rpc_sz\<rparr>"
  have len: "length b = 24 + length s"
    using arg_cong [OF assms(2), of length] by (simp add: sizeof_rpc_sz_def)
  then have w: "u_wf ?u"
    using assms(1) by (simp add: u_wf_def unmarshall_buf_def sizeof_rpc_sz_def)
  have r: "u_rest ?u = enc_req_header h @ s"
    using assms(2) by (simp add: u_rest_def unmarshall_buf_def)
  show ?thesis
    using w r by (simp add: unpack_req_header_def u_unpack_eq get_uint_rest enc_req_header_def)
qed

lemma unpack_reply_header_enc:
  assumes "length b < 2 ^ 31" and "drop sizeof_rpc_sz b = enc_reply_header h @ s"
  shows "unpack_reply_header (unmarshall_buf b) = (h, (unmarshall_buf b)\<lparr>u_ind := RPC_HEADER_SZ\<rparr>)"
proof -
  let ?u = "(unmarshall_buf b)\<lparr>u_ind := sizeof_rpc_sz\<rparr>"
  have len: "length b = 12 + length s"
    using arg_cong [OF assms(2), of length] by (simp add: sizeof_rpc_sz_def)
  then have w: "u_wf ?u"
    using assms(1) by (simp add: u_wf_def unmarshall_buf_def sizeof_rpc_sz_def)
  have r: "u_rest ?u = enc_reply_header h @ s"
    using assms(2) by (simp add: u_rest_def unmarshall_buf_def)
  show ?thesis
    using w r by (simp add: unpack_reply_header_def u_unpack_eq get_uint_rest enc_reply_header_def)
qed

lemma carries_Some: "carries (map Some s) b \<longleftrightarrow> b = s"
proof -
  have "list_all2 (\<lambda>x c. x = None \<or> x = Some c) (map Some s) b \<longleftrightarrow> list_all2 (=) s b"
    by (simp add: list_all2_map1)
  then show ?thesis
    by (auto simp: carries_def list.rel_eq)
qed

lemma carries_append:
  "carries (xs @ ys) b \<longleftrightarrow>
   carries xs (take (length xs) b) \<and> carries ys (drop (length xs) b)"
proof (induction xs arbitrary: b)
  case (Cons x xs)
  then show ?case
    by (cases b) (auto simp: carries_def)
qed (simp add: carries_def)

lemma those_eq_Some_iff: "those xs = Some s \<longleftrightarrow> xs = map Some s"
  by (induction xs arbitrary: s) (auto split: option.splits)

lemma sent_pdu:
  assumes m: "m_wf m" "RPC_HEADER_SZ \<le> m_ind m" and c: "get_content m = Some c"
    and h: "4 + length e \<le> RPC_HEADER_SZ"
    and sent: "carries (take (m_ind m) (mem_write (m_buf m) sizeof_rpc_sz e)) b"
  shows "take (length e) (drop sizeof_rpc_sz b) = e" and "drop RPC_HEADER_SZ b = c"
    and "length b = m_ind m"
proof -
  let ?w = "take (m_ind m) (mem_write (m_buf m) sizeof_rpc_sz e)"
  let ?gap = "take (RPC_HEADER_SZ - (4 + length e)) (drop (4 + length e) (m_buf m))"
  have len: "length (m_buf m) = m_capa m" "m_ind m \<le> m_capa m" "RPC_HEADER_SZ = 24" "sizeof_rpc_sz = 4"
    using m by (simp_all add: m_wf_def RPC_HEADER_SZ_def sizeof_rpc_sz_def)
  have body: "take (m_ind m - 24) (drop 24 (m_buf m)) = map Some c"
    using c len by (simp add: get_content_def those_eq_Some_iff)
  have "?w = (take 4 (m_buf m) @ map Some e @ ?gap) @ map Some c"
    using m h len body
    by (intro nth_equalityI)
      (auto simp: mem_write_eq nth_append simp flip: body)
  then show "take (length e) (drop sizeof_rpc_sz b) = e" "drop RPC_HEADER_SZ b = c"
    using sent m h len by (auto simp: carries_append carries_Some)
  show "length b = m_ind m"
    using list_all2_lengthD [OF sent [unfolded carries_def]] len by simp
qed

section \<open>Delivery of PDUs\<close>

lemma req_pdu_delivered:
  assumes "m_wf m" and "RPC_HEADER_SZ \<le> m_ind m" and "m_ind m < 2 ^ 31" and "get_content m = Some c"
    and "carries (fst (m_take_buf (pack_req_header m h))) b"
  shows "\<exists>u. unpack_req_header (unmarshall_buf b) = (h, u) \<and> u_wf u \<and> u_ok u \<and> u_rest u = c"
proof -
  have "carries (take (m_ind m) (mem_write (m_buf m) sizeof_rpc_sz (enc_req_header h))) b"
    using assms by (simp add: m_take_buf_def pack_req_header_eq m_wf_def)
  note p = sent_pdu [OF assms(1,2,4) _ this]
  have "drop sizeof_rpc_sz b = enc_req_header h @ drop 20 (drop sizeof_rpc_sz b)"
    using p(1) by (metis RPC_HEADER_SZ_def append_take_drop_id length_enc_header(1) max.cobounded1
        add.commute add_left_mono sizeof_rpc_sz_def)
  then have "unpack_req_header (unmarshall_buf b) = (h, (unmarshall_buf b)\<lparr>u_ind := RPC_HEADER_SZ\<rparr>)"
    using p(3) assms(3) by (intro unpack_req_header_enc) (auto simp: RPC_HEADER_SZ_def sizeof_rpc_sz_def)
  then show ?thesis
    using p(2,3) assms(2,3)
    by (auto simp: u_wf_def u_rest_def unmarshall_buf_def RPC_HEADER_SZ_def sizeof_rpc_sz_def)
qed

lemma reply_pdu_delivered:
  assumes "m_wf m" and "RPC_HEADER_SZ \<le> m_ind m" and "m_ind m < 2 ^ 31" and "get_content m = Some c"
    and "carries (fst (m_take_buf (pack_reply_header m h))) b"
  shows "\<exists>u. unpack_reply_header (unmarshall_buf b) = (h, u) \<and> u_ok u \<and>
    u_wf (fst (u_take_in unmarshall_empty u)) \<and>
    u_rest (fst (u_take_in unmarshall_empty u)) = c \<and> u_ok (fst (u_take_in unmarshall_empty u))"
proof -
  have "carries (take (m_ind m) (mem_write (m_buf m) sizeof_rpc_sz (enc_reply_header h))) b"
    using assms by (simp add: m_take_buf_def pack_reply_header_eq m_wf_def)
  note p = sent_pdu [OF assms(1,2,4) _ this]
  have "drop sizeof_rpc_sz b = enc_reply_header h @ drop 8 (drop sizeof_rpc_sz b)"
    using p(1) append_take_drop_id [of 8 "drop sizeof_rpc_sz b"]
    by (simp add: RPC_HEADER_SZ_def sizeof_rpc_sz_def)
  then have "unpack_reply_header (unmarshall_buf b) = (h, (unmarshall_buf b)\<lparr>u_ind := RPC_HEADER_SZ\<rparr>)"
    using p(3) assms(3) by (intro unpack_reply_header_enc) (auto simp: RPC_HEADER_SZ_def sizeof_rpc_sz_def)
  then show ?thesis
    using p(2,3) assms(2,3)
    by (auto simp: u_take_in_def u_take_buf_def u_rest_def u_wf_def unmarshall_buf_def RPC_HEADER_SZ_def sizeof_rpc_sz_def)
qed

section \<open>Properties\<close>

text \<open>C28: A request PDU that is marshalled, given its header by \<open>pack_req_header\<close> and sent arrives
  intact: whatever the uninitialised size field holds, \<open>unpack_req_header\<close> returns the header
  that was packed and leaves the cursor on the marshalled arguments.\<close>

theorem req_pdu_roundtrip:
  assumes "m_wf m" and "RPC_HEADER_SZ \<le> m_ind m" and "m_ind m < 2 ^ 31" and "get_content m = Some c"
    and "carries (fst (m_take_buf (pack_req_header m h))) b"
  shows "\<exists>u. unpack_req_header (unmarshall_buf b) = (h, u) \<and> u_wf u \<and> u_ok u \<and> u_rest u = c"
  using assms by (rule req_pdu_delivered)

theorem req_pdu_roundtrip_witness:
  "\<exists>u. unpack_req_header (unmarshall_buf (''????'' @ enc_req_header example_req @ ''ping'')) = (example_req, u)
     \<and> u_wf u \<and> u_ok u \<and> u_rest u = ''ping''"
proof (rule req_pdu_roundtrip [of example_pdu])
  show "m_wf example_pdu" "RPC_HEADER_SZ \<le> m_ind example_pdu" "m_ind example_pdu < 2 ^ 31"
    by (simp_all add: m_wf_def example_pdu_def RPC_HEADER_SZ_def sizeof_rpc_sz_def)
  show "get_content example_pdu = Some ''ping''"
    by code_simp
  show "carries (fst (m_take_buf (pack_req_header example_pdu example_req)))
      (''????'' @ enc_req_header example_req @ ''ping'')"
    by code_simp
qed

text \<open>A reply PDU arrives intact, too: the reply header is shorter than the space the
  buffer reserves for a header, and the marshalled result still starts where the client's
  \<open>take_in\<close> looks for it.\<close>

theorem reply_pdu_roundtrip:
  assumes "m_wf m" and "RPC_HEADER_SZ \<le> m_ind m" and "m_ind m < 2 ^ 31" and "get_content m = Some c"
    and "carries (fst (m_take_buf (pack_reply_header m h))) b"
  shows "\<exists>u. unpack_reply_header (unmarshall_buf b) = (h, u) \<and> u_ok u \<and>
    u_rest (fst (u_take_in unmarshall_empty u)) = c \<and> u_ok (fst (u_take_in unmarshall_empty u))"
  using reply_pdu_delivered [OF assms] by blast

theorem reply_pdu_roundtrip_witness:
  "\<exists>u. unpack_reply_header (unmarshall_buf (''????'' @ enc_reply_header \<lparr>rp_xid = 7, rp_ret = 0xFFFFFFFD\<rparr>
       @ ''------------'' @ ''ping'')) = (\<lparr>rp_xid = 7, rp_ret = 0xFFFFFFFD\<rparr>, u) \<and> u_ok u \<and>
     u_rest (fst (u_take_in unmarshall_empty u)) = ''ping'' \<and> u_ok (fst (u_take_in unmarshall_empty u))"
proof (rule reply_pdu_roundtrip [of example_pdu])
  show "m_wf example_pdu" "RPC_HEADER_SZ \<le> m_ind example_pdu" "m_ind example_pdu < 2 ^ 31"
    by (simp_all add: m_wf_def example_pdu_def RPC_HEADER_SZ_def sizeof_rpc_sz_def)
  show "get_content example_pdu = Some ''ping''"
    by code_simp
  show "carries (fst (m_take_buf (pack_reply_header example_pdu \<lparr>rp_xid = 7, rp_ret = 0xFFFFFFFD\<rparr>)))
      (''????'' @ enc_reply_header \<lparr>rp_xid = 7, rp_ret = 0xFFFFFFFD\<rparr> @ ''------------'' @ ''ping'')"
    by code_simp
qed

text \<open>The exact condition under which \<open>unmarshall::rawbytes\<close> reads outside its buffer: the
  cursor plus the requested length reaches \<open>2 ^ 32\<close>, where the unsigned sum in the bound check
  wraps around. Every other length is either copied from inside the buffer or refused.\<close>

theorem rawbytes_oob_iff:
  assumes "u_wf u" and "\<not> u_oob u"
  shows "u_oob (snd (u_rawbytes ss n u)) \<longleftrightarrow> 2 ^ 32 \<le> u_ind u + unat n"
proof -
  have sz: "unat (of_nat (u_sz u) :: u32) = u_sz u" "u_ind u \<le> u_sz u" "u_sz u < 2 ^ 31"
    using assms by (simp_all add: u_wf_def unat_of_nat)
  have n: "unat n < 2 ^ 32"
    using unsigned_less [of n, where ?'a = nat] by simp
  have sum: "unat (of_nat (u_ind u) + n) = (u_ind u + unat n) mod 2 ^ 32"
    by (simp add: unat_word_ariths unat_of_nat mod_simps)
  show ?thesis
  proof (cases "2 ^ 32 \<le> u_ind u + unat n")
    case True
    then have "unat (of_nat (u_ind u) + n) = u_ind u + unat n - 2 ^ 32"
      using n sz unfolding sum by (subst le_mod_geq) auto
    moreover have "u_ind u + unat n - 2 ^ 32 \<le> u_sz u"
      using n sz by linarith
    moreover have "u_sz u < u_ind u + unat n"
      using True sz by simp
    ultimately show ?thesis
      using True sz by (simp add: u_rawbytes_def word_less_nat_alt)
  next
    case False
    then have "unat (of_nat (u_ind u) + n) = u_ind u + unat n"
      by (simp add: sum)
    then show ?thesis
      using False n sz assms by (simp add: u_rawbytes_def word_less_nat_alt)
  qed
qed

theorem rawbytes_oob_iff_witness:
  "u_oob (snd (u_rawbytes [] 0xFFFFFFFF (u_skip 4 (unmarshall_buf (be32 0xFFFFFFFF @ ''abcd'')))))"
  using rawbytes_oob_iff [of "u_skip 4 (unmarshall_buf (be32 0xFFFFFFFF @ ''abcd''))" "[]" "0xFFFFFFFF"]
  by (simp add: u_wf_def unmarshall_buf_def u_skip_def)

end
