(* ===== verification/Timespec.thy ===== *)
theory Timespec
  imports Prelude "HOL-Library.Signed_Division"
begin

text \<open>
  Deadlines of the RPC client: \<open>cmp_timespec\<close>, \<open>add_timespec\<close> and \<open>diff_timespec\<close> of rpc/rpc.cc.
  \<open>time_t\<close> and \<open>long\<close> are 64 bits wide and modelled as unbounded integers; C++ division and
  remainder truncate towards zero (\<open>sdiv\<close>, \<open>smod\<close>); the \<open>int\<close> result of \<open>diff_timespec\<close> is cut to
  32 bits by \<open>int32\<close>.
\<close>

section \<open>Definitions\<close>

record timespec =
  tv_sec :: int
  tv_nsec :: int

definition int32 :: "int \<Rightarrow> int" where
  "int32 x = sint (word_of_int x :: u32)"

definition cmp_timespec :: "timespec \<Rightarrow> timespec \<Rightarrow> int" where
  "cmp_timespec a b =
     (if tv_sec b < tv_sec a then 1
      else if tv_sec a < tv_sec b then - 1
      else if tv_nsec b < tv_nsec a then 1
      else if tv_nsec a < tv_nsec b then - 1
      else 0)"

function carry_nsec :: "timespec \<Rightarrow> timespec" where
  "carry_nsec r =
     (if 1000000000 < tv_nsec r
      then carry_nsec (r\<lparr>tv_sec := tv_sec r + 1, tv_nsec := tv_nsec r - 1000000000\<rparr>)
      else r)"
  by pat_completeness auto
termination
  by (relation "measure (\<lambda>r. nat (tv_nsec r))") auto

definition add_timespec :: "timespec \<Rightarrow> int \<Rightarrow> timespec outcome" where
  "add_timespec a b =
     (let r = \<lparr>tv_sec = tv_sec a + b sdiv 1000, tv_nsec = tv_nsec a + (b smod 1000) * 1000000\<rparr>
      in VERIFY (0 \<le> tv_nsec r) (Returns (carry_nsec r)))"

definition diff_timespec :: "timespec \<Rightarrow> timespec \<Rightarrow> int outcome" where
  "diff_timespec end_t start =
     (let diff = (if tv_sec start < tv_sec end_t then int32 ((tv_sec end_t - tv_sec start) * 1000) else 0)
      in VERIFY (diff \<noteq> 0 \<or> tv_sec end_t = tv_sec start)
          (Returns
            (if tv_nsec start < tv_nsec end_t
             then int32 (diff + (tv_nsec end_t - tv_nsec start) sdiv 1000000)
             else int32 (diff - (tv_nsec start - tv_nsec end_t) sdiv 1000000))))"

text \<open>The instant a timespec denotes, in nanoseconds.\<close>

definition ns_of :: "timespec \<Rightarrow> int" where
  "ns_of t = tv_sec t * 1000000000 + tv_nsec t"

section \<open>Lemmas\<close>

declare carry_nsec.simps [simp del]

lemma carry_nsec_spec:
  assumes "0 \<le> tv_nsec r"
  shows "ns_of (carry_nsec r) = ns_of r \<and> 0 \<le> tv_nsec (carry_nsec r)
    \<and> tv_nsec (carry_nsec r) \<le> 1000000000 \<and> (tv_nsec (carry_nsec r) = 0 \<longrightarrow> tv_nsec r = 0)"
  using assms
proof (induction r rule: carry_nsec.induct)
  case (1 r)
  show ?case
    using 1 by (subst (1 2 3 4) carry_nsec.simps) (auto simp: ns_of_def split: if_splits)
qed

lemma sdiv_smod_1000: "0 \<le> b \<Longrightarrow> b sdiv 1000 = b div 1000 \<and> b smod 1000 = b mod (1000::int)"
  by (simp add: signed_divide_int_def signed_modulo_int_def minus_mult_div_eq_mod [symmetric] sgn_if)

lemma cmp_timespec_ns:
  assumes "0 \<le> tv_nsec a" "tv_nsec a < 1000000000" "0 \<le> tv_nsec b" "tv_nsec b < 1000000000"
  shows "cmp_timespec a b = sgn (ns_of a - ns_of b)"
proof -
  have "ns_of a < ns_of b" if "tv_sec a < tv_sec b"
  proof -
    have "tv_sec a + 1 \<le> tv_sec b" using that by simp
    then show ?thesis using assms unfolding ns_of_def by linarith
  qed
  moreover have "ns_of b < ns_of a" if "tv_sec b < tv_sec a"
  proof -
    have "tv_sec b + 1 \<le> tv_sec a" using that by simp
    then show ?thesis using assms unfolding ns_of_def by linarith
  qed
  ultimately show ?thesis
    unfolding cmp_timespec_def by (cases "tv_sec a" "tv_sec b" rule: linorder_cases) (auto simp: ns_of_def)
qed

section \<open>Properties\<close>

text \<open>C32: Adding a timeout of \<open>b\<close> milliseconds to a time is exact: the result denotes the instant
  \<open>b * 10 ^ 6\<close> nanoseconds later, and its nanoseconds stay between 0 and \<open>10 ^ 9\<close>. The upper bound
  is attained, because the carry loop compares with \<open>>\<close>: the result is not a normalised
  timespec exactly when the nanoseconds before carrying are a positive multiple of \<open>10 ^ 9\<close>.\<close>

theorem add_timespec_exact:
  assumes "0 \<le> tv_nsec a" and "0 \<le> b"
  shows "\<exists>r. add_timespec a b = Returns r \<and> ns_of r = ns_of a + b * 1000000
    \<and> 0 \<le> tv_nsec r \<and> tv_nsec r \<le> 1000000000
    \<and> (tv_nsec r = 1000000000 \<longleftrightarrow>
        0 < tv_nsec a + b mod 1000 * 1000000 \<and> 1000000000 dvd (tv_nsec a + b mod 1000 * 1000000))"
proof -
  define r where "r = \<lparr>tv_sec = tv_sec a + b div 1000, tv_nsec = tv_nsec a + b mod 1000 * 1000000\<rparr>"
  have r: "0 \<le> tv_nsec r" "tv_nsec r = tv_nsec a + b mod 1000 * 1000000"
    using assms by (simp_all add: r_def)
  have "(x + q) * 1000000000 + (y + m * 1000000) = x * 1000000000 + y + b' * 1000000"
    if "b' = q * 1000 + m" for x y q m b' :: int
    using that by simp
  then have ns: "ns_of r = ns_of a + b * 1000000"
    unfolding r_def ns_of_def timespec.select_convs by (simp only: div_mult_mod_eq)
  note c = carry_nsec_spec [OF r(1)]
  let ?y = "tv_nsec (carry_nsec r)"
  have "tv_nsec r = ?y + (tv_sec (carry_nsec r) - tv_sec r) * 1000000000"
    using c by (simp add: ns_of_def)
  then have "1000000000 dvd tv_nsec r \<longleftrightarrow> 1000000000 dvd ?y"
    by (simp add: dvd_add_left_iff)
  moreover have "1000000000 dvd ?y \<longleftrightarrow> ?y = 0 \<or> ?y = 1000000000"
    using c zdvd_imp_le [of 1000000000 ?y] by fastforce
  moreover have "0 < tv_nsec r" if "?y = 1000000000"
    using c r(1) that by (metis carry_nsec.simps less_le zero_neq_numeral order.strict_trans zero_less_numeral)
  ultimately have "?y = 1000000000 \<longleftrightarrow> 0 < tv_nsec r \<and> 1000000000 dvd tv_nsec r"
    using c r(1) by auto
  then show ?thesis
    using c ns r assms(2) by (auto simp: add_timespec_def sdiv_smod_1000 r_def)
qed

theorem add_timespec_exact_witness:
  "\<exists>r. add_timespec \<lparr>tv_sec = 5, tv_nsec = 999000000\<rparr> 120001 = Returns r \<and> tv_nsec r = 1000000000"
  using add_timespec_exact [of "\<lparr>tv_sec = 5, tv_nsec = 999000000\<rparr>" 120001] by auto

end
