(* ===== verification/Pollmgr.thy ===== *)
theory Pollmgr
  imports Prelude
begin

text \<open>
  The event loop of the RPC library, rpc/pollmgr.h and rpc/pollmgr.cc: the two \<open>aio_mgr\<close>
  implementations (\<open>SelectAIO\<close>, which the program uses, and \<open>EPollAIO\<close>) and \<open>PollMgr\<close> on top of
  them. File descriptors are natural numbers, an \<open>fd_set\<close> is a set of them. What \<open>select\<close> or
  \<open>epoll_wait\<close> report is an argument of the definitions. The mutexes only make the operations
  atomic and have no counterpart; the condition variable of \<open>block_remove_fd\<close> splits it into the
  part before the wait and the part after it.
\<close>

unbundle bit_operations_syntax

section \<open>Flags\<close>

datatype poll_flag = CB_NONE | CB_RDONLY | CB_WRONLY | CB_RDWR

primrec flag_bits :: "poll_flag \<Rightarrow> u32" where
  "flag_bits CB_NONE = 0"
| "flag_bits CB_RDONLY = 0x1"
| "flag_bits CB_WRONLY = 0x10"
| "flag_bits CB_RDWR = 0x11"

definition CB_MASK :: u32 where
  "CB_MASK = NOT 0x11"

definition MAX_POLL_FDS :: nat where
  "MAX_POLL_FDS = 128"

section \<open>SelectAIO\<close>

record select_aio =
  sa_rfds :: "nat set"
  sa_wfds :: "nat set"
  sa_highfds :: nat
  sa_pipefd :: nat
  sa_pipe :: nat

definition SelectAIO_new :: "nat \<Rightarrow> select_aio" where
  "SelectAIO_new p = \<lparr>sa_rfds = {p}, sa_wfds = {}, sa_highfds = p, sa_pipefd = p, sa_pipe = 0\<rparr>"

definition sa_watch_fd :: "nat \<Rightarrow> poll_flag \<Rightarrow> select_aio \<Rightarrow> select_aio" where
  "sa_watch_fd fd flag a =
     (let a = (if sa_highfds a \<le> fd then a\<lparr>sa_highfds := fd\<rparr> else a);
          a = (if flag = CB_RDONLY then a\<lparr>sa_rfds := insert fd (sa_rfds a)\<rparr>
               else if flag = CB_WRONLY then a\<lparr>sa_wfds := insert fd (sa_wfds a)\<rparr>
               else a\<lparr>sa_rfds := insert fd (sa_rfds a), sa_wfds := insert fd (sa_wfds a)\<rparr>)
      in a\<lparr>sa_pipe := sa_pipe a + 1\<rparr>)"

definition sa_is_watched :: "nat \<Rightarrow> poll_flag \<Rightarrow> select_aio \<Rightarrow> bool" where
  "sa_is_watched fd flag a =
     (if flag = CB_RDONLY then fd \<in> sa_rfds a
      else if flag = CB_WRONLY then fd \<in> sa_wfds a
      else fd \<in> sa_rfds a \<and> fd \<in> sa_wfds a)"

definition sa_new_high :: "select_aio \<Rightarrow> nat" where
  "sa_new_high a =
     foldl (\<lambda>newh i. if i \<in> sa_rfds a then i else if i \<in> sa_wfds a then i else newh)
       (sa_pipefd a) [0..<sa_highfds a + 1]"

definition sa_clear_fd :: "nat \<Rightarrow> poll_flag \<Rightarrow> select_aio \<Rightarrow> select_aio" where
  "sa_clear_fd fd flag a =
     (if flag = CB_RDONLY then a\<lparr>sa_rfds := sa_rfds a - {fd}\<rparr>
      else if flag = CB_WRONLY then a\<lparr>sa_wfds := sa_wfds a - {fd}\<rparr>
      else a\<lparr>sa_wfds := sa_wfds a - {fd}, sa_rfds := sa_rfds a - {fd}\<rparr>)"

definition sa_lower_high :: "nat \<Rightarrow> select_aio \<Rightarrow> select_aio" where
  "sa_lower_high fd a =
     (if fd \<notin> sa_rfds a \<and> fd \<notin> sa_wfds a then
        (if fd = sa_highfds a then a\<lparr>sa_highfds := sa_new_high a\<rparr> else a)
      else a)"

definition sa_unwatch_fd :: "nat \<Rightarrow> poll_flag \<Rightarrow> select_aio \<Rightarrow> (bool \<times> select_aio) outcome" where
  "sa_unwatch_fd fd flag a =
     VERIFY (flag \<noteq> CB_NONE)
      (let a = sa_lower_high fd (sa_clear_fd fd flag a);
           a = a\<lparr>sa_pipe := (if flag = CB_RDWR then sa_pipe a + 1 else sa_pipe a)\<rparr>
       in Returns (fd \<notin> sa_rfds a \<and> fd \<notin> sa_wfds a, a))"

text \<open>
  \<open>select\<close> leaves in the two sets the descriptors that are ready, out of those below the bound
  that were passed; it can be interrupted, and every other failure aborts. The vectors hold
  what was pushed, in order.
\<close>

datatype select_result = Ready "nat set" "nat set" | Select_EINTR | Select_fails

fun wait_ready_scan :: "nat \<Rightarrow> nat set \<Rightarrow> nat set \<Rightarrow> nat list \<Rightarrow> select_aio \<Rightarrow> nat list \<Rightarrow> nat list \<Rightarrow>
    (nat list \<times> nat list \<times> select_aio) outcome" where
  "wait_ready_scan p trfds twfds [] a readable writable = Returns (readable, writable, a)"
| "wait_ready_scan p trfds twfds (fd # fds) a readable writable =
     (if fd = p \<and> fd \<in> trfds
      then VERIFY (0 < sa_pipe a)
            (wait_ready_scan p trfds twfds fds (a\<lparr>sa_pipe := sa_pipe a - 1\<rparr>) readable writable)
      else wait_ready_scan p trfds twfds fds a
             (if fd \<in> trfds then readable @ [fd] else readable)
             (if fd \<in> twfds then writable @ [fd] else writable))"

definition sa_wait_ready :: "select_result \<Rightarrow> select_aio \<Rightarrow> (nat list \<times> nat list \<times> select_aio) outcome" where
  "sa_wait_ready res a =
     (case res of
        Select_EINTR \<Rightarrow> Returns ([], [], a)
      | Select_fails \<Rightarrow> Aborts
      | Ready r w \<Rightarrow>
          wait_ready_scan (sa_pipefd a) (r \<inter> sa_rfds a) (w \<inter> sa_wfds a)
            [0..<sa_highfds a + 1] a [] [])"

section \<open>EPollAIO\<close>

text \<open>\<open>ev_in\<close>, \<open>ev_out\<close> are the events registered with the kernel for a descriptor; \<open>None\<close> when
  it is not registered. \<open>epoll_ctl\<close> fails on adding a known or modifying an unknown descriptor.\<close>

record epoll_aio =
  ea_fdstatus :: "nat \<Rightarrow> u32"
  ea_kernel :: "nat \<Rightarrow> (bool \<times> bool) option"

definition EPollAIO_new :: epoll_aio where
  "EPollAIO_new = \<lparr>ea_fdstatus = (\<lambda>_. 0), ea_kernel = (\<lambda>_. None)\<rparr>"

primrec poll_flag_to_event :: "poll_flag \<Rightarrow> bool \<times> bool" where
  "poll_flag_to_event CB_RDONLY = (True, False)"
| "poll_flag_to_event CB_WRONLY = (False, True)"
| "poll_flag_to_event CB_RDWR = (True, True)"
| "poll_flag_to_event CB_NONE = (True, True)"

datatype epoll_op = EPOLL_CTL_ADD | EPOLL_CTL_MOD | EPOLL_CTL_DEL

definition epoll_ctl :: "epoll_op \<Rightarrow> nat \<Rightarrow> bool \<times> bool \<Rightarrow> epoll_aio \<Rightarrow> epoll_aio outcome" where
  "epoll_ctl op fd ev a =
     (case op of
        EPOLL_CTL_ADD \<Rightarrow> VERIFY (ea_kernel a fd = None) (Returns (a\<lparr>ea_kernel := (ea_kernel a)(fd \<mapsto> ev)\<rparr>))
      | EPOLL_CTL_MOD \<Rightarrow> VERIFY (ea_kernel a fd \<noteq> None) (Returns (a\<lparr>ea_kernel := (ea_kernel a)(fd \<mapsto> ev)\<rparr>))
      | EPOLL_CTL_DEL \<Rightarrow> VERIFY (ea_kernel a fd \<noteq> None) (Returns (a\<lparr>ea_kernel := (ea_kernel a)(fd := None)\<rparr>)))"

definition status_events :: "u32 \<Rightarrow> bool \<times> bool" where
  "status_events st = (st AND flag_bits CB_RDONLY \<noteq> 0, st AND flag_bits CB_WRONLY \<noteq> 0)"

definition ea_watch_fd :: "nat \<Rightarrow> poll_flag \<Rightarrow> epoll_aio \<Rightarrow> epoll_aio outcome" where
  "ea_watch_fd fd flag a =
     VERIFY (fd < MAX_POLL_FDS)
      (let op = (if ea_fdstatus a fd \<noteq> 0 then EPOLL_CTL_MOD else EPOLL_CTL_ADD);
           a = a\<lparr>ea_fdstatus := (ea_fdstatus a)(fd := ea_fdstatus a fd OR flag_bits flag)\<rparr>;
           ev = status_events (ea_fdstatus a fd)
       in VERIFY (flag = CB_RDWR \<longrightarrow> ev = (True, True)) (epoll_ctl op fd ev a))"

definition ea_unwatch_fd :: "nat \<Rightarrow> poll_flag \<Rightarrow> epoll_aio \<Rightarrow> (bool \<times> epoll_aio) outcome" where
  "ea_unwatch_fd fd flag a =
     VERIFY (fd < MAX_POLL_FDS)
      (let a = a\<lparr>ea_fdstatus := (ea_fdstatus a)(fd := ea_fdstatus a fd AND NOT (flag_bits flag))\<rparr>;
           op = (if ea_fdstatus a fd \<noteq> 0 then EPOLL_CTL_MOD else EPOLL_CTL_DEL);
           ev = status_events (ea_fdstatus a fd)
       in VERIFY (flag = CB_RDWR \<longrightarrow> op = EPOLL_CTL_DEL)
            (obind (epoll_ctl op fd ev a) (\<lambda>a. Returns (op = EPOLL_CTL_DEL, a))))"

definition ea_is_watched :: "nat \<Rightarrow> poll_flag \<Rightarrow> epoll_aio \<Rightarrow> bool outcome" where
  "ea_is_watched fd flag a =
     VERIFY (fd < MAX_POLL_FDS) (Returns (ea_fdstatus a fd AND CB_MASK = flag_bits flag))"

definition ea_wait_ready :: "(nat \<times> bool \<times> bool) list \<Rightarrow> nat list \<times> nat list" where
  "ea_wait_ready ready =
     (map fst (filter (\<lambda>e. fst (snd e)) ready), map fst (filter (\<lambda>e. snd (snd e)) ready))"

section \<open>PollMgr\<close>

record 'cb pollmgr =
  pm_callbacks :: "nat \<Rightarrow> 'cb option"
  pm_aio :: select_aio
  pm_pending_change :: bool

definition PollMgr_new :: "nat \<Rightarrow> 'cb pollmgr" where
  "PollMgr_new p = \<lparr>pm_callbacks = (\<lambda>_. None), pm_aio = SelectAIO_new p, pm_pending_change = False\<rparr>"

definition add_callback :: "nat \<Rightarrow> poll_flag \<Rightarrow> 'cb \<Rightarrow> 'cb pollmgr \<Rightarrow> 'cb pollmgr outcome" where
  "add_callback fd flag ch p =
     VERIFY (fd < MAX_POLL_FDS)
      (let p = p\<lparr>pm_aio := sa_watch_fd fd flag (pm_aio p)\<rparr>
       in VERIFY (pm_callbacks p fd = None \<or> pm_callbacks p fd = Some ch)
            (Returns (p\<lparr>pm_callbacks := (pm_callbacks p)(fd := Some ch)\<rparr>)))"

definition block_remove_fd_begin :: "nat \<Rightarrow> 'cb pollmgr \<Rightarrow> 'cb pollmgr outcome" where
  "block_remove_fd_begin fd p =
     obind (sa_unwatch_fd fd CB_RDWR (pm_aio p))
       (\<lambda>(_, a). Returns (p\<lparr>pm_aio := a, pm_pending_change := True\<rparr>))"

definition block_remove_fd_end :: "nat \<Rightarrow> 'cb pollmgr \<Rightarrow> 'cb pollmgr" where
  "block_remove_fd_end fd p = p\<lparr>pm_callbacks := (pm_callbacks p)(fd := None)\<rparr>"

definition del_callback :: "nat \<Rightarrow> poll_flag \<Rightarrow> 'cb pollmgr \<Rightarrow> 'cb pollmgr outcome" where
  "del_callback fd flag p =
     obind (sa_unwatch_fd fd flag (pm_aio p))
       (\<lambda>(gone, a). Returns
          (let p = p\<lparr>pm_aio := a\<rparr>
           in if gone then p\<lparr>pm_callbacks := (pm_callbacks p)(fd := None)\<rparr> else p))"

definition has_callback :: "nat \<Rightarrow> poll_flag \<Rightarrow> 'cb \<Rightarrow> 'cb pollmgr \<Rightarrow> bool" where
  "has_callback fd flag c p =
     (if pm_callbacks p fd = None \<or> pm_callbacks p fd \<noteq> Some c then False
      else sa_is_watched fd flag (pm_aio p))"

text \<open>
  One turn of \<open>wait_loop\<close>. A callback may itself change the poll manager, so it is a function on a
  state \<open>'s\<close> of which \<open>get_pm\<close> reads the poll manager.
\<close>

fun run_callbacks :: "('s \<Rightarrow> 'cb pollmgr) \<Rightarrow> ('cb \<Rightarrow> nat \<Rightarrow> 's \<Rightarrow> 's outcome) \<Rightarrow> nat list \<Rightarrow> 's \<Rightarrow> 's outcome" where
  "run_callbacks get_pm cb [] s = Returns s"
| "run_callbacks get_pm cb (fd # fds) s =
     (case pm_callbacks (get_pm s) fd of
        Some c \<Rightarrow> obind (cb c fd s) (run_callbacks get_pm cb fds)
      | None \<Rightarrow> run_callbacks get_pm cb fds s)"

definition wait_loop_turn ::
  "('s \<Rightarrow> 'cb pollmgr) \<Rightarrow> ('cb pollmgr \<Rightarrow> 's \<Rightarrow> 's) \<Rightarrow>
   ('cb \<Rightarrow> nat \<Rightarrow> 's \<Rightarrow> 's outcome) \<Rightarrow> ('cb \<Rightarrow> nat \<Rightarrow> 's \<Rightarrow> 's outcome) \<Rightarrow>
   select_result \<Rightarrow> 's \<Rightarrow> 's outcome" where
  "wait_loop_turn get_pm set_pm read_cb write_cb res s =
     (let s = set_pm ((get_pm s)\<lparr>pm_pending_change := False\<rparr>) s
      in obind (sa_wait_ready res (pm_aio (get_pm s)))
          (\<lambda>(readable, writable, a).
             let s = set_pm ((get_pm s)\<lparr>pm_aio := a\<rparr>) s
             in obind (run_callbacks get_pm read_cb readable s) (run_callbacks get_pm write_cb writable)))"

section \<open>Specification\<close>

text \<open>Every watched descriptor is within the range that is passed to \<open>select\<close>, and the pipe that
  wakes up the loop is watched.\<close>

definition sa_wf :: "select_aio \<Rightarrow> bool" where
  "sa_wf a \<longleftrightarrow> (\<forall>fd \<in> sa_rfds a \<union> sa_wfds a. fd \<le> sa_highfds a)
     \<and> sa_pipefd a \<in> sa_rfds a \<and> sa_pipefd a \<notin> sa_wfds a"

text \<open>A descriptor that can become ready has a callback.\<close>

definition pm_wf :: "'cb pollmgr \<Rightarrow> bool" where
  "pm_wf p \<longleftrightarrow> sa_wf (pm_aio p)
     \<and> (\<forall>fd \<in> sa_rfds (pm_aio p) \<union> sa_wfds (pm_aio p). fd \<noteq> sa_pipefd (pm_aio p) \<longrightarrow> pm_callbacks p fd \<noteq> None)"

text \<open>What an epoll instance watches is in the status words; the kernel's table agrees with them.\<close>

definition ea_rfds :: "epoll_aio \<Rightarrow> nat set" where
  "ea_rfds a = {fd. bit (ea_fdstatus a fd) 0}"

definition ea_wfds :: "epoll_aio \<Rightarrow> nat set" where
  "ea_wfds a = {fd. bit (ea_fdstatus a fd) 4}"

definition st_ok :: "u32 \<Rightarrow> bool" where
  "st_ok st \<longleftrightarrow> st \<in> flag_bits ` {CB_NONE, CB_RDONLY, CB_WRONLY, CB_RDWR}"

definition kernel_agrees :: "u32 \<Rightarrow> (bool \<times> bool) option \<Rightarrow> bool" where
  "kernel_agrees st k \<longleftrightarrow> k = (if st = 0 then None else Some (status_events st))"

definition ea_wf :: "epoll_aio \<Rightarrow> bool" where
  "ea_wf a \<longleftrightarrow> (\<forall>fd. st_ok (ea_fdstatus a fd) \<and> kernel_agrees (ea_fdstatus a fd) (ea_kernel a fd))"

definition example_select :: select_aio where
  "example_select = sa_watch_fd 9 CB_RDWR (sa_watch_fd 7 CB_RDONLY (SelectAIO_new 4))"

definition example_epoll :: epoll_aio where
  "example_epoll = returned (ea_watch_fd 5 CB_RDWR EPollAIO_new)"

section \<open>Lemmas\<close>

lemma foldl_last_hit:
  "foldl (\<lambda>h i. if i \<in> S then i else if i \<in> T then i else h) h0 [0..<n] =
   (if \<exists>i < n. i \<in> S \<union> T then Max {i. i < n \<and> i \<in> S \<union> T} else h0)"
proof (induction n)
  case (Suc n)
  have "Max {i. i < Suc n \<and> i \<in> S \<union> T} = n" if "n \<in> S \<union> T"
    using that by (intro Max_eqI) auto
  moreover have "{i. i < Suc n \<and> i \<in> S \<union> T} = {i. i < n \<and> i \<in> S \<union> T}" if "n \<notin> S \<union> T"
    using that by (auto simp: less_Suc_eq)
  ultimately show ?case
    using Suc by (auto simp: less_Suc_eq)
qed simp

lemma sa_new_high_bound:
  assumes "fd \<in> sa_rfds a \<union> sa_wfds a" and "fd \<le> sa_highfds a"
  shows "fd \<le> sa_new_high a"
proof -
  have "fd \<le> Max {i. i < sa_highfds a + 1 \<and> i \<in> sa_rfds a \<union> sa_wfds a}"
    using assms by (intro Max_ge) auto
  then show ?thesis
    using assms unfolding sa_new_high_def foldl_last_hit by (auto simp: less_Suc_eq_le)
qed

lemma sa_wf_new: "sa_wf (SelectAIO_new p)"
  by (simp add: sa_wf_def SelectAIO_new_def)

lemma sa_watch_fd_wf: "sa_wf a \<Longrightarrow> fd \<noteq> sa_pipefd a \<Longrightarrow> sa_wf (sa_watch_fd fd flag a)"
  by (force simp: sa_wf_def sa_watch_fd_def Let_def)

lemma sa_watch_fd_sets:
  "sa_rfds (sa_watch_fd fd flag a) = (if flag = CB_WRONLY then sa_rfds a else insert fd (sa_rfds a))"
  "sa_wfds (sa_watch_fd fd flag a) = (if flag = CB_RDONLY then sa_wfds a else insert fd (sa_wfds a))"
  "sa_pipefd (sa_watch_fd fd flag a) = sa_pipefd a"
  by (simp_all add: sa_watch_fd_def Let_def)

lemma sa_clear_fd_sets [simp]:
  "sa_rfds (sa_clear_fd fd flag a) = (if flag = CB_WRONLY then sa_rfds a else sa_rfds a - {fd})"
  "sa_wfds (sa_clear_fd fd flag a) = (if flag = CB_RDONLY then sa_wfds a else sa_wfds a - {fd})"
  "sa_pipefd (sa_clear_fd fd flag a) = sa_pipefd a" "sa_highfds (sa_clear_fd fd flag a) = sa_highfds a"
  by (simp_all add: sa_clear_fd_def)

lemma sa_lower_high_sets [simp]:
  "sa_rfds (sa_lower_high fd a) = sa_rfds a" "sa_wfds (sa_lower_high fd a) = sa_wfds a"
  "sa_pipefd (sa_lower_high fd a) = sa_pipefd a"
  by (simp_all add: sa_lower_high_def)

lemma sa_lower_high_wf: "sa_wf a \<Longrightarrow> sa_wf (sa_lower_high fd a)"
  using sa_new_high_bound [of _ a] by (simp add: sa_wf_def) (simp add: sa_lower_high_def)

lemma sa_unwatch_fd_sets:
  assumes "sa_unwatch_fd fd flag a = Returns (gone, b)"
  shows "sa_rfds b = (if flag = CB_WRONLY then sa_rfds a else sa_rfds a - {fd})"
    and "sa_wfds b = (if flag = CB_RDONLY then sa_wfds a else sa_wfds a - {fd})"
    and "sa_pipefd b = sa_pipefd a" and "gone \<longleftrightarrow> fd \<notin> sa_rfds b \<and> fd \<notin> sa_wfds b"
  using assms by (auto simp: sa_unwatch_fd_def Let_def)

lemma sa_unwatch_fd_wf:
  assumes "sa_wf a" and "fd \<noteq> sa_pipefd a" and "sa_unwatch_fd fd flag a = Returns (gone, b)"
  shows "sa_wf b"
proof -
  have "sa_wf (sa_clear_fd fd flag a)"
    using assms(1,2) by (auto simp: sa_wf_def)
  then have "sa_wf (sa_lower_high fd (sa_clear_fd fd flag a))"
    by (rule sa_lower_high_wf)
  then show ?thesis
    using assms(3) unfolding sa_unwatch_fd_def Let_def sa_wf_def by (auto simp del: sa_clear_fd_sets)
qed

lemma wait_ready_scan_readable:
  "wait_ready_scan p r w fds a readable writable = Returns (rd, wr, b) \<Longrightarrow>
   rd = readable @ filter (\<lambda>fd. fd \<in> r \<and> fd \<noteq> p) fds"
  by (induction fds arbitrary: a readable writable) (fastforce split: if_splits)+

lemma wait_ready_scan_writable:
  "wait_ready_scan p r w fds a readable writable = Returns (rd, wr, b) \<Longrightarrow> p \<notin> w \<Longrightarrow>
   wr = writable @ filter (\<lambda>fd. fd \<in> w) fds"
  by (induction fds arbitrary: a readable writable) (fastforce split: if_splits)+

section \<open>The contract of an aio\_mgr\<close>

text \<open>
  The virtual class \<open>aio_mgr\<close>: what \<open>watch_fd\<close> and \<open>unwatch_fd\<close> do to the sets of descriptors that
  are watched for reading and for writing, whatever the implementation keeps. \<open>usable\<close> says which
  descriptors a client may pass.
\<close>

locale aio_mgr =
  fixes watch :: "nat \<Rightarrow> poll_flag \<Rightarrow> 'a \<Rightarrow> 'a outcome"
    and unwatch :: "nat \<Rightarrow> poll_flag \<Rightarrow> 'a \<Rightarrow> (bool \<times> 'a) outcome"
    and rfds wfds :: "'a \<Rightarrow> nat set"
    and ok :: "'a \<Rightarrow> bool"
    and usable :: "nat \<Rightarrow> 'a \<Rightarrow> bool"
  assumes watch_sets: "\<lbrakk>ok a; usable fd a; flag \<noteq> CB_NONE; watch fd flag a = Returns b\<rbrakk> \<Longrightarrow>
      ok b \<and> usable fd b \<and> rfds b = (if flag = CB_WRONLY then rfds a else insert fd (rfds a))
      \<and> wfds b = (if flag = CB_RDONLY then wfds a else insert fd (wfds a))"
    and unwatch_sets: "\<lbrakk>ok a; usable fd a; flag \<noteq> CB_NONE; unwatch fd flag a = Returns (gone, b)\<rbrakk> \<Longrightarrow>
      ok b \<and> rfds b = (if flag = CB_WRONLY then rfds a else rfds a - {fd})
      \<and> wfds b = (if flag = CB_RDONLY then wfds a else wfds a - {fd})
      \<and> (gone \<longleftrightarrow> fd \<notin> rfds b \<and> fd \<notin> wfds b)"
begin

lemma unwatch_all:
  "\<lbrakk>ok a; usable fd a; unwatch fd CB_RDWR a = Returns (gone, b)\<rbrakk> \<Longrightarrow> gone"
  using unwatch_sets [of a fd CB_RDWR gone b] by simp

lemma watch_unwatch:
  assumes "ok a" "usable fd a" "flag \<noteq> CB_NONE" "fd \<notin> rfds a" "fd \<notin> wfds a"
    and "watch fd flag a = Returns b" and "unwatch fd flag b = Returns (gone, c)"
  shows "gone \<and> rfds c = rfds a \<and> wfds c = wfds a"
  using watch_sets [OF assms(1,2,3,6)] unwatch_sets [OF _ _ assms(3,7)] assms by (cases flag) auto

end

interpretation select_mgr: aio_mgr "\<lambda>fd flag a. Returns (sa_watch_fd fd flag a)" sa_unwatch_fd
  sa_rfds sa_wfds sa_wf "\<lambda>fd a. fd \<noteq> sa_pipefd a"
proof (unfold_locales, goal_cases)
  case (1 a fd flag b)
  then show ?case
    using sa_watch_fd_wf [of a fd flag] by (auto simp: sa_watch_fd_sets)
next
  case (2 a fd flag gone b)
  then show ?case
    using sa_unwatch_fd_wf [of a fd flag gone b] sa_unwatch_fd_sets [of fd flag a gone b] by blast
qed

lemma st_ok_step:
  assumes "st_ok st"
  shows "st_ok (st OR flag_bits flag)" and "st_ok (st AND NOT (flag_bits flag))"
  using assms by (cases flag; auto simp: st_ok_def)+

lemma st_zero: "st_ok st \<Longrightarrow> st = 0 \<longleftrightarrow> \<not> bit st 0 \<and> \<not> bit st 4"
  by (auto simp: st_ok_def bit_numeral_rec)

lemma or_flag_nonzero: "flag \<noteq> CB_NONE \<Longrightarrow> st_ok st \<Longrightarrow> st OR flag_bits flag \<noteq> 0"
  by (cases flag) (auto simp: st_ok_def)

lemma flag_bit: "bit (flag_bits flag) 0 \<longleftrightarrow> flag = CB_RDONLY \<or> flag = CB_RDWR"
  "bit (flag_bits flag) 4 \<longleftrightarrow> flag = CB_WRONLY \<or> flag = CB_RDWR"
  by (cases flag; simp add: bit_numeral_rec)+

lemma kernel_agrees_events [simp]:
  "st \<noteq> 0 \<Longrightarrow> kernel_agrees st (Some (status_events st))" "kernel_agrees 0 None"
  by (simp_all add: kernel_agrees_def)

lemma ea_watch_returns:
  assumes "ea_wf a" "flag \<noteq> CB_NONE" "ea_watch_fd fd flag a = Returns b"
  shows "ea_wf b \<and> ea_fdstatus b = (ea_fdstatus a)(fd := ea_fdstatus a fd OR flag_bits flag)"
  using assms st_ok_step(1) [of "ea_fdstatus a fd" flag] or_flag_nonzero [of flag "ea_fdstatus a fd"]
  unfolding ea_wf_def ea_watch_fd_def epoll_ctl_def Let_def
  by (auto simp del: flag_bits.simps split: if_splits)

lemma ea_unwatch_returns:
  assumes "ea_wf a" "flag \<noteq> CB_NONE" "ea_unwatch_fd fd flag a = Returns (gone, b)"
  shows "ea_wf b \<and> ea_fdstatus b = (ea_fdstatus a)(fd := ea_fdstatus a fd AND NOT (flag_bits flag))
    \<and> (gone \<longleftrightarrow> ea_fdstatus b fd = 0)"
  using assms st_ok_step(2) [of "ea_fdstatus a fd" flag]
  unfolding ea_wf_def ea_unwatch_fd_def epoll_ctl_def Let_def
  by (auto simp: obind_Returns_iff simp del: flag_bits.simps split: if_splits)

interpretation epoll_mgr: aio_mgr ea_watch_fd ea_unwatch_fd ea_rfds ea_wfds ea_wf "\<lambda>_ _. True"
proof (unfold_locales, goal_cases)
  case (1 a fd flag b)
  note w = ea_watch_returns [OF 1(1,3,4)]
  then show ?case
    using 1(3) by (cases flag) (auto simp: ea_rfds_def ea_wfds_def bit_or_iff flag_bit simp del: flag_bits.simps)
next
  case (2 a fd flag gone b)
  note w = ea_unwatch_returns [OF 2(1,3,4)]
  then have "gone \<longleftrightarrow> fd \<notin> ea_rfds b \<and> fd \<notin> ea_wfds b"
    using st_zero by (metis (mono_tags, lifting) ea_wf_def ea_rfds_def ea_wfds_def mem_Collect_eq)
  then show ?case
    using w 2(3)
    by (cases flag) (auto simp: ea_rfds_def ea_wfds_def bit_and_iff bit_not_iff flag_bit simp del: flag_bits.simps)
qed

section \<open>Properties\<close>

text \<open>\<open>SelectAIO::wait_ready\<close> reports exactly the descriptors that are watched and ready, in
  ascending order and without the internal pipe: no ready descriptor is beyond the bound
  \<open>highfds_\<close> that is passed to \<open>select\<close>.\<close>

theorem wait_ready_exact:
  assumes "sa_wf a" and "sa_wait_ready (Ready r w) a = Returns (rd, wr, b)"
  shows "set rd = r \<inter> sa_rfds a - {sa_pipefd a} \<and> set wr = w \<inter> sa_wfds a \<and> sorted rd \<and> sorted wr"
proof -
  note scan = assms(2) [unfolded sa_wait_ready_def select_result.case]
  have "sa_pipefd a \<notin> w \<inter> sa_wfds a"
    using assms(1) by (simp add: sa_wf_def)
  then have rd: "rd = filter (\<lambda>fd. fd \<in> r \<inter> sa_rfds a \<and> fd \<noteq> sa_pipefd a) [0..<sa_highfds a + 1]"
    and wr: "wr = filter (\<lambda>fd. fd \<in> w \<inter> sa_wfds a) [0..<sa_highfds a + 1]"
    using wait_ready_scan_readable [OF scan] wait_ready_scan_writable [OF scan] by simp_all
  have "fd < sa_highfds a + 1" if "fd \<in> sa_rfds a \<union> sa_wfds a" for fd
    using that assms(1) by (auto simp: sa_wf_def less_Suc_eq_le)
  then have "set rd = r \<inter> sa_rfds a - {sa_pipefd a}" "set wr = w \<inter> sa_wfds a"
    unfolding rd wr by (auto simp del: upt_Suc)
  moreover have "sorted rd" "sorted wr"
    unfolding rd wr by (simp_all add: sorted_wrt_filter del: upt_Suc)
  ultimately show ?thesis
    by blast
qed

theorem wait_ready_exact_witness:
  "sa_wf example_select \<and> sa_wait_ready (Ready {4, 7, 9} {7, 9}) example_select =
     Returns ([7, 9], [9], example_select\<lparr>sa_pipe := 1\<rparr>) \<and>
   set [7, 9] = {4, 7, 9} \<inter> sa_rfds example_select - {sa_pipefd example_select}"
proof -
  have w: "sa_wf example_select"
    by code_simp
  have r: "sa_wait_ready (Ready {4, 7, 9} {7, 9}) example_select =
      Returns ([7, 9], [9], example_select\<lparr>sa_pipe := 1\<rparr>)"
    by code_simp
  show ?thesis
    using w r wait_ready_exact [OF w r] by blast
qed

text \<open>The poll manager never watches a descriptor without a callback to run: \<open>add_callback\<close>,
  \<open>del_callback\<close> and \<open>block_remove_fd\<close> keep \<open>pm_wf\<close>, and after \<open>block_remove_fd\<close> no callback is left.\<close>

theorem pollmgr_keeps_wf:
  assumes "pm_wf p" and "fd \<noteq> sa_pipefd (pm_aio p)" and "flag \<noteq> CB_NONE"
  shows "(\<forall>q. add_callback fd flag ch p = Returns q \<longrightarrow> pm_wf q \<and> pm_callbacks q fd = Some ch)
    \<and> (\<forall>q. del_callback fd flag p = Returns q \<longrightarrow> pm_wf q)
    \<and> (\<exists>q. block_remove_fd_begin fd p = Returns q \<and> pm_wf (block_remove_fd_end fd q)
          \<and> pm_callbacks (block_remove_fd_end fd q) fd = None)"
proof (intro conjI allI impI)
  fix q
  assume "add_callback fd flag ch p = Returns q"
  then show "pm_wf q" "pm_callbacks q fd = Some ch"
    using assms select_mgr.watch_sets [of "pm_aio p" fd flag]
    by (auto simp: pm_wf_def add_callback_def sa_watch_fd_sets split: if_splits)
next
  fix q
  assume "del_callback fd flag p = Returns q"
  then obtain gone a where u: "sa_unwatch_fd fd flag (pm_aio p) = Returns (gone, a)"
    and q: "q = (if gone then p\<lparr>pm_aio := a, pm_callbacks := (pm_callbacks p)(fd := None)\<rparr> else p\<lparr>pm_aio := a\<rparr>)"
    by (auto simp: del_callback_def obind_Returns_iff Let_def split: if_splits)
  show "pm_wf q"
    using assms select_mgr.unwatch_sets [OF _ _ _ u] sa_unwatch_fd_sets(3) [OF u]
    by (auto simp: pm_wf_def q split: if_splits)
next
  obtain gone a where u: "sa_unwatch_fd fd CB_RDWR (pm_aio p) = Returns (gone, a)"
    by (simp add: sa_unwatch_fd_def Let_def)
  show "\<exists>q. block_remove_fd_begin fd p = Returns q \<and> pm_wf (block_remove_fd_end fd q)
          \<and> pm_callbacks (block_remove_fd_end fd q) fd = None"
    using assms select_mgr.unwatch_sets [OF _ _ _ u] sa_unwatch_fd_sets(3) [OF u]
    by (auto simp: pm_wf_def block_remove_fd_begin_def block_remove_fd_end_def u)
qed

theorem pollmgr_keeps_wf_witness:
  "\<exists>q. add_callback 7 CB_RDONLY (70::nat) (PollMgr_new 4) = Returns q \<and> pm_wf q \<and> pm_callbacks q 7 = Some 70"
proof -
  have w: "pm_wf (PollMgr_new 4 :: nat pollmgr)"
    by (simp add: pm_wf_def PollMgr_new_def SelectAIO_new_def sa_wf_def)
  have n: "7 \<noteq> sa_pipefd (pm_aio (PollMgr_new 4 :: nat pollmgr))"
    by (simp add: PollMgr_new_def SelectAIO_new_def)
  obtain q where q: "add_callback 7 CB_RDONLY (70::nat) (PollMgr_new 4) = Returns q"
    by (simp add: add_callback_def PollMgr_new_def MAX_POLL_FDS_def)
  then show ?thesis
    using pollmgr_keeps_wf [OF w n, of CB_RDONLY 70] by blast
qed

text \<open>\<open>EPollAIO::is_watched\<close> is blind: it masks the status word with \<open>CB_MASK\<close>, the complement of
  the flags, so that it answers no for every flag that is being watched.\<close>

theorem epoll_is_watched_blind:
  assumes "ea_wf a" and "fd < MAX_POLL_FDS"
  shows "ea_is_watched fd flag a = Returns (flag = CB_NONE)"
  using assms(2) assms(1) [unfolded ea_wf_def, rule_format, of fd]
  by (cases flag) (auto simp: ea_is_watched_def CB_MASK_def st_ok_def)

theorem epoll_is_watched_blind_witness:
  "5 \<in> ea_rfds example_epoll \<and> 5 \<in> ea_wfds example_epoll \<and> ea_is_watched 5 CB_RDWR example_epoll = Returns False"
proof -
  have e: "ea_watch_fd 5 CB_RDWR EPollAIO_new = Returns example_epoll"
    by (simp add: example_epoll_def ea_watch_fd_def EPollAIO_new_def epoll_ctl_def MAX_POLL_FDS_def status_events_def)
  have w: "ea_wf EPollAIO_new"
    by (simp add: ea_wf_def st_ok_def EPollAIO_new_def)
  show ?thesis
    using epoll_mgr.watch_sets [OF w _ _ e] epoll_is_watched_blind [of example_epoll 5 CB_RDWR]
    by (simp add: MAX_POLL_FDS_def)
qed

end
