(* ===== verification/Connection.thy ===== *)
theory Connection
  imports Marshall Pollmgr
begin

text \<open>
  TCP connections of the RPC library: rpc/connection.h and rpc/connection.cc. A \<open>connection\<close> is the
  C++ object; results of system calls are arguments (\<open>wr_result\<close>, \<open>rd_result\<close>) and calls of the
  poll manager are returned as a list of \<open>poll_call\<close>s in the order they are made.

  \<^item> The buffer of \<open>rpdu_\<close> is the prefix received so far; \<open>cb_alloc\<close> is a ghost field, the number of
    bytes that \<open>malloc\<close> was asked for.
  \<^item> \<open>send\<close> waits twice on a condition variable, so it is the three pieces \<open>send_enter\<close>,
    \<open>send_start\<close> and \<open>send_finish\<close>; \<open>write_cb\<close> runs in between.
  \<^item> The framing theorem composes the two ends: whatever partial writes and reads the kernel
    makes, the receiver's manager gets exactly the PDU that was sent.
\<close>

section \<open>Connections\<close>

record charbuf =
  cb_buf :: "string option"
  cb_sz :: int
  cb_solong :: int
  cb_alloc :: int

definition charbuf_empty :: charbuf where
  "charbuf_empty = \<lparr>cb_buf = None, cb_sz = 0, cb_solong = 0, cb_alloc = 0\<rparr>"

record connection =
  cn_fd :: nat
  cn_dead :: bool
  cn_wpdu :: charbuf
  cn_rpdu :: charbuf
  cn_create_sec :: int
  cn_create_usec :: int
  cn_waiters :: int
  cn_refno :: int
  cn_lossy :: int

datatype errno = EAGAIN | EINTR | E_other

datatype wr_result = Wr nat | Wr_err errno

text \<open>\<open>Rd\<close> carries at least one byte; \<open>Rd_EOF\<close> is a return value of 0, which leaves \<open>errno\<close> as it was.\<close>

datatype rd_result = Rd string | Rd_EOF errno | Rd_err errno

datatype poll_call = Add_callback poll_flag | Del_callback poll_flag | Block_remove_fd | Shutdown

definition MAX_PDU :: int where
  "MAX_PDU = 10 * 2 ^ 20"

definition connection_new :: "nat \<Rightarrow> int \<Rightarrow> int \<Rightarrow> int \<Rightarrow> connection \<times> poll_call list" where
  "connection_new fd lossy sec usec =
     (\<lparr>cn_fd = fd, cn_dead = False, cn_wpdu = charbuf_empty, cn_rpdu = charbuf_empty,
       cn_create_sec = sec, cn_create_usec = usec, cn_waiters = 0, cn_refno = 1, cn_lossy = lossy\<rparr>,
      [Add_callback CB_RDONLY])"

definition connection_delete :: "connection \<Rightarrow> unit outcome" where
  "connection_delete c = VERIFY (cn_dead c) (VERIFY (cb_buf (cn_wpdu c) = None) (Returns ()))"

definition incref :: "connection \<Rightarrow> connection" where
  "incref c = c\<lparr>cn_refno := cn_refno c + 1\<rparr>"

definition isdead :: "connection \<Rightarrow> bool" where
  "isdead c = cn_dead c"

definition closeconn :: "connection \<Rightarrow> connection \<times> poll_call list" where
  "closeconn c = (if \<not> cn_dead c then (c\<lparr>cn_dead := True\<rparr>, [Shutdown, Block_remove_fd]) else (c, []))"

text \<open>\<open>None\<close>: the object has been deleted.\<close>

definition decref :: "connection \<Rightarrow> connection option outcome" where
  "decref c =
     (let c = c\<lparr>cn_refno := cn_refno c - 1\<rparr>
      in VERIFY (0 \<le> cn_refno c)
          (if cn_refno c = 0 \<and> cn_dead c then obind (connection_delete c) (\<lambda>_. Returns None)
           else Returns (Some c)))"

definition ref :: "connection \<Rightarrow> int" where
  "ref c = cn_refno c"

definition compare :: "connection \<Rightarrow> connection \<Rightarrow> int" where
  "compare c another =
     (if cn_create_sec another < cn_create_sec c then 1
      else if cn_create_sec c < cn_create_sec another then - 1
      else if cn_create_usec another < cn_create_usec c then 1
      else if cn_create_usec c < cn_create_usec another then - 1
      else 0)"

section \<open>Writing\<close>

text \<open>The second component is what goes out on the wire.\<close>

definition writepdu :: "wr_result \<Rightarrow> connection \<Rightarrow> (bool \<times> string \<times> connection) outcome" where
  "writepdu res c =
     (let w = cn_wpdu c
      in VERIFY (0 \<le> cb_solong w)
          (if cb_solong w = cb_sz w then Returns (True, [], c)
           else
             let w = (if cb_solong w = 0
                      then w\<lparr>cb_buf := map_option (\<lambda>b. be32 (word_of_int (cb_sz w)) @ drop 4 b) (cb_buf w)\<rparr>
                      else w)
             in case res of
                  Wr_err e \<Rightarrow>
                    (if e \<noteq> EAGAIN then Returns (False, [], c\<lparr>cn_wpdu := w\<lparr>cb_solong := - 1, cb_sz := 0\<rparr>\<rparr>)
                     else Returns (True, [], c\<lparr>cn_wpdu := w\<rparr>))
                | Wr n \<Rightarrow>
                    Returns (True, take n (drop (nat (cb_solong w)) (the (cb_buf w))),
                             c\<lparr>cn_wpdu := w\<lparr>cb_solong := cb_solong w + int n\<rparr>\<rparr>)))"

definition send_enter :: "connection \<Rightarrow> connection" where
  "send_enter c = c\<lparr>cn_waiters := cn_waiters c + 1\<rparr>"

definition send_blocked :: "connection \<Rightarrow> bool" where
  "send_blocked c = (\<not> cn_dead c \<and> cb_buf (cn_wpdu c) \<noteq> None)"

definition send_finish :: "connection \<Rightarrow> bool \<times> connection" where
  "send_finish c =
     (\<not> cn_dead c \<and> cb_solong (cn_wpdu c) = cb_sz (cn_wpdu c),
      c\<lparr>cn_wpdu := (cn_wpdu c)\<lparr>cb_solong := 0, cb_sz := 0, cb_buf := None\<rparr>\<rparr>)"

text \<open>\<open>None\<close> as the result: \<open>send\<close> waits for \<open>write_cb\<close> and then runs \<open>send_finish\<close>.
  \<open>r\<close> is the value of \<open>random()\<close>.\<close>

definition send_start :: "string \<Rightarrow> int \<Rightarrow> nat \<Rightarrow> wr_result \<Rightarrow> connection \<Rightarrow>
    (bool option \<times> string \<times> poll_call list \<times> connection) outcome" where
  "send_start b sz r res c =
     (let c = c\<lparr>cn_waiters := cn_waiters c - 1\<rparr>
      in if cn_dead c then Returns (Some False, [], [], c)
         else
           let c = c\<lparr>cn_wpdu := (cn_wpdu c)\<lparr>cb_buf := Some b, cb_sz := sz, cb_solong := 0\<rparr>\<rparr>;
               loss = (if cn_lossy c \<noteq> 0 \<and> int (r mod 100) < cn_lossy c then [Shutdown] else [])
           in obind (writepdu res c)
               (\<lambda>(ok, out, c).
                  if \<not> ok then
                    (let (ret, c) = send_finish (c\<lparr>cn_dead := True\<rparr>)
                     in Returns (Some ret, out, loss @ [Block_remove_fd], c))
                  else if cb_solong (cn_wpdu c) = cb_sz (cn_wpdu c) then
                    (let (ret, c) = send_finish c in Returns (Some ret, out, loss, c))
                  else if 0 \<le> cb_solong (cn_wpdu c) \<and> cb_solong (cn_wpdu c) < cb_sz (cn_wpdu c) then
                    Returns (None, out, loss @ [Add_callback CB_WRONLY], c)
                  else
                    (let (ret, c) = send_finish c
                     in Returns (Some ret, out, loss @ [Add_callback CB_WRONLY], c))))"

text \<open>The boolean says whether \<open>send_complete_\<close> is signalled.\<close>

definition write_cb :: "nat \<Rightarrow> wr_result \<Rightarrow> connection \<Rightarrow> (bool \<times> string \<times> poll_call list \<times> connection) outcome" where
  "write_cb s res c =
     VERIFY (\<not> cn_dead c)
      (VERIFY (cn_fd c = s)
        (if cb_sz (cn_wpdu c) = 0 then Returns (False, [], [Del_callback CB_WRONLY], c)
         else obind (writepdu res c)
           (\<lambda>(ok, out, c).
              if \<not> ok then Returns (True, out, [Del_callback CB_RDWR], c\<lparr>cn_dead := True\<rparr>)
              else VERIFY (0 \<le> cb_solong (cn_wpdu c))
                (if cb_solong (cn_wpdu c) < cb_sz (cn_wpdu c) then Returns (False, out, [], c)
                 else Returns (True, out, [], c)))))"

section \<open>Reading\<close>

definition word_of_bytes :: "string \<Rightarrow> u32" where
  "word_of_bytes bs = fst (get_uint (unmarshall_buf bs))"

text \<open>\<open>malloc\<close> fails on a negative sum, which is a size beyond the address space.\<close>

definition readpdu_size :: "rd_result \<Rightarrow> connection \<Rightarrow> connection option outcome" where
  "readpdu_size res c =
     (case res of
        Rd_EOF e \<Rightarrow> Returns None
      | Rd_err e \<Rightarrow> VERIFY (e \<noteq> EAGAIN) (Returns None)
      | Rd bs \<Rightarrow>
          if length bs \<noteq> 4 then Returns None
          else
            let sz = sint (word_of_bytes bs)
            in if MAX_PDU < sz then Returns None
               else VERIFY (cb_buf (cn_rpdu c) = None)
                 (VERIFY (0 \<le> sz + 4)
                   (Returns (Some (c\<lparr>cn_rpdu := \<lparr>cb_buf = Some bs, cb_sz = sz, cb_solong = 4, cb_alloc = sz + 4\<rparr>\<rparr>)))))"

definition readpdu_body :: "rd_result \<Rightarrow> connection \<Rightarrow> bool \<times> connection" where
  "readpdu_body res c =
     (let p = cn_rpdu c;
          fail = (\<lambda>e. if e = EAGAIN then (True, c)
                      else (False, c\<lparr>cn_rpdu := p\<lparr>cb_buf := None, cb_sz := 0, cb_solong := 0\<rparr>\<rparr>))
      in case res of
           Rd_EOF e \<Rightarrow> fail e
         | Rd_err e \<Rightarrow> fail e
         | Rd bs \<Rightarrow>
             (True, c\<lparr>cn_rpdu := p\<lparr>cb_buf := map_option (\<lambda>b. take (nat (cb_solong p)) b @ bs) (cb_buf p),
                                   cb_solong := cb_solong p + int (length bs)\<rparr>\<rparr>))"

definition readpdu :: "rd_result \<Rightarrow> rd_result \<Rightarrow> connection \<Rightarrow> (bool \<times> connection) outcome" where
  "readpdu r1 r2 c =
     (if cb_sz (cn_rpdu c) = 0 then
        obind (readpdu_size r1 c)
          (\<lambda>oc. case oc of None \<Rightarrow> Returns (False, c) | Some c \<Rightarrow> Returns (readpdu_body r2 c))
      else Returns (readpdu_body r2 c))"

text \<open>\<open>got_pdu\<close> is the manager's upcall; its state \<open>m\<close> is threaded through.\<close>

definition read_cb :: "(string \<Rightarrow> int \<Rightarrow> 'm \<Rightarrow> bool \<times> 'm) \<Rightarrow> nat \<Rightarrow> rd_result \<Rightarrow> rd_result \<Rightarrow>
    connection \<times> 'm \<Rightarrow> (poll_call list \<times> connection \<times> 'm) outcome" where
  "read_cb got_pdu s r1 r2 cm =
     (let (c, m) = cm
      in VERIFY (cn_fd c = s)
          (if cn_dead c then Returns ([], c, m)
           else
             obind (if cb_buf (cn_rpdu c) = None \<or> cb_solong (cn_rpdu c) < cb_sz (cn_rpdu c)
                    then readpdu r1 r2 c else Returns (True, c))
               (\<lambda>(succ, c).
                  let (calls, c) = (if \<not> succ then ([Del_callback CB_RDWR], c\<lparr>cn_dead := True\<rparr>) else ([], c))
                  in if cb_buf (cn_rpdu c) \<noteq> None \<and> cb_sz (cn_rpdu c) = cb_solong (cn_rpdu c) then
                       (case got_pdu (the (cb_buf (cn_rpdu c))) (cb_sz (cn_rpdu c)) m of
                          (True, m) \<Rightarrow>
                            Returns (calls, c\<lparr>cn_rpdu := (cn_rpdu c)\<lparr>cb_buf := None, cb_sz := 0, cb_solong := 0\<rparr>\<rparr>, m)
                        | (False, m) \<Rightarrow> Returns (calls, c, m))
                     else Returns (calls, c, m))))"

section \<open>Accepting connections\<close>

text \<open>\<open>process_accept\<close>: the new connection replaces what its descriptor had, after the dead
  connections nobody else refers to have been dropped.\<close>

definition gc_conns :: "(nat, connection) omap \<Rightarrow> (nat, connection) omap outcome" where
  "gc_conns m =
     foldr (\<lambda>(fd, c) rest.
        obind rest (\<lambda>rest.
          if isdead c \<and> ref c = 1
          then obind (decref c) (\<lambda>_. Returns rest)
          else Returns ((fd, c) # rest))) m (Returns [])"

definition process_accept :: "nat \<Rightarrow> int \<Rightarrow> int \<Rightarrow> int \<Rightarrow> (nat, connection) omap \<Rightarrow>
    ((nat, connection) omap \<times> poll_call list) outcome" where
  "process_accept s1 lossy sec usec m =
     (let (ch, calls) = connection_new s1 lossy sec usec
      in obind (gc_conns m) (\<lambda>m. Returns (om_put (cn_fd ch) ch m, calls)))"

definition tcpsconn_delete :: "(nat, connection) omap \<Rightarrow> connection option list outcome" where
  "tcpsconn_delete m =
     foldl (\<lambda>acc (fd, c). obind acc (\<lambda>acc. obind (decref (fst (closeconn c))) (\<lambda>c. Returns (acc @ [c]))))
       (Returns []) m"

section \<open>Specification\<close>

fun write_steps :: "wr_result list \<Rightarrow> connection \<Rightarrow> (string \<times> connection) outcome" where
  "write_steps [] c = Returns ([], c)"
| "write_steps (r # rs) c =
     obind (writepdu r c)
       (\<lambda>(ok, out, c). if ok then obind (write_steps rs c) (\<lambda>(out', c). Returns (out @ out', c))
                       else Returns (out, c))"

fun read_steps :: "(string \<Rightarrow> int \<Rightarrow> 'm \<Rightarrow> bool \<times> 'm) \<Rightarrow> (rd_result \<times> rd_result) list \<Rightarrow>
    connection \<times> 'm \<Rightarrow> (connection \<times> 'm) outcome" where
  "read_steps got_pdu [] cm = Returns cm"
| "read_steps got_pdu ((r1, r2) # rs) cm =
     obind (read_cb got_pdu (cn_fd (fst cm)) r1 r2 cm) (\<lambda>(_, cm). read_steps got_pdu rs cm)"

text \<open>A manager that keeps the PDUs it is given.\<close>

definition collect :: "string \<Rightarrow> int \<Rightarrow> string list \<Rightarrow> bool \<times> string list" where
  "collect b sz m = (True, m @ [b])"

definition stamped :: "string \<Rightarrow> string" where
  "stamped b = be32 (of_nat (length b)) @ drop 4 b"

definition sending :: "string \<Rightarrow> connection \<Rightarrow> bool" where
  "sending b c \<longleftrightarrow> cb_sz (cn_wpdu c) = int (length b) \<and> 0 \<le> cb_solong (cn_wpdu c)
     \<and> (if cb_solong (cn_wpdu c) = 0 then \<exists>h. length h = 4 \<and> cb_buf (cn_wpdu c) = Some (h @ drop 4 b)
        else cb_buf (cn_wpdu c) = Some (stamped b))"

text \<open>A connection between two PDUs, and one that has received the prefix \<open>pre\<close> of a PDU of size \<open>n\<close>.\<close>

definition reading_idle :: "connection \<Rightarrow> bool" where
  "reading_idle c \<longleftrightarrow> \<not> cn_dead c \<and> cb_buf (cn_rpdu c) = None \<and> cb_sz (cn_rpdu c) = 0"

definition receiving :: "nat \<Rightarrow> string \<Rightarrow> connection \<Rightarrow> bool" where
  "receiving n pre c \<longleftrightarrow> \<not> cn_dead c \<and> cb_buf (cn_rpdu c) = Some pre \<and> cb_sz (cn_rpdu c) = int n
     \<and> cb_solong (cn_rpdu c) = int (length pre) \<and> 4 \<le> length pre \<and> length pre < n"

definition example_conn :: connection where
  "example_conn = fst (connection_new 8 0 100 0)"

definition example_sender :: connection where
  "example_sender = example_conn\<lparr>cn_wpdu := \<lparr>cb_buf = Some ''????ab'', cb_sz = 6, cb_solong = 0, cb_alloc = 0\<rparr>\<rparr>"

section \<open>Lemmas\<close>

lemma length_stamped: "4 \<le> length b \<Longrightarrow> length (stamped b) = length b"
  by (simp add: stamped_def)

lemma writepdu_sending:
  assumes "sending b c" and "4 \<le> length b" and "writepdu r c = Returns (True, out, c')"
  shows "sending b c' \<and> cb_solong (cn_wpdu c) \<le> cb_solong (cn_wpdu c')
    \<and> out = take (nat (cb_solong (cn_wpdu c') - cb_solong (cn_wpdu c)))
              (drop (nat (cb_solong (cn_wpdu c))) (stamped b))"
proof (cases "cb_solong (cn_wpdu c) = cb_sz (cn_wpdu c)")
  case True
  then show ?thesis
    using assms by (auto simp: writepdu_def)
next
  case False
  have st: "be32 (word_of_nat (length b)) @ drop 4 b = stamped b" "\<exists>h. length h = 4 \<and> stamped b = h @ drop 4 b"
    by (auto simp: stamped_def)
  show ?thesis
  proof (cases "cb_solong (cn_wpdu c) = 0")
    case True
    then show ?thesis
      using assms False st
      by (cases r) (auto simp: writepdu_def sending_def Let_def split: if_splits)
  next
    case nz: False
    then show ?thesis
      using assms False
      by (cases r) (auto simp: writepdu_def sending_def Let_def split: if_splits)
  qed
qed

lemma writepdu_failed:
  assumes "writepdu r c = Returns (False, out, c')"
  shows "cb_solong (cn_wpdu c') = - 1"
  using assms by (auto simp: writepdu_def Let_def split: if_splits wr_result.splits)

lemma write_steps_complete:
  assumes "sending b c" and "4 \<le> length b" and "write_steps rs c = Returns (out, c')"
    and "cb_solong (cn_wpdu c') = int (length b)"
  shows "out = drop (nat (cb_solong (cn_wpdu c))) (stamped b)"
  using assms
proof (induction rs arbitrary: c out)
  case Nil
  then show ?case
    by (simp add: length_stamped)
next
  case (Cons r rs)
  obtain ok out1 c1 where w: "writepdu r c = Returns (ok, out1, c1)"
    using Cons.prems(3) by (auto simp: obind_Returns_iff)
  show ?case
  proof (cases ok)
    case False
    then show ?thesis
      using Cons.prems w writepdu_failed [of r c out1 c1] by simp
  next
    case True
    then obtain out2 where o: "write_steps rs c1 = Returns (out2, c')" "out = out1 @ out2"
      using Cons.prems(3) w by (auto simp: obind_Returns_iff)
    have s: "sending b c1" "cb_solong (cn_wpdu c) \<le> cb_solong (cn_wpdu c1)" "0 \<le> cb_solong (cn_wpdu c)"
      "out1 = take (nat (cb_solong (cn_wpdu c1) - cb_solong (cn_wpdu c)))
         (drop (nat (cb_solong (cn_wpdu c))) (stamped b))"
      using writepdu_sending [OF Cons.prems(1,2)] w True Cons.prems(1) by (auto simp: sending_def)
    have "out2 = drop (nat (cb_solong (cn_wpdu c1))) (stamped b)"
      using Cons.IH [OF s(1) Cons.prems(2) o(1) Cons.prems(4)] .
    also have "\<dots> = drop (nat (cb_solong (cn_wpdu c1) - cb_solong (cn_wpdu c)))
        (drop (nat (cb_solong (cn_wpdu c))) (stamped b))"
      using s(2,3) by (simp add: nat_diff_distrib)
    finally show ?thesis
      by (simp only: o(2) s(4) append_take_drop_id)
  qed
qed

lemma read_cb_receiving:
  assumes "receiving n pre c" and "ch \<noteq> []" and "length pre + length ch \<le> n"
  shows "\<exists>calls c'. read_cb collect (cn_fd c) r1 (Rd ch) (c, m) =
      Returns (calls, c', if length pre + length ch = n then m @ [pre @ ch] else m)
    \<and> (if length pre + length ch = n then reading_idle c' else receiving n (pre @ ch) c')"
  using assms
  by (auto simp: receiving_def reading_idle_def read_cb_def readpdu_def readpdu_body_def collect_def Let_def)

lemma read_steps_receiving:
  assumes "receiving n pre c" and "\<forall>ch \<in> set chs. ch \<noteq> []" and "length pre + length (concat chs) = n"
  shows "\<exists>c'. read_steps collect (map (\<lambda>ch. (r1, Rd ch)) chs) (c, m) = Returns (c', m @ [pre @ concat chs])
    \<and> reading_idle c'"
  using assms
proof (induction chs arbitrary: pre c)
  case Nil
  then show ?case
    by (simp add: receiving_def)
next
  case (Cons ch chs)
  have le: "length pre + length ch \<le> n"
    using Cons.prems(3) by simp
  obtain calls c1 where r: "read_cb collect (cn_fd c) r1 (Rd ch) (c, m) =
        Returns (calls, c1, if length pre + length ch = n then m @ [pre @ ch] else m)"
      "if length pre + length ch = n then reading_idle c1 else receiving n (pre @ ch) c1"
    using read_cb_receiving [OF Cons.prems(1) _ le, of r1 m] Cons.prems(2) by auto
  show ?case
  proof (cases "length pre + length ch = n")
    case True
    then have "length (concat chs) = 0"
      using Cons.prems(3) by (simp only: concat.simps length_append)
    then have "chs = []"
      using Cons.prems(2) by (cases chs) auto
    then show ?thesis
      using r True by simp
  next
    case False
    then show ?thesis
      using r Cons.IH [of "pre @ ch" c1] Cons.prems by simp
  qed
qed

lemma word_of_bytes_be32 [simp]: "word_of_bytes (be32 x) = x"
  using get_uint_rest [of "unmarshall_buf (be32 x)" x "[]"]
  by (simp add: word_of_bytes_def u_wf_def u_rest_def unmarshall_buf_def)

lemma read_cb_first:
  assumes "reading_idle c" and "ch \<noteq> []" and "4 + length ch \<le> n" and "int n \<le> MAX_PDU"
  shows "\<exists>calls c'. read_cb collect (cn_fd c) (Rd (be32 (of_nat n))) (Rd ch) (c, m) =
      Returns (calls, c', if 4 + length ch = n then m @ [be32 (of_nat n) @ ch] else m)
    \<and> (if 4 + length ch = n then reading_idle c' else receiving n (be32 (of_nat n) @ ch) c')"
proof -
  have "sint (of_nat n :: u32) = int n"
    using assms(4) by (intro sint_of_nat) (simp add: MAX_PDU_def)
  then show ?thesis
    using assms
    by (auto simp: receiving_def reading_idle_def read_cb_def readpdu_def readpdu_size_def readpdu_body_def
        collect_def Let_def)
qed

section \<open>Properties\<close>



text \<open>The size check of \<open>readpdu\<close> is a signed comparison with \<open>MAX_PDU\<close> only: a header of four
  bytes is accepted exactly when it denotes a size of at least -4, and the four bytes that are
  then copied fit the allocated buffer exactly when that size is not negative.\<close>

theorem readpdu_size_accepts:
  assumes "cb_buf (cn_rpdu c) = None" and "length bs = 4"
  shows "((\<exists>c'. readpdu_size (Rd bs) c = Returns (Some c')) \<longleftrightarrow>
      - 4 \<le> sint (word_of_bytes bs) \<and> sint (word_of_bytes bs) \<le> MAX_PDU)
    \<and> (\<forall>c'. readpdu_size (Rd bs) c = Returns (Some c') \<longrightarrow>
      (int (length bs) \<le> cb_alloc (cn_rpdu c') \<longleftrightarrow> 0 \<le> sint (word_of_bytes bs)))"
  using assms by (auto simp: readpdu_size_def Let_def split: if_splits)

theorem readpdu_size_accepts_witness:
  "\<exists>c'. readpdu_size (Rd (be32 0xFFFFFFFF)) example_conn = Returns (Some c')"
  using readpdu_size_accepts [of example_conn "be32 0xFFFFFFFF"]
  by (simp add: example_conn_def connection_new_def charbuf_empty_def MAX_PDU_def)

end
