(* ===== verification/Rpc_Server.thy ===== *)
theory Rpc_Server
  imports Connection
begin

text \<open>
  The RPC server endpoint \<open>rpcs\<close> of rpc/rpc.h and rpc/rpc.cc.

  \<^item> \<open>rpcs\<close> is the C++ object. Connections are addresses into \<open>rs_heap\<close>; \<open>rs_app\<close> is the state of
    the objects whose methods are registered; \<open>rs_sent\<close> records the \<open>send\<close> calls in order.
  \<^item> \<open>reg_fn1\<close> to \<open>reg_fn7\<close> are the handlers that the \<open>reg\<close> templates generate.
  \<^item> \<open>dispatch\<close> is split where it runs without a lock: \<open>dispatch_begin\<close> classifies the request,
    \<open>dispatch_new\<close> runs the handler and sends its reply. Jobs of different requests interleave at
    that point.
  \<^item> The step relation \<open>amo_step\<close> is the reply window of one client with any interleaving of
    arriving (also duplicated and reordered) requests and completing handlers; its invariant
    gives at-most-once execution.
\<close>

section \<open>Constants and handlers\<close>

definition rpc_bind :: u32 where "rpc_bind = 1"
definition timeout_failure :: u32 where "timeout_failure = - 1"
definition unmarshal_args_failure :: u32 where "unmarshal_args_failure = - 2"
definition unmarshal_reply_failure :: u32 where "unmarshal_reply_failure = - 3"
definition atmostonce_failure :: u32 where "atmostonce_failure = - 4"
definition oldsrv_failure :: u32 where "oldsrv_failure = - 5"
definition bind_failure :: u32 where "bind_failure = - 6"
definition cancel_failure :: u32 where "cancel_failure = - 7"

type_synonym 's handler = "unmarshall \<Rightarrow> marshall \<Rightarrow> 's \<Rightarrow> (u32 \<times> marshall \<times> 's) outcome"
type_synonym 'a getter = "unmarshall \<Rightarrow> 'a \<times> unmarshall"
type_synonym 'a putter = "marshall \<Rightarrow> 'a \<Rightarrow> marshall"

text \<open>The common tail of the generated handlers: the check of the arguments, the method, the reply.\<close>

definition run_meth :: "('s \<Rightarrow> (u32 \<times> 'r \<times> 's) outcome) \<Rightarrow> 'r putter \<Rightarrow> 's handler" where
  "run_meth meth putR args ret s =
     (if \<not> u_okdone args then Returns (unmarshal_args_failure, ret, s)
      else obind (meth s) (\<lambda>(b, r, s). Returns (b, putR ret r, s)))"

definition reg_fn1 :: "'a1 getter \<Rightarrow> 'r putter \<Rightarrow> ('a1 \<Rightarrow> 's \<Rightarrow> (u32 \<times> 'r \<times> 's) outcome) \<Rightarrow> 's handler" where
  "reg_fn1 g1 putR meth args ret s =
     (let (a1, args) = g1 args in run_meth (meth a1) putR args ret s)"

definition reg_fn2 :: "'a1 getter \<Rightarrow> 'a2 getter \<Rightarrow> 'r putter \<Rightarrow>
    ('a1 \<Rightarrow> 'a2 \<Rightarrow> 's \<Rightarrow> (u32 \<times> 'r \<times> 's) outcome) \<Rightarrow> 's handler" where
  "reg_fn2 g1 g2 putR meth args ret s =
     (let (a1, args) = g1 args; (a2, args) = g2 args
      in run_meth (meth a1 a2) putR args ret s)"

definition reg_fn3 :: "'a1 getter \<Rightarrow> 'a2 getter \<Rightarrow> 'a3 getter \<Rightarrow> 'r putter \<Rightarrow>
    ('a1 \<Rightarrow> 'a2 \<Rightarrow> 'a3 \<Rightarrow> 's \<Rightarrow> (u32 \<times> 'r \<times> 's) outcome) \<Rightarrow> 's handler" where
  "reg_fn3 g1 g2 g3 putR meth args ret s =
     (let (a1, args) = g1 args; (a2, args) = g2 args; (a3, args) = g3 args
      in run_meth (meth a1 a2 a3) putR args ret s)"

definition reg_fn4 :: "'a1 getter \<Rightarrow> 'a2 getter \<Rightarrow> 'a3 getter \<Rightarrow> 'a4 getter \<Rightarrow> 'r putter \<Rightarrow>
    ('a1 \<Rightarrow> 'a2 \<Rightarrow> 'a3 \<Rightarrow> 'a4 \<Rightarrow> 's \<Rightarrow> (u32 \<times> 'r \<times> 's) outcome) \<Rightarrow> 's handler" where
  "reg_fn4 g1 g2 g3 g4 putR meth args ret s =
     (let (a1, args) = g1 args; (a2, args) = g2 args; (a3, args) = g3 args; (a4, args) = g4 args
      in run_meth (meth a1 a2 a3 a4) putR args ret s)"

definition reg_fn5 :: "'a1 getter \<Rightarrow> 'a2 getter \<Rightarrow> 'a3 getter \<Rightarrow> 'a4 getter \<Rightarrow> 'a5 getter \<Rightarrow> 'r putter \<Rightarrow>
    ('a1 \<Rightarrow> 'a2 \<Rightarrow> 'a3 \<Rightarrow> 'a4 \<Rightarrow> 'a5 \<Rightarrow> 's \<Rightarrow> (u32 \<times> 'r \<times> 's) outcome) \<Rightarrow> 's handler" where
  "reg_fn5 g1 g2 g3 g4 g5 putR meth args ret s =
     (let (a1, args) = g1 args; (a2, args) = g2 args; (a3, args) = g3 args; (a4, args) = g4 args;
          (a5, args) = g5 args
      in run_meth (meth a1 a2 a3 a4 a5) putR args ret s)"

definition reg_fn6 :: "'a1 getter \<Rightarrow> 'a2 getter \<Rightarrow> 'a3 getter \<Rightarrow> 'a4 getter \<Rightarrow> 'a5 getter \<Rightarrow> 'a6 getter \<Rightarrow>
    'r putter \<Rightarrow> ('a1 \<Rightarrow> 'a2 \<Rightarrow> 'a3 \<Rightarrow> 'a4 \<Rightarrow> 'a5 \<Rightarrow> 'a6 \<Rightarrow> 's \<Rightarrow> (u32 \<times> 'r \<times> 's) outcome) \<Rightarrow> 's handler" where
  "reg_fn6 g1 g2 g3 g4 g5 g6 putR meth args ret s =
     (let (a1, args) = g1 args; (a2, args) = g2 args; (a3, args) = g3 args; (a4, args) = g4 args;
          (a5, args) = g5 args; (a6, args) = g6 args
      in run_meth (meth a1 a2 a3 a4 a5 a6) putR args ret s)"

definition reg_fn7 :: "'a1 getter \<Rightarrow> 'a2 getter \<Rightarrow> 'a3 getter \<Rightarrow> 'a4 getter \<Rightarrow> 'a5 getter \<Rightarrow> 'a6 getter \<Rightarrow>
    'a7 getter \<Rightarrow> 'r putter \<Rightarrow>
    ('a1 \<Rightarrow> 'a2 \<Rightarrow> 'a3 \<Rightarrow> 'a4 \<Rightarrow> 'a5 \<Rightarrow> 'a6 \<Rightarrow> 'a7 \<Rightarrow> 's \<Rightarrow> (u32 \<times> 'r \<times> 's) outcome) \<Rightarrow> 's handler" where
  "reg_fn7 g1 g2 g3 g4 g5 g6 g7 putR meth args ret s =
     (let (a1, args) = g1 args; (a2, args) = g2 args; (a3, args) = g3 args; (a4, args) = g4 args;
          (a5, args) = g5 args; (a6, args) = g6 args; (a7, args) = g7 args
      in run_meth (meth a1 a2 a3 a4 a5 a6 a7) putR args ret s)"

section \<open>The reply window\<close>

datatype rpcstate_t = NEW | INPROGRESS | DONE | FORGOTTEN

record reply_t =
  rt_xid :: u32
  rt_cb_present :: bool
  rt_buf :: "char option list"

definition reply_new :: "u32 \<Rightarrow> reply_t" where
  "reply_new xid = \<lparr>rt_xid = xid, rt_cb_present = False, rt_buf = []\<rparr>"

text \<open>
  The first loop of \<open>checkduplicate_and_update\<close>: it stops at the entry of \<open>xid\<close>, and erases on its
  way the answered entries up to \<open>xid_rep\<close>.
\<close>

fun window_scan :: "u32 \<Rightarrow> u32 \<Rightarrow> reply_t list \<Rightarrow> reply_t option \<times> reply_t list" where
  "window_scan xid xid_rep [] = (None, [])"
| "window_scan xid xid_rep (r # rs) =
     (if rt_xid r = xid then (Some r, r # rs)
      else if rt_xid r \<le> xid_rep \<and> rt_cb_present r then window_scan xid xid_rep rs
      else (let (found, rs) = window_scan xid xid_rep rs in (found, r # rs)))"

text \<open>The second loop: the new entry goes one place before the first smaller xid.\<close>

definition window_insert :: "u32 \<Rightarrow> reply_t list \<Rightarrow> reply_t list" where
  "window_insert xid w =
     (let i = length (takeWhile (\<lambda>r. \<not> rt_xid r < xid) w);
          i = (if i \<noteq> 0 then i - 1 else i)
      in take i w @ [reply_new xid] @ drop i w)"

definition window_check :: "u32 \<Rightarrow> u32 \<Rightarrow> reply_t list \<Rightarrow> rpcstate_t \<times> char option list \<times> reply_t list" where
  "window_check xid xid_rep w =
     (case window_scan xid xid_rep w of
        (Some r, w) \<Rightarrow> if \<not> rt_cb_present r then (INPROGRESS, [], w) else (DONE, rt_buf r, w)
      | (None, w) \<Rightarrow>
          if 0 < length w \<and> xid < rt_xid (last w) then (FORGOTTEN, [], w)
          else (NEW, [], window_insert xid w))"

fun window_reply :: "u32 \<Rightarrow> char option list \<Rightarrow> reply_t list \<Rightarrow> reply_t list" where
  "window_reply xid b [] = []"
| "window_reply xid b (r # rs) =
     (if rt_xid r = xid then r\<lparr>rt_buf := b, rt_cb_present := True\<rparr> # rs else r # window_reply xid b rs)"

section \<open>The server\<close>

record 's rpcs =
  rs_nonce :: u32
  rs_reply_window :: "u32 \<Rightarrow> reply_t list option"
  rs_conns :: "u32 \<Rightarrow> nat option"
  rs_counting :: int
  rs_curr_counts :: int
  rs_counts :: "u32 \<Rightarrow> int"
  rs_reachable :: bool
  rs_procs :: "u32 \<Rightarrow> 's handler option"
  rs_heap :: "nat \<Rightarrow> connection option"
  rs_app :: 's
  rs_sent :: "(nat \<times> char option list) list"

definition reg1 :: "u32 \<Rightarrow> 's handler \<Rightarrow> 's rpcs \<Rightarrow> 's rpcs outcome" where
  "reg1 proc h s =
     VERIFY (rs_procs s proc = None)
      (let s = s\<lparr>rs_procs := (rs_procs s)(proc \<mapsto> h)\<rparr>
       in VERIFY (rs_procs s proc \<noteq> None) (Returns s))"

definition rpcbind :: "u32 \<Rightarrow> u32 \<Rightarrow> 's \<Rightarrow> (u32 \<times> u32 \<times> 's) outcome" where
  "rpcbind nonce a s = Returns (0, nonce, s)"

text \<open>\<open>nonce\<close> is the value of \<open>random()\<close>; the thread pool and the listener are other components.\<close>

definition rpcs_new :: "u32 \<Rightarrow> int \<Rightarrow> 's \<Rightarrow> 's rpcs outcome" where
  "rpcs_new nonce count app =
     reg1 rpc_bind (reg_fn1 get_int put_int (rpcbind nonce))
       \<lparr>rs_nonce = nonce, rs_reply_window = (\<lambda>_. None), rs_conns = (\<lambda>_. None), rs_counting = count,
        rs_curr_counts = count, rs_counts = (\<lambda>_. 0), rs_reachable = True, rs_procs = (\<lambda>_. None),
        rs_heap = (\<lambda>_. None), rs_app = app, rs_sent = []\<rparr>"

definition updatestat :: "u32 \<Rightarrow> 's rpcs \<Rightarrow> 's rpcs" where
  "updatestat proc s =
     (let s = s\<lparr>rs_counts := (rs_counts s)(proc := rs_counts s proc + 1),
                rs_curr_counts := rs_curr_counts s - 1\<rparr>
      in if rs_curr_counts s = 0 then s\<lparr>rs_curr_counts := rs_counting s\<rparr> else s)"

definition window_of :: "'s rpcs \<Rightarrow> u32 \<Rightarrow> reply_t list" where
  "window_of s clt = (case rs_reply_window s clt of None \<Rightarrow> [] | Some w \<Rightarrow> w)"

definition checkduplicate_and_update :: "u32 \<Rightarrow> u32 \<Rightarrow> u32 \<Rightarrow> 's rpcs \<Rightarrow>
    rpcstate_t \<times> char option list \<times> 's rpcs" where
  "checkduplicate_and_update clt_nonce xid xid_rep s =
     (case window_check xid xid_rep (window_of s clt_nonce) of
        (stat, b, w) \<Rightarrow> (stat, b, s\<lparr>rs_reply_window := (rs_reply_window s)(clt_nonce \<mapsto> w)\<rparr>))"

definition add_reply :: "u32 \<Rightarrow> u32 \<Rightarrow> char option list \<Rightarrow> 's rpcs \<Rightarrow> 's rpcs" where
  "add_reply clt_nonce xid b s =
     s\<lparr>rs_reply_window := (rs_reply_window s)(clt_nonce \<mapsto> window_reply xid b (window_of s clt_nonce))\<rparr>"

definition free_reply_window :: "'s rpcs \<Rightarrow> 's rpcs" where
  "free_reply_window s = s\<lparr>rs_reply_window := (\<lambda>_. None)\<rparr>"

text \<open>Methods of a connection at an address; using a deleted object is a crash.\<close>

definition c_incref :: "nat \<Rightarrow> 's rpcs \<Rightarrow> 's rpcs outcome" where
  "c_incref a s =
     (case rs_heap s a of None \<Rightarrow> Aborts
      | Some c \<Rightarrow> Returns (s\<lparr>rs_heap := (rs_heap s)(a \<mapsto> incref c)\<rparr>))"

definition c_decref :: "nat \<Rightarrow> 's rpcs \<Rightarrow> 's rpcs outcome" where
  "c_decref a s =
     (case rs_heap s a of None \<Rightarrow> Aborts
      | Some c \<Rightarrow> obind (decref c) (\<lambda>c. Returns (s\<lparr>rs_heap := (rs_heap s)(a := c)\<rparr>)))"

definition c_send :: "nat \<Rightarrow> char option list \<Rightarrow> 's rpcs \<Rightarrow> 's rpcs outcome" where
  "c_send a b s =
     (case rs_heap s a of None \<Rightarrow> Aborts | Some _ \<Rightarrow> Returns (s\<lparr>rs_sent := rs_sent s @ [(a, b)]\<rparr>))"

definition c_isdead :: "nat \<Rightarrow> 's rpcs \<Rightarrow> bool outcome" where
  "c_isdead a s = (case rs_heap s a of None \<Rightarrow> Aborts | Some c \<Rightarrow> Returns (isdead c))"

definition c_older :: "nat \<Rightarrow> nat \<Rightarrow> 's rpcs \<Rightarrow> bool outcome" where
  "c_older a b s =
     (case (rs_heap s a, rs_heap s b) of
        (Some ca, Some cb) \<Rightarrow> Returns (compare ca cb < 0) | _ \<Rightarrow> Aborts)"

definition note_client :: "u32 \<Rightarrow> 's rpcs \<Rightarrow> 's rpcs" where
  "note_client clt_nonce s =
     (if rs_reply_window s clt_nonce = None
      then s\<lparr>rs_reply_window := (rs_reply_window s)(clt_nonce \<mapsto> [])\<rparr> else s)"

definition note_conn :: "u32 \<Rightarrow> nat \<Rightarrow> 's rpcs \<Rightarrow> 's rpcs outcome" where
  "note_conn clt_nonce c s =
     (case rs_conns s clt_nonce of
        None \<Rightarrow>
          obind (c_incref c s) (\<lambda>s. Returns (s\<lparr>rs_conns := (rs_conns s)(clt_nonce \<mapsto> c)\<rparr>))
      | Some old \<Rightarrow>
          obind (c_older old c s) (\<lambda>older.
            if older then
              obind (c_decref old s) (\<lambda>s.
                obind (c_incref c s) (\<lambda>s. Returns (s\<lparr>rs_conns := (rs_conns s)(clt_nonce \<mapsto> c)\<rparr>)))
            else Returns s))"

text \<open>What the first part of \<open>dispatch\<close> leaves to do: nothing, or to run a handler.\<close>

datatype 's todo = Finished "'s rpcs" | Run "'s handler" req_header unmarshall "'s rpcs"

definition reply_failure :: "req_header \<Rightarrow> u32 \<Rightarrow> char option list" where
  "reply_failure h ret =
     m_written (pack_reply_header marshall_new \<lparr>rp_xid = rq_xid h, rp_ret = ret\<rparr>)"

definition dispatch_begin :: "nat \<Rightarrow> string \<Rightarrow> 's rpcs \<Rightarrow> 's todo outcome" where
  "dispatch_begin c b s =
     (let (h, req) = unpack_req_header (unmarshall_buf b)
      in if \<not> u_ok req then obind (c_decref c s) (\<lambda>s. Returns (Finished s))
         else if rq_srv_nonce h \<noteq> 0 \<and> rq_srv_nonce h \<noteq> rs_nonce s then
           obind (c_send c (reply_failure h oldsrv_failure) s) (\<lambda>s. Returns (Finished s))
         else
           case rs_procs s (rq_proc h) of
             None \<Rightarrow> Aborts
           | Some f \<Rightarrow>
               if rq_clt_nonce h \<noteq> 0 then
                 obind (note_conn (rq_clt_nonce h) c (note_client (rq_clt_nonce h) s)) (\<lambda>s.
                   case checkduplicate_and_update (rq_clt_nonce h) (rq_xid h) (rq_xid_rep h) s of
                     (NEW, _, s) \<Rightarrow> Returns (Run f h req s)
                   | (INPROGRESS, _, s) \<Rightarrow> obind (c_decref c s) (\<lambda>s. Returns (Finished s))
                   | (DONE, b1, s) \<Rightarrow>
                       obind (c_send c b1 s) (\<lambda>s. obind (c_decref c s) (\<lambda>s. Returns (Finished s)))
                   | (FORGOTTEN, _, s) \<Rightarrow>
                       obind (c_send c (reply_failure h atmostonce_failure) s) (\<lambda>s.
                         obind (c_decref c s) (\<lambda>s. Returns (Finished s))))
               else Returns (Run f h req s))"

text \<open>The connection to answer on: the latest one of the client when the original has died.\<close>

definition latest_conn :: "nat \<Rightarrow> u32 \<Rightarrow> 's rpcs \<Rightarrow> (nat \<times> 's rpcs) outcome" where
  "latest_conn c clt_nonce s =
     obind (c_isdead c s) (\<lambda>dead.
       if dead \<and> rs_conns s clt_nonce \<noteq> Some c then
         obind (c_decref c s) (\<lambda>s.
           case rs_conns s clt_nonce of
             None \<Rightarrow> Aborts
           | Some c \<Rightarrow> obind (c_incref c s) (\<lambda>s. Returns (c, s)))
       else Returns (c, s))"

definition dispatch_new :: "nat \<Rightarrow> 's handler \<Rightarrow> req_header \<Rightarrow> unmarshall \<Rightarrow> 's rpcs \<Rightarrow> 's rpcs outcome" where
  "dispatch_new c f h req s =
     (let s = (if rs_counting s \<noteq> 0 then updatestat (rq_proc h) s else s)
      in obind (f req marshall_new (rs_app s)) (\<lambda>(ret, rep, app).
           VERIFY (ret \<noteq> unmarshal_args_failure)
            (VERIFY (0 \<le> sint ret)
              (let s = s\<lparr>rs_app := app\<rparr>;
                   (b1, _) = m_take_buf (pack_reply_header rep \<lparr>rp_xid = rq_xid h, rp_ret = ret\<rparr>);
                   s = (if 0 < rq_clt_nonce h then add_reply (rq_clt_nonce h) (rq_xid h) b1 s else s)
               in obind (latest_conn c (rq_clt_nonce h) s) (\<lambda>(c, s).
                    obind (c_send c b1 s) (\<lambda>s. c_decref c s))))))"

definition dispatch :: "nat \<Rightarrow> string \<Rightarrow> 's rpcs \<Rightarrow> 's rpcs outcome" where
  "dispatch c b s =
     obind (dispatch_begin c b s) (\<lambda>t.
       case t of Finished s \<Rightarrow> Returns s | Run f h req s \<Rightarrow> dispatch_new c f h req s)"

text \<open>\<open>got_pdu\<close>: \<open>queued\<close> is the answer of the thread pool; \<open>None\<close> when no job is left to run.\<close>

definition rpcs_got_pdu :: "bool \<Rightarrow> nat \<Rightarrow> string \<Rightarrow> 's rpcs \<Rightarrow> (bool \<times> (nat \<times> string) option \<times> 's rpcs) outcome" where
  "rpcs_got_pdu queued c b s =
     (if \<not> rs_reachable s then Returns (True, None, s)
      else obind (c_incref c s) (\<lambda>s.
        if \<not> queued \<or> \<not> rs_reachable s
        then obind (c_decref c s) (\<lambda>s. Returns (queued, None, s))
        else Returns (True, Some (c, b), s)))"

section \<open>At-most-once execution\<close>

text \<open>
  The reply window of one client under any interleaving. \<open>am_exec\<close> lists the requests whose
  handler was started, in order; \<open>am_reply\<close> has the replies of the handlers that have completed.
  A request carries the same \<open>rep x\<close> every time it arrives, because the client packs the
  header once. A request that is answered as forgotten is in \<open>am_forgot\<close>: the client takes that
  failure for the answer of the call. \<open>rep x\<close> is honest when every call it acknowledges has
  completed or was answered as forgotten.
\<close>

record amo =
  am_w :: "reply_t list"
  am_exec :: "u32 list"
  am_reply :: "u32 \<Rightarrow> char option list option"
  am_forgot :: "u32 set"
  am_arrived :: "u32 set"

definition amo_init :: amo where
  "amo_init = \<lparr>am_w = [], am_exec = [], am_reply = (\<lambda>_. None), am_forgot = {}, am_arrived = {}\<rparr>"

definition answered :: "amo \<Rightarrow> u32 set" where
  "answered s = dom (am_reply s) \<union> am_forgot s"

definition amo_arrive :: "u32 \<Rightarrow> u32 \<Rightarrow> amo \<Rightarrow> amo" where
  "amo_arrive x rep s =
     (case window_check x rep (am_w s) of
        (stat, b, w) \<Rightarrow> s\<lparr>am_arrived := insert x (am_arrived s), am_w := w,
                          am_forgot := (if stat = FORGOTTEN then insert x (am_forgot s) else am_forgot s),
                          am_exec := (if stat = NEW then am_exec s @ [x] else am_exec s)\<rparr>)"

definition amo_finish :: "u32 \<Rightarrow> char option list \<Rightarrow> amo \<Rightarrow> amo" where
  "amo_finish x b s = s\<lparr>am_w := window_reply x b (am_w s), am_reply := (am_reply s)(x \<mapsto> b)\<rparr>"

inductive amo_step :: "(u32 \<Rightarrow> u32) \<Rightarrow> amo \<Rightarrow> amo \<Rightarrow> bool" for rep where
  arrive: "x \<noteq> 0 \<Longrightarrow> rep x < x \<Longrightarrow> \<forall>z. z \<noteq> 0 \<and> z \<le> rep x \<longrightarrow> z \<in> answered s \<Longrightarrow>
    amo_step rep s (amo_arrive x (rep x) s)"
| finish: "x \<in> set (am_exec s) \<Longrightarrow> x \<notin> dom (am_reply s) \<Longrightarrow> amo_step rep s (amo_finish x b s)"

inductive_cases amo_step_cases: "amo_step rep s t"

definition xids :: "reply_t list \<Rightarrow> u32 set" where
  "xids w = rt_xid ` set w"

text \<open>
  \<open>amo_ok\<close> ties the window to the history; \<open>amo_acked\<close> says that what has been acknowledged by
  some request is below everything in the window and complete.
\<close>

definition amo_ok :: "amo \<Rightarrow> bool" where
  "amo_ok s \<longleftrightarrow> distinct (am_exec s) \<and> 0 \<notin> set (am_exec s)
     \<and> xids (am_w s) \<subseteq> set (am_exec s) \<and> dom (am_reply s) \<subseteq> set (am_exec s)
     \<and> set (am_exec s) \<subseteq> am_arrived s
     \<and> (\<forall>r \<in> set (am_w s). am_reply s (rt_xid r) = (if rt_cb_present r then Some (rt_buf r) else None))
     \<and> distinct (map rt_xid (am_w s))"

definition amo_acked :: "(u32 \<Rightarrow> u32) \<Rightarrow> amo \<Rightarrow> bool" where
  "amo_acked rep s \<longleftrightarrow> (\<forall>y \<in> am_arrived s. \<forall>z \<in> xids (am_w s). rep y < z)
     \<and> (\<forall>d \<in> set (am_exec s). d \<notin> xids (am_w s) \<longrightarrow> (\<exists>y \<in> am_arrived s. d \<le> rep y))
     \<and> (\<forall>y \<in> am_arrived s. \<forall>z. z \<noteq> 0 \<and> z \<le> rep y \<longrightarrow> z \<in> answered s)"

text \<open>The last entry stays above what was answered as forgotten, so it will be so answered again.\<close>

definition amo_last :: "amo \<Rightarrow> bool" where
  "amo_last s \<longleftrightarrow> (\<forall>z \<in> am_forgot s. am_w s \<noteq> [] \<and> z < rt_xid (last (am_w s)) \<and> z \<notin> xids (am_w s))"

definition amo_inv :: "(u32 \<Rightarrow> u32) \<Rightarrow> amo \<Rightarrow> bool" where
  "amo_inv rep s \<longleftrightarrow> amo_ok s \<and> amo_acked rep s \<and> amo_last s \<and> (am_exec s \<noteq> [] \<longrightarrow> am_w s \<noteq> [])"

text \<open>A run for the examples: request 1 is executed, 3 overtakes 2, and 3 acknowledges 1.\<close>

definition example_rep :: "u32 \<Rightarrow> u32" where
  "example_rep x = (if x = 3 then 1 else 0)"

definition example_run :: amo where
  "example_run =
     amo_arrive 1 0 (amo_arrive 2 0 (amo_arrive 3 1 (amo_finish 1 [Some CHR ''r''] (amo_arrive 1 0 amo_init))))"

definition example_conns :: "nat \<Rightarrow> connection option" where
  "example_conns a = (if a = 1 then Some example_conn else None)"

definition example_server :: "nat rpcs" where
  "example_server =
     \<lparr>rs_nonce = 77, rs_reply_window = (\<lambda>_. None), rs_conns = (\<lambda>_. None), rs_counting = 0,
      rs_curr_counts = 0, rs_counts = (\<lambda>_. 0), rs_reachable = True,
      rs_procs = [23 \<mapsto> reg_fn1 get_uint put_uint (\<lambda>a n. Returns (0, a + 1, n + 1))],
      rs_heap = example_conns, rs_app = 5, rs_sent = []\<rparr>"

definition example_dead_server :: "nat rpcs" where
  "example_dead_server = example_server\<lparr>rs_heap := [1 \<mapsto> example_conn\<lparr>cn_dead := True\<rparr>]\<rparr>"

definition example_pdu_for :: "u32 \<Rightarrow> u32 \<Rightarrow> string" where
  "example_pdu_for clt srv =
     ''????'' @ enc_req_header \<lparr>rq_xid = 4, rq_proc = 23, rq_clt_nonce = clt, rq_srv_nonce = srv, rq_xid_rep = 3\<rparr>
       @ be32 41"

section \<open>Lemmas on the reply window\<close>

lemma window_scan_found: "fst (window_scan x rep w) = None \<longleftrightarrow> x \<notin> xids w"
  by (induction w) (auto simp: xids_def split: prod.splits if_splits)

lemma window_scan_None:
  "fst (window_scan x rep w) = None \<Longrightarrow>
   snd (window_scan x rep w) = filter (\<lambda>r. \<not> (rt_xid r \<le> rep \<and> rt_cb_present r)) w"
  by (induction w) (auto split: prod.splits if_splits)

lemma window_scan_Some:
  "window_scan x rep w = (Some r, w') \<Longrightarrow>
   r \<in> set w' \<and> rt_xid r = x \<and> set w' \<subseteq> set w \<and> (\<forall>e \<in> set w - set w'. rt_xid e \<le> rep)
   \<and> (distinct (map rt_xid w) \<longrightarrow> distinct (map rt_xid w'))"
proof (induction w arbitrary: w')
  case (Cons e w)
  then show ?case
    by (fastforce split: prod.splits if_splits)
qed simp

lemma window_scan_keeps: "\<forall>e \<in> set w. rep < rt_xid e \<Longrightarrow> snd (window_scan x rep w) = w"
  by (induction w) (auto split: prod.splits)

lemma last_window_insert: "w \<noteq> [] \<Longrightarrow> last (window_insert x w) = last w"
proof -
  assume "w \<noteq> []"
  then have "length (takeWhile (\<lambda>r. \<not> rt_xid r < x) w) - 1 < length w"
    using length_takeWhile_le [of _ w] by (metis One_nat_def Suc_pred' diff_less le_eq_less_or_eq length_greater_0_conv less_imp_diff_less zero_less_one)
  then show ?thesis
    using \<open>w \<noteq> []\<close> by (auto simp: window_insert_def Let_def)
qed

lemma last_filter_above:
  assumes "\<forall>e \<in> set (filter P w). k < rt_xid e" and "\<And>e. \<not> P e \<Longrightarrow> rt_xid e \<le> k"
    and "w \<noteq> []" and "z < rt_xid (last w)"
  shows "if filter P w = [] then z < k else z < rt_xid (last (filter P w))"
proof (cases "P (last w)")
  case True
  obtain v e where "w = v @ [e]"
    using assms(3) by (cases w rule: rev_cases) auto
  then show ?thesis
    using True assms(4) by simp
next
  case False
  then have "z < k"
    using assms(2,4) by fastforce
  then show ?thesis
    using assms(1) last_in_set [of "filter P w"] by (auto simp del: last_in_set set_filter) (metis order.strict_trans)
qed

lemma set_window_insert: "set (window_insert x w) = insert (reply_new x) (set w)"
proof -
  let ?i = "length (takeWhile (\<lambda>r. \<not> rt_xid r < x) w)"
  let ?j = "if ?i \<noteq> 0 then ?i - 1 else ?i"
  have "set (take ?j w) \<union> set (drop ?j w) = set w"
    by (metis append_take_drop_id set_append)
  then show ?thesis
    unfolding window_insert_def Let_def by auto
qed

lemma xids_window_insert: "xids (window_insert x w) = insert x (xids w)"
  by (simp add: xids_def set_window_insert reply_new_def)

lemma window_insert_ne: "window_insert x w \<noteq> []"
  by (simp add: window_insert_def Let_def)

lemma distinct_window_insert:
  assumes "distinct (map rt_xid w)" and "x \<notin> xids w"
  shows "distinct (map rt_xid (window_insert x w))"
proof -
  let ?i = "length (takeWhile (\<lambda>r. \<not> rt_xid r < x) w)"
  let ?j = "if ?i \<noteq> 0 then ?i - 1 else ?i"
  have "map rt_xid w = map rt_xid (take ?j w) @ map rt_xid (drop ?j w)"
    by (metis append_take_drop_id map_append)
  then show ?thesis
    using assms unfolding window_insert_def Let_def
    by (auto simp: reply_new_def xids_def dest: in_set_takeD in_set_dropD)
qed

lemma set_window_reply:
  "distinct (map rt_xid w) \<Longrightarrow>
   set (window_reply x b w) = (\<lambda>r. if rt_xid r = x then r\<lparr>rt_buf := b, rt_cb_present := True\<rparr> else r) ` set w"
  by (induction w) (auto simp: image_iff)

lemma map_xid_window_reply: "map rt_xid (window_reply x b w) = map rt_xid w"
  by (induction w) auto

lemma xids_window_reply [simp]: "xids (window_reply x b w) = xids w"
  unfolding xids_def using map_xid_window_reply by (metis list.set_map)

text \<open>The classification of a request that arrives, in terms of the window before and after.\<close>

lemma window_check_cases:
  assumes "window_check x rep w = (stat, b, w')"
  obtains (found) r where "stat \<noteq> NEW" "r \<in> set w'" "rt_xid r = x" "set w' \<subseteq> set w"
      "\<forall>e \<in> set w - set w'. rt_xid e \<le> rep" "distinct (map rt_xid w) \<Longrightarrow> distinct (map rt_xid w')"
      "stat = DONE \<longleftrightarrow> rt_cb_present r" "stat = DONE \<Longrightarrow> b = rt_buf r" "stat \<noteq> FORGOTTEN"
      "\<forall>e \<in> set w. rep < rt_xid e \<Longrightarrow> w' = w"
    | (forgotten) "stat = FORGOTTEN" "x \<notin> xids w" "w' \<noteq> []" "x < rt_xid (last w')"
      "w' = filter (\<lambda>r. \<not> (rt_xid r \<le> rep \<and> rt_cb_present r)) w"
    | (new) u where "stat = NEW" "x \<notin> xids w" "u = filter (\<lambda>r. \<not> (rt_xid r \<le> rep \<and> rt_cb_present r)) w"
      "w' = window_insert x u" "u \<noteq> [] \<Longrightarrow> \<not> x < rt_xid (last u)"
proof (cases "fst (window_scan x rep w)")
  case None
  then show ?thesis
    using assms that(2,3) window_scan_found [of x rep w] window_scan_None [of x rep w]
    by (cases "window_scan x rep w") (auto simp: window_check_def split: if_splits)
next
  case (Some r)
  then show ?thesis
    using assms that(1) window_scan_Some [of x rep w r "snd (window_scan x rep w)"] window_scan_keeps [of w rep x]
    by (cases "window_scan x rep w") (auto simp: window_check_def split: if_splits)
qed

section \<open>What the connection calls leave alone\<close>

lemma c_incref_keeps: "c_incref a s = Returns s' \<Longrightarrow> \<exists>hp. s' = s\<lparr>rs_heap := hp\<rparr>"
  by (auto simp: c_incref_def split: option.splits)

lemma c_decref_keeps: "c_decref a s = Returns s' \<Longrightarrow> \<exists>hp. s' = s\<lparr>rs_heap := hp\<rparr>"
  by (auto simp: c_decref_def obind_Returns_iff split: option.splits)

lemma c_send_keeps: "c_send a b s = Returns s' \<Longrightarrow> s' = s\<lparr>rs_sent := rs_sent s @ [(a, b)]\<rparr>"
  by (auto simp: c_send_def split: option.splits)

lemma latest_conn_null:
  assumes "rs_heap s c = Some cn" and "cn_dead cn" and "rs_conns s clt = None"
  shows "latest_conn c clt s = Aborts"
proof (cases "c_decref c s")
  case (Returns s')
  then show ?thesis
    using assms c_decref_keeps [OF Returns] by (auto simp: latest_conn_def c_isdead_def isdead_def)
next
  case Aborts
  then show ?thesis
    using assms by (simp add: latest_conn_def c_isdead_def isdead_def)
qed

lemma note_conn_keeps:
  assumes "note_conn clt c s = Returns s'"
  shows "\<exists>hp cs. s' = s\<lparr>rs_heap := hp, rs_conns := cs\<rparr>"
proof (cases "rs_conns s clt")
  case None
  then show ?thesis
    using assms by (force simp: note_conn_def obind_Returns_iff dest!: c_incref_keeps)
next
  case (Some old)
  show ?thesis
  proof (cases "c_older old c s")
    case (Returns older)
    show ?thesis
    proof (cases older)
      case True
      then show ?thesis
        using assms Some Returns
        by (force simp: note_conn_def obind_Returns_iff dest!: c_incref_keeps c_decref_keeps)
    next
      case False
      then have "s' = s\<lparr>rs_heap := rs_heap s, rs_conns := rs_conns s\<rparr>"
        using assms Some Returns by (simp add: note_conn_def)
      then show ?thesis
        by blast
    qed
  next
    case Aborts
    then show ?thesis
      using assms Some by (simp add: note_conn_def)
  qed
qed

lemma window_of_keeps [simp]:
  "window_of (s\<lparr>rs_heap := hp\<rparr>) clt = window_of s clt"
  "window_of (s\<lparr>rs_conns := cs\<rparr>) clt = window_of s clt"
  "window_of (s\<lparr>rs_sent := out\<rparr>) clt = window_of s clt"
  "window_of (s\<lparr>rs_app := app\<rparr>) clt = window_of s clt"
  "window_of (s\<lparr>rs_reply_window := (rs_reply_window s)(clt \<mapsto> w)\<rparr>) clt = w"
  "window_of (note_client clt' s) clt = window_of s clt"
  by (auto simp: window_of_def note_client_def)

lemma note_client_keeps [simp]:
  "rs_app (note_client clt s) = rs_app s" "rs_sent (note_client clt s) = rs_sent s"
  by (simp_all add: note_client_def)

lemmas conn_keeps = c_incref_keeps c_decref_keeps c_send_keeps note_conn_keeps

section \<open>The invariant\<close>

text \<open>A request that is classified as new has never been executed.\<close>

lemma amo_new_fresh:
  assumes "amo_inv rep s" and "window_check x (rep x) (am_w s) = (NEW, b, w)" and "rep x < x"
  shows "x \<notin> set (am_exec s)"
proof
  assume x: "x \<in> set (am_exec s)"
  have ok: "amo_ok s" and ack: "amo_acked rep s"
    using assms(1) by (simp_all add: amo_inv_def)
  obtain u where u: "x \<notin> xids (am_w s)"
      "u = filter (\<lambda>r. \<not> (rt_xid r \<le> rep x \<and> rt_cb_present r)) (am_w s)"
      "u \<noteq> [] \<Longrightarrow> \<not> x < rt_xid (last u)"
    using assms(2) by (rule window_check_cases) auto
  obtain y where y: "y \<in> am_arrived s" "x \<le> rep y"
    using ack x u(1) by (auto simp: amo_acked_def)
  have above: "x < rt_xid r" if "r \<in> set (am_w s)" for r
    using that y ack by (fastforce simp: amo_acked_def xids_def)
  have "am_w s \<noteq> []"
    using assms(1) x by (auto simp: amo_inv_def)
  then obtain r where "r \<in> set (am_w s)"
    by (cases "am_w s") auto
  then have "r \<in> set u"
    using above [of r] assms(3) by (auto simp: u(2))
  then have ne: "u \<noteq> []"
    by (cases u) auto
  then have "last u \<in> set (am_w s)"
    using last_in_set [OF ne] by (metis filter_is_subset subsetD u(2))
  then show False
    using u(3) [OF ne] above by blast
qed

text \<open>An entry that an honest acknowledgement leaves in the window is above it.\<close>

lemma amo_kept:
  assumes "amo_ok s" and "amo_last s" and "\<forall>z. z \<noteq> 0 \<and> z \<le> k \<longrightarrow> z \<in> answered s"
    and "r \<in> set (am_w s)" and "\<not> (rt_xid r \<le> k \<and> rt_cb_present r)"
  shows "k < rt_xid r"
proof (rule ccontr)
  assume "\<not> k < rt_xid r"
  then have le: "rt_xid r \<le> k"
    by simp
  have x: "rt_xid r \<in> xids (am_w s)"
    using assms(4) by (simp add: xids_def)
  then have "rt_xid r \<noteq> 0"
    using assms(1) by (auto simp: amo_ok_def)
  then have "rt_xid r \<in> dom (am_reply s)"
    using assms(2,3) le x by (auto simp: answered_def amo_last_def)
  moreover have "am_reply s (rt_xid r) = (if rt_cb_present r then Some (rt_buf r) else None)"
    using assms(1,4) by (simp add: amo_ok_def)
  ultimately show False
    using le assms(5) by (auto split: if_splits)
qed

text \<open>The window shrinks by acknowledged entries only: no execution is started.\<close>

lemma amo_shrink:
  assumes ok: "amo_ok s" and ack: "amo_acked rep s"
    and honest: "\<forall>z. z \<noteq> 0 \<and> z \<le> rep x \<longrightarrow> z \<in> answered s"
    and w: "set w \<subseteq> set (am_w s)" "distinct (map rt_xid w)"
    and above: "\<forall>z \<in> xids w. rep x < z" and gone: "\<forall>d \<in> xids (am_w s). d \<notin> xids w \<longrightarrow> d \<le> rep x"
    and t: "t = s\<lparr>am_arrived := insert x (am_arrived s), am_w := w\<rparr>"
  shows "amo_ok t \<and> amo_acked rep t"
proof
  have sub: "xids w \<subseteq> xids (am_w s)"
    using w(1) by (auto simp: xids_def)
  then show "amo_ok t"
    using ok w unfolding amo_ok_def t by (simp add: subset_iff)
  have "\<exists>y \<in> insert x (am_arrived s). d \<le> rep y" if "d \<in> set (am_exec s)" "d \<notin> xids w" for d
    using that gone ack by (cases "d \<in> xids (am_w s)") (auto simp: amo_acked_def)
  then show "amo_acked rep t"
    using ack above sub honest unfolding amo_acked_def answered_def t by auto
qed

text \<open>A new request enters a window that holds only entries above every acknowledgement.\<close>

lemma amo_insert:
  assumes ok: "amo_ok s" and ack: "amo_acked rep s"
    and x: "x \<in> am_arrived s" "x \<noteq> 0" "x \<notin> set (am_exec s)" "x \<notin> am_forgot s" "rep x < x"
    and w: "w = window_insert x (am_w s)" and t: "t = s\<lparr>am_w := w, am_exec := am_exec s @ [x]\<rparr>"
  shows "amo_ok t \<and> amo_acked rep t"
proof
  have nx: "x \<notin> xids (am_w s)" "x \<notin> dom (am_reply s)"
    using ok x(3) by (auto simp: amo_ok_def)
  have xw: "xids w = insert x (xids (am_w s))" "set w = insert (reply_new x) (set (am_w s))"
    by (simp_all add: w set_window_insert xids_def reply_new_def)
  have "distinct (map rt_xid w)"
    using ok nx unfolding w by (intro distinct_window_insert) (simp_all add: amo_ok_def)
  then show "amo_ok t"
    using ok x nx xw unfolding amo_ok_def t by (auto simp: reply_new_def domIff)
  have "\<forall>y \<in> am_arrived s. rep y < x"
    using ack nx(2) x(2,4) unfolding amo_acked_def answered_def by (meson UnE not_less)
  then show "amo_acked rep t"
    using ack x xw unfolding amo_acked_def answered_def t by auto
qed

lemma amo_ok_forgot [simp]: "amo_ok (s\<lparr>am_forgot := F\<rparr>) = amo_ok s"
  by (simp add: amo_ok_def)

lemma amo_acked_forgot: "amo_acked rep s \<Longrightarrow> am_forgot s \<subseteq> F \<Longrightarrow> amo_acked rep (s\<lparr>am_forgot := F\<rparr>)"
  unfolding amo_acked_def answered_def by fastforce

lemma amo_arrive_inv:
  assumes inv: "amo_inv rep s" and x: "x \<noteq> 0" "rep x < x"
    and honest: "\<forall>z. z \<noteq> 0 \<and> z \<le> rep x \<longrightarrow> z \<in> answered s"
  shows "amo_inv rep (amo_arrive x (rep x) s)"
proof -
  obtain stat b w where c: "window_check x (rep x) (am_w s) = (stat, b, w)"
    using prod_cases3 by blast
  have ok: "amo_ok s" and ack: "amo_acked rep s" and lst: "amo_last s" and dis: "distinct (map rt_xid (am_w s))"
    using inv by (simp_all add: amo_inv_def amo_ok_def)
  let ?P = "\<lambda>r. \<not> (rt_xid r \<le> rep x \<and> rt_cb_present r)"
  let ?u = "filter ?P (am_w s)"
  let ?s = "s\<lparr>am_arrived := insert x (am_arrived s), am_w := ?u\<rparr>"
  have above: "\<forall>e \<in> set ?u. rep x < rt_xid e"
    using amo_kept [OF ok lst honest] by auto
  have u: "amo_ok ?s \<and> amo_acked rep ?s"
    using above dis by (intro amo_shrink [OF ok ack honest]) (auto simp: xids_def distinct_map_filter)
  have z: "(if ?u = [] then z < rep x else z < rt_xid (last ?u)) \<and> z \<notin> xids ?u" if "z \<in> am_forgot s" for z
    using that lst last_filter_above [OF above, of z] by (auto simp: amo_last_def xids_def)
  from c show ?thesis
  proof (cases rule: window_check_cases)
    case (found r)
    then have "x \<in> xids (am_w s)"
      by (auto simp: xids_def)
    then have a: "x \<in> am_arrived s"
      using ok by (auto simp: amo_ok_def)
    then have "w = am_w s"
      using ack by (intro found(10)) (auto simp: amo_acked_def xids_def)
    then show ?thesis
      using inv a found(1,9) by (simp add: amo_arrive_def c insert_absorb)
  next
    case forgotten
    have "amo_last (?s\<lparr>am_forgot := insert x (am_forgot s)\<rparr>)"
      using z forgotten by (auto simp: amo_last_def xids_def split: if_splits)
    then show ?thesis
      using u forgotten amo_acked_forgot [of rep ?s "insert x (am_forgot s)"]
      by (auto simp: amo_arrive_def c amo_inv_def)
  next
    case (new v)
    have fresh: "x \<notin> set (am_exec s)" "x \<notin> am_forgot s"
      using amo_new_fresh [OF inv _ x(2)] c new(1) z [of x] new(3,5) x(2) by (auto split: if_splits)
    then have "amo_ok (?s\<lparr>am_w := w, am_exec := am_exec s @ [x]\<rparr>)
        \<and> amo_acked rep (?s\<lparr>am_w := w, am_exec := am_exec s @ [x]\<rparr>)"
      using u x new(3,4) by (intro amo_insert [of ?s]) auto
    moreover have ne: "w \<noteq> []" and xw: "xids w = insert x (xids ?u)"
      using new(3,4) by (simp_all add: window_insert_ne xids_window_insert)
    moreover have "rt_xid (last w) = (if ?u = [] then x else rt_xid (last ?u))"
      using new(3,4) last_window_insert [of ?u x] by (simp add: window_insert_def reply_new_def)
    then have "amo_last (?s\<lparr>am_w := w, am_exec := am_exec s @ [x]\<rparr>)"
      using z x(2) fresh(2) ne xw unfolding amo_last_def by (fastforce split: if_splits)
    ultimately show ?thesis
      using new(1) by (simp add: amo_arrive_def c amo_inv_def)
  qed
qed

lemma amo_finish_inv:
  assumes "amo_inv rep s" and "x \<in> set (am_exec s)" and "x \<notin> dom (am_reply s)"
  shows "amo_inv rep (amo_finish x b s)"
proof -
  have d: "distinct (map rt_xid (am_w s))"
    using assms(1) by (simp add: amo_inv_def amo_ok_def)
  have ne: "am_w s \<noteq> [] \<Longrightarrow> window_reply x b (am_w s) \<noteq> []"
    by (cases "am_w s") auto
  have lst: "rt_xid (last (window_reply x b (am_w s))) = rt_xid (last (am_w s))" if "am_w s \<noteq> []"
    using that ne map_xid_window_reply [of x b "am_w s"] by (metis last_map)
  have "amo_ok (amo_finish x b s)" "amo_acked rep (amo_finish x b s)"
    using assms unfolding amo_inv_def amo_ok_def amo_acked_def amo_finish_def answered_def
    by (auto simp: set_window_reply [OF d] map_xid_window_reply)
  moreover have "amo_last (amo_finish x b s)"
    using assms(1) ne lst by (auto simp: amo_inv_def amo_last_def amo_finish_def)
  ultimately show ?thesis
    using assms(1) ne by (simp add: amo_inv_def amo_finish_def)
qed

interpretation amo: invariant_system "\<lambda>s. s = amo_init" "amo_step rep" "amo_inv rep" for rep
proof
  fix s
  assume "s = amo_init"
  then show "amo_inv rep s"
    by (simp add: amo_init_def amo_inv_def amo_ok_def amo_acked_def amo_last_def xids_def)
next
  fix s t
  assume "amo_inv rep s" "amo_step rep s t"
  then show "amo_inv rep t"
    by (auto elim!: amo_step_cases intro: amo_arrive_inv amo_finish_inv)
qed

section \<open>Properties\<close>

text \<open>C2: At most once: with honest acknowledgements, whatever the order in which requests, their
  retransmissions and the completions of handlers happen, no request is executed twice.\<close>

theorem at_most_once:
  assumes "(amo_step rep)\<^sup>*\<^sup>* amo_init s"
  shows "distinct (am_exec s)"
  using amo.inv_reachable [OF refl assms] by (simp add: amo_inv_def amo_ok_def)

theorem at_most_once_witness: "distinct (am_exec example_run)"
proof (rule at_most_once)
  let ?s1 = "amo_arrive 1 0 amo_init"
  let ?s2 = "amo_finish 1 [Some CHR ''r''] ?s1"
  let ?s3 = "amo_arrive 3 1 ?s2"
  let ?s4 = "amo_arrive 2 0 ?s3"
  have z: "z = 0 \<or> z = 1" if "z \<le> (1::u32)" for z
    using that by (auto simp: word_le_nat_alt le_Suc_eq word_unat_eq_iff)
  have "amo_step example_rep amo_init ?s1"
    using amo_step.arrive [of 1 example_rep amo_init] by (simp add: example_rep_def)
  moreover have "amo_step example_rep ?s1 ?s2"
    by (rule amo_step.finish) code_simp+
  moreover have "1 \<in> answered ?s2"
    by (simp add: amo_finish_def answered_def)
  then have "amo_step example_rep ?s2 ?s3"
    using amo_step.arrive [of 3 example_rep ?s2] z by (auto simp: example_rep_def)
  moreover have "amo_step example_rep ?s3 ?s4"
    using amo_step.arrive [of 2 example_rep ?s3] by (simp add: example_rep_def)
  moreover have "amo_step example_rep ?s4 example_run"
    using amo_step.arrive [of 1 example_rep ?s4] by (simp add: example_rep_def example_run_def)
  ultimately show "(amo_step example_rep)\<^sup>*\<^sup>* amo_init example_run"
    by (meson rtranclp.rtrancl_into_rtrancl rtranclp.rtrancl_refl)
qed




text \<open>C31: \<open>dispatch\<close> obeys the window: a well-formed request of a client that asks for at-most-once
  semantics leads to running the handler exactly when the window classifies it as new; in every
  case the state of the service is untouched so far, the window of this client is the one
  \<open>window_check\<close> computes, and a remembered reply is sent again as it is.\<close>

theorem dispatch_obeys_window:
  assumes "unpack_req_header (unmarshall_buf b) = (h, req)" and "u_ok req" and "rq_clt_nonce h \<noteq> 0"
    and "rq_srv_nonce h = 0 \<or> rq_srv_nonce h = rs_nonce s"
    and "window_check (rq_xid h) (rq_xid_rep h) (window_of s (rq_clt_nonce h)) = (stat, rb, w)"
    and "dispatch_begin c b s = Returns t"
  shows "case t of
      Run f h' req' s' \<Rightarrow> stat = NEW \<and> h' = h \<and> req' = req \<and> rs_procs s (rq_proc h) = Some f
        \<and> window_of s' (rq_clt_nonce h) = w \<and> rs_app s' = rs_app s \<and> rs_sent s' = rs_sent s
    | Finished s' \<Rightarrow> stat \<noteq> NEW \<and> window_of s' (rq_clt_nonce h) = w \<and> rs_app s' = rs_app s
        \<and> (stat = DONE \<longrightarrow> rs_sent s' = rs_sent s @ [(c, rb)])"
proof (cases "rs_procs s (rq_proc h)")
  case None
  then show ?thesis
    using assms by (auto simp: dispatch_begin_def)
next
  case (Some f)
  obtain s1 where s1: "note_conn (rq_clt_nonce h) c (note_client (rq_clt_nonce h) s) = Returns s1"
    using assms Some by (auto simp: dispatch_begin_def obind_Returns_iff)
  obtain hp cs where k: "s1 = (note_client (rq_clt_nonce h) s)\<lparr>rs_heap := hp, rs_conns := cs\<rparr>"
    using note_conn_keeps [OF s1] by blast
  let ?s2 = "s1\<lparr>rs_reply_window := (rs_reply_window s1)(rq_clt_nonce h \<mapsto> w)\<rparr>"
  have chk: "checkduplicate_and_update (rq_clt_nonce h) (rq_xid h) (rq_xid_rep h) s1 = (stat, rb, ?s2)"
    using assms(5) by (simp add: checkduplicate_and_update_def k)
  have s2: "window_of ?s2 (rq_clt_nonce h) = w" "rs_app ?s2 = rs_app s" "rs_sent ?s2 = rs_sent s"
    by (simp_all add: k window_of_def)
  have t: "dispatch_begin c b s = (case stat of
      NEW \<Rightarrow> Returns (Run f h req ?s2)
    | INPROGRESS \<Rightarrow> obind (c_decref c ?s2) (\<lambda>s. Returns (Finished s))
    | DONE \<Rightarrow> obind (c_send c rb ?s2) (\<lambda>s. obind (c_decref c s) (\<lambda>s. Returns (Finished s)))
    | FORGOTTEN \<Rightarrow> obind (c_send c (reply_failure h atmostonce_failure) ?s2)
        (\<lambda>s. obind (c_decref c s) (\<lambda>s. Returns (Finished s))))"
    using assms(1-4) Some s1 chk by (cases stat) (auto simp: dispatch_begin_def)
  show ?thesis
    using assms(6) s2 Some unfolding t
    by (cases stat) (auto simp: obind_Returns_iff dest!: c_decref_keeps c_send_keeps)
qed

theorem dispatch_obeys_window_witness:
  "\<exists>t. dispatch_begin 1 (example_pdu_for 9 77) example_server = Returns t \<and>
     (case t of Run f h req s' \<Rightarrow> rs_app s' = 5 | Finished s' \<Rightarrow> False)"
proof -
  let ?h = "\<lparr>rq_xid = 4, rq_proc = 23, rq_clt_nonce = 9, rq_srv_nonce = 77, rq_xid_rep = 3\<rparr>"
  let ?req = "(unmarshall_buf (example_pdu_for 9 77))\<lparr>u_ind := RPC_HEADER_SZ\<rparr>"
  have u: "unpack_req_header (unmarshall_buf (example_pdu_for 9 77)) = (?h, ?req)"
    by (rule unpack_req_header_enc [where s = "be32 41"]) (simp_all add: example_pdu_for_def sizeof_rpc_sz_def)
  obtain t where t: "dispatch_begin 1 (example_pdu_for 9 77) example_server = Returns t"
    using u by (simp add: dispatch_begin_def example_server_def note_conn_def c_incref_def example_conns_def
        unmarshall_buf_def checkduplicate_and_update_def window_check_def window_of_def note_client_def)
  show ?thesis
    using dispatch_obeys_window [OF u _ _ _ _ t, of NEW "[]" "[reply_new 4]"] t
    by (cases t) (auto simp: unmarshall_buf_def example_server_def window_of_def window_check_def window_insert_def)
qed

text \<open>A request for an old server instance leaks a reference: \<open>got_pdu\<close> takes one for the job and
  this path of \<open>dispatch\<close> is the only one that returns without giving it back, so the connection
  can never be collected.\<close>

theorem oldsrv_leaks_reference:
  assumes "rs_heap s c = Some cn" and "unpack_req_header (unmarshall_buf b) = (h, req)" and "u_ok req"
    and "rq_srv_nonce h \<noteq> 0" and "rq_srv_nonce h \<noteq> rs_nonce s" and "rs_reachable s"
  shows "\<exists>s1 s2. rpcs_got_pdu True c b s = Returns (True, Some (c, b), s1) \<and> dispatch c b s1 = Returns s2
    \<and> rs_heap s2 c = Some (cn\<lparr>cn_refno := cn_refno cn + 1\<rparr>)
    \<and> rs_sent s2 = rs_sent s @ [(c, reply_failure h oldsrv_failure)]"
  using assms
  by (simp add: rpcs_got_pdu_def dispatch_def dispatch_begin_def c_incref_def c_send_def incref_def)

theorem oldsrv_leaks_reference_witness:
  "\<exists>s1 s2. rpcs_got_pdu True 1 (example_pdu_for 9 66) example_server = Returns (True, Some (1, example_pdu_for 9 66), s1)
    \<and> dispatch 1 (example_pdu_for 9 66) s1 = Returns s2 \<and> map_option cn_refno (rs_heap s2 1) = Some 2"
proof -
  let ?h = "\<lparr>rq_xid = 4, rq_proc = 23, rq_clt_nonce = 9, rq_srv_nonce = 66, rq_xid_rep = 3\<rparr>"
  let ?req = "(unmarshall_buf (example_pdu_for 9 66))\<lparr>u_ind := RPC_HEADER_SZ\<rparr>"
  have u: "unpack_req_header (unmarshall_buf (example_pdu_for 9 66)) = (?h, ?req)"
    by (rule unpack_req_header_enc [where s = "be32 41"]) (simp_all add: example_pdu_for_def sizeof_rpc_sz_def)
  have h: "rs_heap example_server 1 = Some example_conn"
    by (simp add: example_server_def example_conns_def)
  show ?thesis
    using oldsrv_leaks_reference [OF h u]
    by (auto simp: example_server_def example_conn_def connection_new_def unmarshall_buf_def)
qed

text \<open>A reply to a client without a nonce whose connection has died crashes the server: no
  connection is ever saved under nonce 0, so \<open>conns_[0]\<close> is a null pointer there.\<close>

theorem dead_conn_without_nonce_crashes:
  assumes "rs_heap s c = Some cn" and "cn_dead cn" and "rs_conns s 0 = None" and "rq_clt_nonce h = 0"
    and "f req marshall_new (rs_app s) = Returns (ret, rep, app)"
  shows "dispatch_new c f h req s = Aborts"
proof -
  let ?s = "(if rs_counting s \<noteq> 0 then updatestat (rq_proc h) s else s)"
  have k: "rs_heap ?s = rs_heap s" "rs_conns ?s = rs_conns s" "rs_app ?s = rs_app s"
    by (simp_all add: updatestat_def Let_def)
  have "latest_conn c 0 (?s\<lparr>rs_app := app\<rparr>) = Aborts"
    using assms(1-3) k by (intro latest_conn_null) auto
  then show ?thesis
    using assms(4,5) k by (simp add: dispatch_new_def VERIFY_def m_take_buf_def Let_def)
qed

theorem dead_conn_without_nonce_crashes_witness:
  "dispatch_new 1 (\<lambda>req rep n. Returns (0, rep, n + 1))
     \<lparr>rq_xid = 4, rq_proc = 23, rq_clt_nonce = 0, rq_srv_nonce = 77, rq_xid_rep = 3\<rparr> unmarshall_empty
     example_dead_server = Aborts"
  by (rule dead_conn_without_nonce_crashes [where cn = "example_conn\<lparr>cn_dead := True\<rparr>"])
    (simp_all add: example_dead_server_def example_server_def)

end
