(* ===== verification/Rpc_Client.thy ===== *)
theory Rpc_Client
  imports Rpc_Server Timespec
begin

text \<open>
  The RPC client endpoint \<open>rpcc\<close> of rpc/rpc.h and rpc/rpc.cc.

  \<^item> \<open>rpcc\<close> is the C++ object; a pending \<open>caller\<close> is an entry of \<open>cc_calls\<close>. As in the server,
    connections are addresses into \<open>cc_heap\<close> and \<open>cc_sent\<close> records the \<open>send\<close> calls.
  \<^item> \<open>call1\<close> is \<open>call1_start\<close>, the loop \<open>call1_loop\<close> and \<open>call1_finish\<close>. The loop takes one \<open>round\<close> of
    its environment per turn: what \<open>connect_to_dst\<close> returns, the clock, and what the other threads
    do to the client until the wait ends. \<open>None\<close> means that the rounds did not suffice;
    \<open>call1_gives_up\<close> shows that eight rounds always do for the default timeout.
  \<^item> \<open>sys_step\<close> composes client and server: calls, deliveries in any order and any number,
    completions and replies. Without timeouts and cancellations the acknowledgements are honest,
    which gives at-most-once execution end to end.
\<close>

section \<open>The window of replies received\<close>

fun xid_insert :: "u32 \<Rightarrow> u32 list \<Rightarrow> u32 list" where
  "xid_insert xid [] = [xid]"
| "xid_insert xid (y # ys) = (if xid < y then xid # y # ys else y # xid_insert xid ys)"

text \<open>The loop after the label \<open>compress\<close>: \<open>pre\<close> is the part of the list before the iterator.\<close>

fun pop_fronts :: "u32 list \<Rightarrow> u32 \<Rightarrow> u32 list" where
  "pop_fronts [] x = []"
| "pop_fronts (f # fs) x = (if f + 1 = x then pop_fronts fs x else f # fs)"

fun compress :: "u32 list \<Rightarrow> u32 list \<Rightarrow> u32 list" where
  "compress pre [] = pre"
| "compress pre (x # xs) = compress (pop_fronts pre x @ [x]) xs"

definition update_xid_rep :: "u32 \<Rightarrow> u32 list \<Rightarrow> u32 list" where
  "update_xid_rep xid w =
     (if xid \<le> hd w then w
      else let w = xid_insert xid w in compress [hd w] (tl w))"

section \<open>The client\<close>

record caller =
  ca_un :: unmarshall
  ca_intret :: u32
  ca_done :: bool

record request =
  rqs_buf :: "char option list"
  rqs_xid :: int

record rpcc =
  cc_clt_nonce :: u32
  cc_srv_nonce :: u32
  cc_bind_done :: bool
  cc_xid :: u32
  cc_lossytest :: int
  cc_retrans :: bool
  cc_reachable :: bool
  cc_chan :: "nat option"
  cc_destroy_wait :: bool
  cc_calls :: "u32 \<Rightarrow> caller option"
  cc_xid_rep_window :: "u32 list"
  cc_dup_req :: request
  cc_xid_rep_done :: int
  cc_heap :: "nat \<Rightarrow> connection option"
  cc_sent :: "(nat \<times> char option list) list"

definition request_clear :: request where
  "request_clear = \<lparr>rqs_buf = [], rqs_xid = - 1\<rparr>"

definition to_max :: int where "to_max = 120000"
definition to_min :: int where "to_min = 1000"

text \<open>\<open>r\<close> is the value of \<open>random()\<close>, \<open>lossy\<close> that of \<open>RPC_LOSSY\<close>.\<close>

definition rpcc_new :: "bool \<Rightarrow> u32 \<Rightarrow> int \<Rightarrow> rpcc" where
  "rpcc_new retrans r lossy =
     \<lparr>cc_clt_nonce = (if retrans then r else 0), cc_srv_nonce = 0, cc_bind_done = False, cc_xid = 1,
      cc_lossytest = lossy, cc_retrans = retrans, cc_reachable = True, cc_chan = None,
      cc_destroy_wait = False, cc_calls = (\<lambda>_. None), cc_xid_rep_window = [0],
      cc_dup_req = request_clear, cc_xid_rep_done = - 1, cc_heap = (\<lambda>_. None), cc_sent = []\<rparr>"

definition rpcc_got_pdu :: "string \<Rightarrow> rpcc \<Rightarrow> bool \<times> rpcc" where
  "rpcc_got_pdu b cc =
     (let (h, rep) = unpack_reply_header (unmarshall_buf b)
      in if \<not> u_ok rep then (True, cc)
         else
           let cc = cc\<lparr>cc_xid_rep_window := update_xid_rep (rp_xid h) (cc_xid_rep_window cc)\<rparr>
           in case cc_calls cc (rp_xid h) of
                None \<Rightarrow> (True, cc)
              | Some ca \<Rightarrow>
                  if \<not> ca_done ca
                  then (True, cc\<lparr>cc_calls := (cc_calls cc)(rp_xid h \<mapsto>
                          \<lparr>ca_un = fst (u_take_in (ca_un ca) rep), ca_intret = rp_ret h, ca_done = True\<rparr>)\<rparr>)
                  else (True, cc))"

text \<open>The part of \<open>cancel\<close> before it waits for the callers to leave.\<close>

definition cancel :: "rpcc \<Rightarrow> rpcc" where
  "cancel cc =
     (let cc = cc\<lparr>cc_calls := (\<lambda>x. map_option (\<lambda>ca. ca\<lparr>ca_done := True, ca_intret := cancel_failure\<rparr>) (cc_calls cc x))\<rparr>
      in if cc_calls cc \<noteq> (\<lambda>_. None) then cc\<lparr>cc_destroy_wait := True\<rparr> else cc)"

section \<open>A call\<close>

definition call1_start :: "u32 \<Rightarrow> marshall \<Rightarrow> rpcc \<Rightarrow> u32 + (u32 \<times> marshall \<times> u32 \<times> rpcc)" where
  "call1_start proc req cc =
     (if (proc \<noteq> rpc_bind \<and> \<not> cc_bind_done cc) \<or> (proc = rpc_bind \<and> cc_bind_done cc) then Inl bind_failure
      else if cc_destroy_wait cc then Inl cancel_failure
      else
        let xid = cc_xid cc;
            cc = cc\<lparr>cc_xid := cc_xid cc + 1,
                    cc_calls := (cc_calls cc)(xid \<mapsto> \<lparr>ca_un = unmarshall_empty, ca_intret = 0, ca_done = False\<rparr>)\<rparr>;
            rep = hd (cc_xid_rep_window cc);
            req = pack_req_header req
              \<lparr>rq_xid = xid, rq_proc = proc, rq_clt_nonce = cc_clt_nonce cc, rq_srv_nonce = cc_srv_nonce cc,
               rq_xid_rep = rep\<rparr>
        in Inr (xid, req, rep, cc))"

definition cl_decref :: "nat \<Rightarrow> rpcc \<Rightarrow> rpcc outcome" where
  "cl_decref a cc =
     (case cc_heap cc a of None \<Rightarrow> Aborts
      | Some c \<Rightarrow> obind (decref c) (\<lambda>c. Returns (cc\<lparr>cc_heap := (cc_heap cc)(a := c)\<rparr>)))"

definition cl_incref :: "nat \<Rightarrow> rpcc \<Rightarrow> rpcc outcome" where
  "cl_incref a cc =
     (case cc_heap cc a of None \<Rightarrow> Aborts
      | Some c \<Rightarrow> Returns (cc\<lparr>cc_heap := (cc_heap cc)(a \<mapsto> incref c)\<rparr>))"

definition cl_isdead :: "nat \<Rightarrow> rpcc \<Rightarrow> bool outcome" where
  "cl_isdead a cc = (case cc_heap cc a of None \<Rightarrow> Aborts | Some c \<Rightarrow> Returns (isdead c))"

text \<open>\<open>conn\<close> is what \<open>connect_to_dst\<close> would return: \<open>None\<close>, or a new object at an address.\<close>

definition reconnect :: "(nat \<times> connection) option \<Rightarrow> rpcc \<Rightarrow> rpcc" where
  "reconnect conn cc =
     (case conn of
        None \<Rightarrow> cc\<lparr>cc_chan := None\<rparr>
      | Some (a, c) \<Rightarrow> cc\<lparr>cc_chan := Some a, cc_heap := (cc_heap cc)(a \<mapsto> c)\<rparr>)"

definition get_refconn :: "(nat \<times> connection) option \<Rightarrow> nat option \<Rightarrow> rpcc \<Rightarrow> (nat option \<times> rpcc) outcome" where
  "get_refconn conn ch cc =
     obind (case cc_chan cc of
              None \<Rightarrow> Returns (reconnect conn cc)
            | Some a \<Rightarrow>
                obind (cl_isdead a cc) (\<lambda>dead.
                  if dead then obind (cl_decref a cc) (\<lambda>cc. Returns (reconnect conn cc)) else Returns cc))
       (\<lambda>cc. case cc_chan cc of
               None \<Rightarrow> Returns (ch, cc)
             | Some a \<Rightarrow>
                 obind (case ch of None \<Rightarrow> Returns cc | Some old \<Rightarrow> cl_decref old cc) (\<lambda>cc.
                   obind (cl_incref a cc) (\<lambda>cc. Returns (Some a, cc))))"

definition isvalid :: "request \<Rightarrow> bool" where
  "isvalid r = (rqs_xid r \<noteq> - 1)"

text \<open>Sending the request, after an old one whose answer the server should have forgotten.\<close>

definition transmit_req :: "nat option \<Rightarrow> marshall \<Rightarrow> rpcc \<Rightarrow> rpcc" where
  "transmit_req ch req cc =
     (case ch of
        None \<Rightarrow> cc
      | Some a \<Rightarrow>
          if cc_reachable cc then
            let (forgot, cc) =
                  (if isvalid (cc_dup_req cc) \<and> rqs_xid (cc_dup_req cc) < cc_xid_rep_done cc
                   then (cc_dup_req cc, cc\<lparr>cc_dup_req := request_clear\<rparr>) else (request_clear, cc));
                cc = (if isvalid forgot then cc\<lparr>cc_sent := cc_sent cc @ [(a, rqs_buf forgot)]\<rparr> else cc)
            in cc\<lparr>cc_sent := cc_sent cc @ [(a, m_written req)]\<rparr>
          else cc)"

record round =
  ro_conn :: "(nat \<times> connection) option"
  ro_now :: timespec
  ro_env :: "rpcc \<Rightarrow> rpcc"

definition caller_done :: "u32 \<Rightarrow> rpcc \<Rightarrow> bool" where
  "caller_done xid cc = (case cc_calls cc xid of Some ca \<Rightarrow> ca_done ca | None \<Rightarrow> False)"

definition must_retransmit :: "nat option \<Rightarrow> rpcc \<Rightarrow> bool outcome" where
  "must_retransmit ch cc =
     (if cc_retrans cc then (case ch of None \<Rightarrow> Returns True | Some a \<Rightarrow> cl_isdead a cc) else Returns False)"

fun call1_loop :: "round list \<Rightarrow> u32 \<Rightarrow> marshall \<Rightarrow> timespec \<Rightarrow> int \<Rightarrow> bool \<Rightarrow> nat option \<Rightarrow> rpcc \<Rightarrow>
    (nat option \<times> rpcc) option outcome" where
  "call1_loop [] xid req final curr_to transmit ch cc = Returns None"
| "call1_loop (r # rs) xid req final curr_to transmit ch cc =
     obind (if transmit
            then obind (get_refconn (ro_conn r) ch cc) (\<lambda>(ch, cc). Returns (ch, transmit_req ch req cc))
            else Returns (ch, cc))
       (\<lambda>(ch, cc).
          if tv_sec final = 0 then Returns (Some (ch, cc))
          else
            obind (add_timespec (ro_now r) curr_to) (\<lambda>next.
              let final' = (if 0 < cmp_timespec next final then final\<lparr>tv_sec := 0\<rparr> else final);
                  cc = ro_env r cc
              in if caller_done xid cc then Returns (Some (ch, cc))
                 else obind (must_retransmit ch cc) (\<lambda>again.
                        call1_loop rs xid req final' (curr_to * 2) again ch cc)))"

text \<open>With \<open>RPC_LOSSY\<close> set, a finished request is kept to be sent once more later.\<close>

definition note_dup :: "u32 \<Rightarrow> marshall \<Rightarrow> u32 \<Rightarrow> bool \<Rightarrow> rpcc \<Rightarrow> rpcc" where
  "note_dup xid req xid_rep done cc =
     (if done \<and> cc_lossytest cc \<noteq> 0 then
        let cc = (if \<not> isvalid (cc_dup_req cc)
                  then cc\<lparr>cc_dup_req := \<lparr>rqs_buf = m_written req, rqs_xid = sint xid\<rparr>\<rparr> else cc)
        in if cc_xid_rep_done cc < sint xid_rep then cc\<lparr>cc_xid_rep_done := sint xid_rep\<rparr> else cc
      else cc)"

definition call1_finish :: "u32 \<Rightarrow> marshall \<Rightarrow> u32 \<Rightarrow> nat option \<Rightarrow> rpcc \<Rightarrow> (u32 \<times> unmarshall \<times> rpcc) outcome" where
  "call1_finish xid req xid_rep ch cc =
     (case cc_calls cc xid of
        None \<Rightarrow> Aborts
      | Some ca \<Rightarrow>
          let cc = cc\<lparr>cc_calls := (cc_calls cc)(xid := None),
                      cc_xid_rep_window := update_xid_rep xid (cc_xid_rep_window cc)\<rparr>;
              cc = note_dup xid req xid_rep (ca_done ca) cc
          in obind (case ch of None \<Rightarrow> Returns cc | Some a \<Rightarrow> cl_decref a cc) (\<lambda>cc.
               Returns (if ca_done ca then ca_intret ca else timeout_failure, ca_un ca, cc)))"

definition call1 :: "round list \<Rightarrow> timespec \<Rightarrow> u32 \<Rightarrow> marshall \<Rightarrow> int \<Rightarrow> rpcc \<Rightarrow>
    (u32 \<times> unmarshall \<times> rpcc) option outcome" where
  "call1 rounds now proc req to cc =
     (case call1_start proc req cc of
        Inl e \<Rightarrow> Returns (Some (e, unmarshall_empty, cc))
      | Inr (xid, req, rep, cc) \<Rightarrow>
          obind (add_timespec now to) (\<lambda>final.
            obind (call1_loop rounds xid req final to_min True None cc) (\<lambda>res.
              case res of
                None \<Rightarrow> Returns None
              | Some (ch, cc) \<Rightarrow> obind (call1_finish xid req rep ch cc) (\<lambda>x. Returns (Some x)))))"

definition rpcc_delete :: "rpcc \<Rightarrow> rpcc outcome" where
  "rpcc_delete cc =
     obind (case cc_chan cc of
              None \<Rightarrow> Returns cc
            | Some a \<Rightarrow>
                (case cc_heap cc a of
                   None \<Rightarrow> Aborts
                 | Some c \<Rightarrow> cl_decref a (cc\<lparr>cc_heap := (cc_heap cc)(a \<mapsto> fst (closeconn c))\<rparr>)))
       (\<lambda>cc. VERIFY (cc_calls cc = (\<lambda>_. None)) (Returns cc))"

section \<open>The call templates\<close>

text \<open>\<open>c1\<close> is \<open>call1\<close> with its environment: it maps a request to the return code and the reply.\<close>

definition call_m :: "(u32 \<Rightarrow> marshall \<Rightarrow> 'c \<Rightarrow> (u32 \<times> unmarshall \<times> 'c) outcome) \<Rightarrow> 'r getter \<Rightarrow>
    u32 \<Rightarrow> marshall \<Rightarrow> 'c \<Rightarrow> (u32 \<times> 'r option \<times> 'c) outcome" where
  "call_m c1 getR proc req cc =
     obind (c1 proc req cc) (\<lambda>(intret, u, cc).
       if sint intret < 0 then Returns (intret, None, cc)
       else (let (r, u) = getR u in VERIFY (u_okdone u) (Returns (intret, Some r, cc))))"

definition call0 where
  "call0 c1 getR proc = call_m c1 getR proc marshall_new"

definition call_1 where
  "call_1 c1 p1 getR proc a1 = call_m c1 getR proc (p1 marshall_new a1)"

definition call_2 where
  "call_2 c1 p1 p2 getR proc a1 a2 = call_m c1 getR proc (p2 (p1 marshall_new a1) a2)"

definition call_3 where
  "call_3 c1 p1 p2 p3 getR proc a1 a2 a3 = call_m c1 getR proc (p3 (p2 (p1 marshall_new a1) a2) a3)"

definition call_4 where
  "call_4 c1 p1 p2 p3 p4 getR proc a1 a2 a3 a4 =
     call_m c1 getR proc (p4 (p3 (p2 (p1 marshall_new a1) a2) a3) a4)"

definition call_5 where
  "call_5 c1 p1 p2 p3 p4 p5 getR proc a1 a2 a3 a4 a5 =
     call_m c1 getR proc (p5 (p4 (p3 (p2 (p1 marshall_new a1) a2) a3) a4) a5)"

definition call_6 where
  "call_6 c1 p1 p2 p3 p4 p5 p6 getR proc a1 a2 a3 a4 a5 a6 =
     call_m c1 getR proc (p6 (p5 (p4 (p3 (p2 (p1 marshall_new a1) a2) a3) a4) a5) a6)"

definition call_7 where
  "call_7 c1 p1 p2 p3 p4 p5 p6 p7 getR proc a1 a2 a3 a4 a5 a6 a7 =
     call_m c1 getR proc (p7 (p6 (p5 (p4 (p3 (p2 (p1 marshall_new a1) a2) a3) a4) a5) a6) a7)"

definition bind_rpcc :: "(u32 \<Rightarrow> marshall \<Rightarrow> rpcc \<Rightarrow> (u32 \<times> unmarshall \<times> rpcc) outcome) \<Rightarrow> rpcc \<Rightarrow> (u32 \<times> rpcc) outcome" where
  "bind_rpcc c1 cc =
     obind (call_1 c1 put_int get_int rpc_bind 0 cc) (\<lambda>(ret, r, cc).
       case r of
         Some n \<Rightarrow> if ret = 0 then Returns (ret, cc\<lparr>cc_bind_done := True, cc_srv_nonce := n\<rparr>) else Returns (ret, cc)
       | None \<Rightarrow> Returns (ret, cc))"

section \<open>Contract of a call\<close>

text \<open>
  What the components above rely on: a call is \<open>Delivered\<close>, or it fails with a negative code before
  (\<open>Lost\<close>) or after (\<open>Late\<close>) the method has run.
\<close>

datatype net = Delivered | Lost u32 | Late u32

fun xcall :: "net \<Rightarrow> ('r \<Rightarrow> 's \<Rightarrow> u32 \<times> 'r \<times> 's) \<Rightarrow> 'r \<Rightarrow> 'r \<Rightarrow> 's \<Rightarrow> u32 \<times> 'r \<times> 's" where
  "xcall Delivered meth r0 r s = meth r0 s"
| "xcall (Lost e) meth r0 r s = (e, r, s)"
| "xcall (Late e) meth r0 r s = (e, r, snd (snd (meth r0 s)))"

section \<open>Specification\<close>

text \<open>The calls that a window records as answered: everything up to its front, and its elements.\<close>

definition acked :: "u32 list \<Rightarrow> u32 set" where
  "acked w = {x. x \<le> hd w} \<union> set w"

text \<open>Sorted, and the front is as large as it can be.\<close>

definition win_ok :: "u32 list \<Rightarrow> bool" where
  "win_ok w \<longleftrightarrow> w \<noteq> [] \<and> sorted w \<and> hd w + 1 \<notin> set w"

text \<open>
  Client and server together. \<open>sy_hdr\<close> has the \<open>xid_rep\<close> that the header of each call carries. A
  request may be delivered any number of times and in any order; a reply for an answered request
  may reach the client any number of times. A caller leaves when its reply has arrived: no
  timeout and no cancellation.
\<close>

record sys =
  sy_cl :: rpcc
  sy_hdr :: "u32 \<Rightarrow> u32 option"
  sy_srv :: amo

definition sys_init :: "u32 \<Rightarrow> int \<Rightarrow> sys" where
  "sys_init r lossy = \<lparr>sy_cl = rpcc_new True r lossy, sy_hdr = (\<lambda>_. None), sy_srv = amo_init\<rparr>"

inductive sys_step :: "sys \<Rightarrow> sys \<Rightarrow> bool" where
  call: "call1_start proc req (sy_cl s) = Inr (xid, req', rep, cc) \<Longrightarrow> cc_xid (sy_cl s) + 1 \<noteq> 0 \<Longrightarrow>
    sys_step s (s\<lparr>sy_cl := cc, sy_hdr := (sy_hdr s)(xid \<mapsto> rep)\<rparr>)"
| bound: "sys_step s (s\<lparr>sy_cl := (sy_cl s)\<lparr>cc_bind_done := True, cc_srv_nonce := n\<rparr>\<rparr>)"
| deliver: "sy_hdr s x = Some rep \<Longrightarrow> sys_step s (s\<lparr>sy_srv := amo_arrive x rep (sy_srv s)\<rparr>)"
| complete: "x \<in> set (am_exec (sy_srv s)) \<Longrightarrow> x \<notin> dom (am_reply (sy_srv s)) \<Longrightarrow>
    sys_step s (s\<lparr>sy_srv := amo_finish x b (sy_srv s)\<rparr>)"
| reply: "rp_xid (fst (unpack_reply_header (unmarshall_buf b))) \<in> answered (sy_srv s) \<Longrightarrow>
    sys_step s (s\<lparr>sy_cl := snd (rpcc_got_pdu b (sy_cl s))\<rparr>)"
| leave: "caller_done x (sy_cl s) \<Longrightarrow> call1_finish x req rep ch (sy_cl s) = Returns (ret, un, cc) \<Longrightarrow>
    sys_step s (s\<lparr>sy_cl := cc\<rparr>)"

inductive_cases sys_step_cases: "sys_step s t"

definition hdr_rep :: "sys \<Rightarrow> u32 \<Rightarrow> u32" where
  "hdr_rep s x = (case sy_hdr s x of Some r \<Rightarrow> r | None \<Rightarrow> 0)"

definition cl_inv :: "rpcc \<Rightarrow> u32 set \<Rightarrow> bool" where
  "cl_inv cc ans \<longleftrightarrow> win_ok (cc_xid_rep_window cc) \<and> (\<forall>z \<in> acked (cc_xid_rep_window cc). z = 0 \<or> z \<in> ans)
     \<and> (\<forall>x. caller_done x cc \<longrightarrow> x \<in> ans) \<and> cc_xid cc \<noteq> 0"

definition hdr_ok :: "u32 set \<Rightarrow> u32 \<Rightarrow> u32 \<Rightarrow> u32 \<Rightarrow> bool" where
  "hdr_ok ans n x r \<longleftrightarrow> x \<noteq> 0 \<and> r < x \<and> x < n \<and> (\<forall>z. z \<noteq> 0 \<and> z \<le> r \<longrightarrow> z \<in> ans)"

definition hdr_inv :: "sys \<Rightarrow> bool" where
  "hdr_inv s \<longleftrightarrow> (\<forall>x r. sy_hdr s x = Some r \<longrightarrow> hdr_ok (answered (sy_srv s)) (cc_xid (sy_cl s)) x r)
     \<and> am_arrived (sy_srv s) \<subseteq> dom (sy_hdr s)
     \<and> answered (sy_srv s) \<subseteq> am_arrived (sy_srv s)"

definition sys_inv :: "sys \<Rightarrow> bool" where
  "sys_inv s \<longleftrightarrow> amo_inv (hdr_rep s) (sy_srv s) \<and> cl_inv (sy_cl s) (answered (sy_srv s)) \<and> hdr_inv s"

text \<open>
  The clock as \<open>call1\<close> sees it: a turn that ends by a timeout takes until its deadline, so the next
  reading is not before it. \<open>t\<close> is in nanoseconds, \<open>c\<close> in milliseconds.
\<close>

fun clock_ok :: "int \<Rightarrow> int \<Rightarrow> round list \<Rightarrow> bool" where
  "clock_ok t c [] = True"
| "clock_ok t c (r # rs) =
     (t \<le> ns_of (ro_now r) \<and> 0 \<le> tv_nsec (ro_now r)
      \<and> clock_ok (ns_of (ro_now r) + c * 1000000) (c * 2) rs)"

definition example_rounds :: "round list" where
  "example_rounds =
     map (\<lambda>k. \<lparr>ro_conn = None, ro_now = \<lparr>tv_sec = 1000 + 200 * int k, tv_nsec = 0\<rparr>, ro_env = id\<rparr>) [0..<8]"

text \<open>
  A whole remote call: the request is sent as a PDU, unpacked, handled, and the reply is sent back.
  \<open>net\<close> is the network: it turns what was sent into what is received.
\<close>

definition net_call :: "(u32 \<Rightarrow> req_header) \<Rightarrow> (char option list \<Rightarrow> string) \<Rightarrow> 's handler \<Rightarrow>
    u32 \<Rightarrow> marshall \<Rightarrow> 's \<Rightarrow> (u32 \<times> unmarshall \<times> 's) outcome" where
  "net_call hdr net f proc req s =
     (let (h, args) = unpack_req_header (unmarshall_buf (net (fst (m_take_buf (pack_req_header req (hdr proc))))))
      in obind (f args marshall_new s) (\<lambda>(ret, rep, s).
           let (rh, u) = unpack_reply_header (unmarshall_buf (net (fst (m_take_buf
                 (pack_reply_header rep \<lparr>rp_xid = rq_xid h, rp_ret = ret\<rparr>)))))
           in Returns (rp_ret rh, fst (u_take_in unmarshall_empty u), s)))"

definition sent_ok :: "marshall \<Rightarrow> string \<Rightarrow> bool" where
  "sent_ok m c \<longleftrightarrow> m_wf m \<and> RPC_HEADER_SZ \<le> m_ind m \<and> m_ind m < 2 ^ 31 \<and> get_content m = Some c"

text \<open>A network that delivers junk for the bytes nobody initialised.\<close>

definition example_net :: "char option list \<Rightarrow> string" where
  "example_net = map (\<lambda>x. case x of None \<Rightarrow> CHR ''?'' | Some c \<Rightarrow> c)"

section \<open>The window of replies\<close>

lemma set_xid_insert [simp]: "set (xid_insert x w) = insert x (set w)"
  by (induction w) auto

lemma sorted_xid_insert: "sorted w \<Longrightarrow> sorted (xid_insert x w)"
  by (induction w) (auto simp: less_imp_le)

lemma hd_xid_insert: "w \<noteq> [] \<Longrightarrow> \<not> x \<le> hd w \<Longrightarrow> xid_insert x w = hd w # xid_insert x (tl w)"
  by (cases w) auto

lemma le_succ_iff: "f + 1 \<noteq> 0 \<Longrightarrow> y \<le> f + 1 \<longleftrightarrow> y \<le> f \<or> y = f + (1::u32)"
  using unatSuc [of f] by (auto simp: word_le_nat_alt add.commute le_Suc_eq word_unat_eq_iff)

lemma less_succ_iff: "f + 1 \<noteq> 0 \<Longrightarrow> y < f + 1 \<longleftrightarrow> y \<le> (f::u32)"
  using unatSuc [of f] by (simp add: word_le_nat_alt word_less_nat_alt add.commute less_Suc_eq_le)

lemma pop_fronts_all:
  "sorted p \<Longrightarrow> f + 1 \<noteq> 0 \<Longrightarrow> \<forall>y \<in> set p. f \<le> y \<and> y \<le> f + 1 \<Longrightarrow> set (pop_fronts p (f + 1)) \<subseteq> {f + 1}"
proof (induction p)
  case (Cons g gs)
  have "g = f \<or> g = f + 1"
    using Cons.prems le_succ_iff [of f g] by auto
  then show ?case
    using Cons by (auto intro: antisym)
qed simp

lemma pop_fronts_other: "hd p + 1 \<noteq> x \<Longrightarrow> pop_fronts p x = p"
  by (cases p) auto

lemma pop_step:
  assumes "win_ok pre" and "\<forall>y \<in> set pre. y \<le> x"
  shows "win_ok (pop_fronts pre x @ [x])" and "acked (pop_fronts pre x @ [x]) = insert x (acked pre)"
proof -
  obtain f fs where pre: "pre = f # fs"
    using assms(1) by (cases pre) (auto simp: win_ok_def)
  have srt: "sorted pre" "\<forall>y \<in> set pre. f \<le> y"
    using assms(1) by (auto simp: win_ok_def pre)
  have "win_ok (pop_fronts pre x @ [x]) \<and> acked (pop_fronts pre x @ [x]) = insert x (acked pre)"
  proof (cases "f + 1 = x")
    case False
    then have "pop_fronts pre x = pre"
      by (simp add: pop_fronts_other pre)
    then show ?thesis
      using assms False by (auto simp: win_ok_def acked_def sorted_append pre)
  next
    case True
    have nz: "f + 1 \<noteq> 0"
    proof
      assume z: "f + 1 = 0"
      then have "f = 0"
        using assms(2) True by (simp add: pre)
      then show False
        using z by simp
    qed
    have only: "set (pop_fronts pre x) \<subseteq> {x}"
      using pop_fronts_all [OF srt(1) nz] srt(2) assms(2) True by auto
    then have h: "hd (pop_fronts pre x @ [x]) = x"
      by (cases "pop_fronts pre x") auto
    have "sorted (pop_fronts pre x @ [x])"
      using only by (auto simp: sorted_append intro!: sorted_iff_nth_mono [THEN iffD2])
        (metis nth_mem singletonD subsetD order.refl order.strict_trans1)
    moreover have "acked pre = {y. y \<le> f} \<union> set pre" "set pre \<subseteq> {y. y \<le> x}"
      using assms(2) by (auto simp: acked_def pre)
    moreover have "{y. y \<le> x} = insert x {y. y \<le> f}"
      using le_succ_iff [OF nz] True by auto
    ultimately show ?thesis
      using only h unfolding win_ok_def acked_def by auto
  qed
  then show "win_ok (pop_fronts pre x @ [x])" "acked (pop_fronts pre x @ [x]) = insert x (acked pre)"
    by simp_all
qed

lemma compress_spec:
  "win_ok pre \<Longrightarrow> sorted (pre @ xs) \<Longrightarrow>
   win_ok (compress pre xs) \<and> acked (compress pre xs) = acked pre \<union> set xs"
proof (induction xs arbitrary: pre)
  case (Cons x xs)
  have le: "\<forall>y \<in> set pre. y \<le> x"
    using Cons.prems(2) by (auto simp: sorted_append)
  note p = pop_step [OF Cons.prems(1) le]
  have "\<forall>y \<in> set (pop_fronts pre x @ [x]). y \<le> x"
    using p(1) by (auto simp: win_ok_def sorted_append)
  then have "sorted ((pop_fronts pre x @ [x]) @ xs)"
    using p(1) Cons.prems(2) by (force simp: win_ok_def sorted_append)
  then show ?case
    using Cons.IH [OF p(1)] p(2) by auto
qed simp

lemma update_xid_rep_spec:
  assumes "win_ok w"
  shows "win_ok (update_xid_rep x w) \<and> acked (update_xid_rep x w) = insert x (acked w)"
proof (cases "x \<le> hd w")
  case True
  then show ?thesis
    using assms by (auto simp: update_xid_rep_def acked_def)
next
  case False
  have w: "w \<noteq> []" "w = hd w # tl w" "sorted w"
    using assms by (auto simp: win_ok_def)
  have i: "xid_insert x w = hd w # xid_insert x (tl w)"
    using hd_xid_insert [OF w(1) False] .
  have "win_ok [hd w]"
    by (simp add: win_ok_def)
  moreover have "sorted ([hd w] @ xid_insert x (tl w))"
    using sorted_xid_insert [OF w(3), of x] i by simp
  moreover have "acked [hd w] \<union> set (xid_insert x (tl w)) = insert x (acked w)"
    using w(1) by (cases w) (auto simp: acked_def)
  ultimately show ?thesis
    using compress_spec [of "[hd w]" "xid_insert x (tl w)"] False i by (simp add: update_xid_rep_def)
qed

section \<open>The invariant of client and server\<close>

lemma amo_inv_cong: "amo_inv rep a \<Longrightarrow> (\<And>y. y \<in> am_arrived a \<Longrightarrow> rep' y = rep y) \<Longrightarrow> amo_inv rep' a"
  by (simp add: amo_inv_def amo_acked_def)

lemma amo_arrive_keeps:
  "am_arrived (amo_arrive x rep a) = insert x (am_arrived a)" "am_reply (amo_arrive x rep a) = am_reply a"
  "am_forgot a \<subseteq> am_forgot (amo_arrive x rep a)" "am_forgot (amo_arrive x rep a) \<subseteq> insert x (am_forgot a)"
  by (auto simp: amo_arrive_def split: prod.splits)

lemma answered_arrive:
  "answered a \<subseteq> answered (amo_arrive x rep a)" "answered (amo_arrive x rep a) \<subseteq> insert x (answered a)"
  using amo_arrive_keeps [where x = x and rep = rep and a = a] by (auto simp: answered_def)

lemma answered_finish: "answered (amo_finish x b a) = insert x (answered a)"
  "am_arrived (amo_finish x b a) = am_arrived a"
  by (auto simp: answered_def amo_finish_def)

lemma cl_inv_mono: "cl_inv cc ans \<Longrightarrow> ans \<subseteq> ans' \<Longrightarrow> cl_inv cc ans'"
  by (auto simp: cl_inv_def)

lemma cl_inv_update:
  assumes "cl_inv cc ans" and "x \<in> ans"
    and "cc_xid_rep_window cc' = update_xid_rep x (cc_xid_rep_window cc)" and "cc_xid cc' = cc_xid cc"
    and "\<And>y. caller_done y cc' \<Longrightarrow> caller_done y cc \<or> y = x"
  shows "cl_inv cc' ans"
  using assms update_xid_rep_spec [of "cc_xid_rep_window cc" x] by (auto simp: cl_inv_def)

lemma got_pdu_inv:
  assumes "cl_inv cc ans" and "rp_xid (fst (unpack_reply_header (unmarshall_buf b))) \<in> ans"
  shows "cl_inv (snd (rpcc_got_pdu b cc)) ans" and "cc_xid (snd (rpcc_got_pdu b cc)) = cc_xid cc"
proof -
  obtain h rep where u: "unpack_reply_header (unmarshall_buf b) = (h, rep)"
    by fastforce
  have "cl_inv (snd (rpcc_got_pdu b cc)) ans \<and> cc_xid (snd (rpcc_got_pdu b cc)) = cc_xid cc"
  proof (cases "u_ok rep")
    case True
    have "cl_inv (snd (rpcc_got_pdu b cc)) ans"
      using assms u True
      by (intro cl_inv_update [OF assms(1), of "rp_xid h"])
        (auto simp: rpcc_got_pdu_def Let_def caller_done_def split: option.splits if_splits)
    then show ?thesis
      using u True by (auto simp: rpcc_got_pdu_def Let_def split: option.splits)
  qed (use assms u in \<open>simp add: rpcc_got_pdu_def\<close>)
  then show "cl_inv (snd (rpcc_got_pdu b cc)) ans" "cc_xid (snd (rpcc_got_pdu b cc)) = cc_xid cc"
    by simp_all
qed

lemma cl_decref_keeps: "cl_decref a cc = Returns cc' \<Longrightarrow> \<exists>hp. cc' = cc\<lparr>cc_heap := hp\<rparr>"
  by (auto simp: cl_decref_def obind_Returns_iff split: option.splits)

lemma note_dup_keeps: "\<exists>dr xd. note_dup x req rep d cc = cc\<lparr>cc_dup_req := dr, cc_xid_rep_done := xd\<rparr>"
proof -
  have "note_dup x req rep d cc = cc\<lparr>cc_dup_req := cc_dup_req (note_dup x req rep d cc),
      cc_xid_rep_done := cc_xid_rep_done (note_dup x req rep d cc)\<rparr>"
    by (simp add: note_dup_def Let_def)
  then show ?thesis
    by blast
qed

lemma finish_inv:
  assumes inv: "cl_inv cc ans" and x: "x \<in> ans" and f: "call1_finish x req rep ch cc = Returns (ret, un, cc')"
  shows "cl_inv cc' ans" and "cc_xid cc' = cc_xid cc"
proof -
  obtain ca where ca: "cc_calls cc x = Some ca"
    using f by (auto simp: call1_finish_def split: option.splits)
  define c1 where "c1 = cc\<lparr>cc_calls := (cc_calls cc)(x := None),
      cc_xid_rep_window := update_xid_rep x (cc_xid_rep_window cc)\<rparr>"
  let ?c2 = "note_dup x req rep (ca_done ca) c1"
  have "(case ch of None \<Rightarrow> Returns ?c2 | Some a \<Rightarrow> cl_decref a ?c2) = Returns cc'"
    using f ca by (auto simp: call1_finish_def obind_Returns_iff Let_def simp flip: c1_def)
  then have "\<exists>hp. cc' = ?c2\<lparr>cc_heap := hp\<rparr>"
    by (cases ch) (auto intro: exI [of _ "cc_heap ?c2"] dest: cl_decref_keeps)
  then obtain dr xd hp where "cc' = c1\<lparr>cc_dup_req := dr, cc_xid_rep_done := xd, cc_heap := hp\<rparr>"
    using note_dup_keeps by metis
  then show "cl_inv cc' ans" "cc_xid cc' = cc_xid cc"
    by (auto intro!: cl_inv_update [OF inv x] simp: c1_def caller_done_def split: if_splits)
qed

lemma sys_call_inv:
  assumes inv: "sys_inv s" and c: "call1_start proc req (sy_cl s) = Inr (xid, req', rep, cc)"
    and nw: "cc_xid (sy_cl s) + 1 \<noteq> 0"
  shows "sys_inv (s\<lparr>sy_cl := cc, sy_hdr := (sy_hdr s)(xid \<mapsto> rep)\<rparr>)"
proof -
  have x: "xid = cc_xid (sy_cl s)" "rep = hd (cc_xid_rep_window (sy_cl s))" "cc_xid cc = xid + 1"
      "cc_xid_rep_window cc = cc_xid_rep_window (sy_cl s)"
    and calls: "cc_calls cc = (cc_calls (sy_cl s))(xid \<mapsto> \<lparr>ca_un = unmarshall_empty, ca_intret = 0, ca_done = False\<rparr>)"
    using c by (auto simp: call1_start_def Let_def split: if_splits)
  have ci: "cl_inv (sy_cl s) (answered (sy_srv s))" and hi: "hdr_inv s"
    using inv by (simp_all add: sys_inv_def)
  have lt: "y < xid + 1 \<longleftrightarrow> y \<le> xid" for y
    using less_succ_iff nw x(1) by simp
  have ack: "z = 0 \<or> z \<in> answered (sy_srv s)" if "z \<le> rep" for z
    using that ci by (auto simp: cl_inv_def acked_def x(2))
  have old: "y < xid" if "y \<in> dom (sy_hdr s)" for y
    using that hi x(1) by (auto simp: hdr_inv_def hdr_ok_def)
  have "xid \<noteq> 0"
    using ci x(1) by (simp add: cl_inv_def)
  moreover have "answered (sy_srv s) \<subseteq> dom (sy_hdr s)"
    using hi unfolding hdr_inv_def by blast
  ultimately have "rep < xid"
    using ack [of rep] old [of rep] by (cases "rep = 0") (auto simp: word_neq_0_conv)
  then have "hdr_ok (answered (sy_srv s)) (xid + 1) xid rep"
    using ack \<open>xid \<noteq> 0\<close> lt by (auto simp: hdr_ok_def)
  moreover have "hdr_ok (answered (sy_srv s)) (xid + 1) y r" if "sy_hdr s y = Some r" for y r
    using that hi x(1) lt by (auto simp: hdr_inv_def hdr_ok_def less_imp_le)
  ultimately have "hdr_inv (s\<lparr>sy_cl := cc, sy_hdr := (sy_hdr s)(xid \<mapsto> rep)\<rparr>)"
    using hi x(3) unfolding hdr_inv_def by (simp add: subset_insertI2)
  moreover have "cl_inv cc (answered (sy_srv s))"
    using ci nw x calls by (simp add: cl_inv_def caller_done_def)
  moreover have "amo_inv (hdr_rep (s\<lparr>sy_cl := cc, sy_hdr := (sy_hdr s)(xid \<mapsto> rep)\<rparr>)) (sy_srv s)"
  proof (rule amo_inv_cong [of "hdr_rep s"])
    fix y
    assume "y \<in> am_arrived (sy_srv s)"
    then have "y \<in> dom (sy_hdr s)"
      using hi unfolding hdr_inv_def by blast
    then have "y \<noteq> xid"
      using old [of y] by auto
    then show "hdr_rep (s\<lparr>sy_cl := cc, sy_hdr := (sy_hdr s)(xid \<mapsto> rep)\<rparr>) y = hdr_rep s y"
      by (simp add: hdr_rep_def)
  qed (use inv in \<open>simp add: sys_inv_def\<close>)
  ultimately show ?thesis
    by (simp add: sys_inv_def)
qed

lemma hdr_ok_mono: "hdr_ok ans n x r \<Longrightarrow> ans \<subseteq> ans' \<Longrightarrow> hdr_ok ans' n x r"
  by (auto simp: hdr_ok_def)

lemma sys_server_inv:
  assumes inv: "sys_inv s" and srv: "amo_inv (hdr_rep s) srv" and ans: "answered (sy_srv s) \<subseteq> answered srv"
    and arr: "am_arrived srv \<subseteq> dom (sy_hdr s)" "answered srv \<subseteq> am_arrived srv"
  shows "sys_inv (s\<lparr>sy_srv := srv\<rparr>)"
  using assms cl_inv_mono [OF _ ans] hdr_ok_mono [OF _ ans]
  by (auto simp: sys_inv_def hdr_inv_def hdr_rep_def [abs_def])

lemma sys_step_inv:
  assumes "sys_inv s" and "sys_step s t"
  shows "sys_inv t"
  using assms(2)
proof (cases rule: sys_step.cases)
  case (call proc req xid req' rep cc)
  then show ?thesis
    using sys_call_inv [OF assms(1)] by simp
next
  case (bound n)
  then show ?thesis
    using assms(1)
    by (auto simp: sys_inv_def cl_inv_def hdr_inv_def hdr_rep_def [abs_def] caller_done_def)
next
  case (deliver x rep)
  have h: "hdr_ok (answered (sy_srv s)) (cc_xid (sy_cl s)) x rep" "hdr_rep s x = rep"
    using assms(1) deliver by (auto simp: sys_inv_def hdr_inv_def hdr_rep_def)
  then have "amo_inv (hdr_rep s) (amo_arrive x (hdr_rep s x) (sy_srv s))"
    using assms(1) by (intro amo_arrive_inv) (auto simp: sys_inv_def hdr_ok_def)
  then show ?thesis
    using assms(1) deliver h(2) answered_arrive [where x = x and rep = rep and a = "sy_srv s"]
    unfolding deliver(1)
    by (intro sys_server_inv) (auto simp: sys_inv_def hdr_inv_def amo_arrive_keeps)
next
  case (complete x b)
  then have "amo_inv (hdr_rep s) (amo_finish x b (sy_srv s))"
    using assms(1) by (intro amo_finish_inv) (auto simp: sys_inv_def)
  moreover have "x \<in> am_arrived (sy_srv s)"
    using assms(1) complete(2) by (auto simp: sys_inv_def amo_inv_def amo_ok_def)
  ultimately show ?thesis
    using assms(1) unfolding complete(1)
    by (intro sys_server_inv) (auto simp: sys_inv_def hdr_inv_def answered_finish)
next
  case (reply b)
  then show ?thesis
    using assms(1) got_pdu_inv [of "sy_cl s" "answered (sy_srv s)" b]
    by (auto simp: sys_inv_def hdr_inv_def hdr_rep_def [abs_def])
next
  case (leave x req rep ch ret un cc)
  then have "x \<in> answered (sy_srv s)"
    using assms(1) by (auto simp: sys_inv_def cl_inv_def)
  then show ?thesis
    using leave assms(1) finish_inv [of "sy_cl s" "answered (sy_srv s)" x req rep ch ret un cc]
    by (auto simp: sys_inv_def hdr_inv_def hdr_rep_def [abs_def])
qed

interpretation rpc: invariant_system "\<lambda>s. \<exists>r lossy. s = sys_init r lossy" sys_step sys_inv
proof
  fix s
  assume "\<exists>r lossy. s = sys_init r lossy"
  then show "sys_inv s"
    by (auto simp: sys_init_def sys_inv_def cl_inv_def hdr_inv_def rpcc_new_def win_ok_def acked_def
        caller_done_def answered_def amo_init_def amo_inv_def amo_ok_def amo_acked_def amo_last_def xids_def)
qed (rule sys_step_inv)

section \<open>Deadlines\<close>

lemma cmp_timespec_pos:
  assumes "0 \<le> tv_nsec a" "tv_nsec a \<le> 1000000000" "0 \<le> tv_nsec b" "ns_of b < ns_of a"
  shows "0 < cmp_timespec a b"
proof (cases "tv_sec a < tv_sec b")
  case True
  then have "tv_sec a + 1 \<le> tv_sec b"
    by simp
  then have False
    using assms unfolding ns_of_def by linarith
  then show ?thesis ..
next
  case False
  then show ?thesis
    using assms by (cases "tv_sec a = tv_sec b") (auto simp: cmp_timespec_def ns_of_def)
qed

lemma add_timespec_returns:
  assumes "0 \<le> tv_nsec a" "0 \<le> b" "add_timespec a b = Returns r"
  shows "ns_of r = ns_of a + b * 1000000 \<and> 0 \<le> tv_nsec r \<and> tv_nsec r \<le> 1000000000"
proof -
  define q where "q = \<lparr>tv_sec = tv_sec a + b sdiv 1000, tv_nsec = tv_nsec a + (b smod 1000) * 1000000\<rparr>"
  have r: "r = carry_nsec q" "0 \<le> tv_nsec q"
    using assms(3) by (auto simp: add_timespec_def q_def Let_def)
  have "(x + d) * 1000000000 + (y + m * 1000000) = x * 1000000000 + y + b' * 1000000"
    if "b' = d * 1000 + m" for x y d m b' :: int
    using that by simp
  then have "ns_of q = ns_of a + b * 1000000"
    using sdiv_smod_1000 [OF assms(2)] unfolding q_def ns_of_def timespec.select_convs
    by (simp only: div_mult_mod_eq)
  then show ?thesis
    using carry_nsec_spec [OF r(2)] r(1) by simp
qed

lemma call1_loop_stops:
  "tv_sec final = 0 \<Longrightarrow> rs \<noteq> [] \<Longrightarrow> call1_loop rs xid req final c tr ch cc \<noteq> Returns None"
  by (cases rs) (auto simp: obind_Returns_iff split: prod.splits)

lemma call1_loop_ends:
  assumes "clock_ok t c rs" and "0 < c" and "0 \<le> tv_nsec final" and "2 \<le> length rs"
    and "ns_of final < t + (2 ^ (length rs - 1) - 1) * (c * 1000000)"
  shows "call1_loop rs xid req final c tr ch cc \<noteq> Returns None"
  using assms
proof (induction rs arbitrary: t c tr ch cc)
  case (Cons r rs)
  have rs: "rs \<noteq> []" "length (r # rs) - 1 = length rs"
    using Cons.prems(4) by auto
  have go: "call1_loop rs xid req (if 0 < cmp_timespec nxt final then final\<lparr>tv_sec := 0\<rparr> else final)
      (c * 2) again ch1 cc1 \<noteq> Returns None"
    if nx: "add_timespec (ro_now r) c = Returns nxt" for nxt again ch1 cc1
  proof (cases "0 < cmp_timespec nxt final")
    case True
    then show ?thesis
      using call1_loop_stops [OF _ rs(1)] by simp
  next
    case False
    have n: "ns_of nxt = ns_of (ro_now r) + c * 1000000" "0 \<le> tv_nsec nxt" "tv_nsec nxt \<le> 1000000000"
      using add_timespec_returns [OF _ _ nx] Cons.prems(1,2) by simp_all
    have late: "ns_of nxt \<le> ns_of final"
      using cmp_timespec_pos [OF n(2,3) Cons.prems(3)] False by linarith
    have t: "t + c * 1000000 \<le> ns_of nxt"
      using Cons.prems(1) n(1) by simp
    obtain m where m: "length rs = Suc m"
      using rs(1) by (cases rs) auto
    have "ns_of final < ns_of nxt + (2 ^ m - 1) * (c * 2 * 1000000)"
      using Cons.prems(5) t unfolding rs(2) m by (simp add: algebra_simps)
    moreover from this have "2 \<le> length rs"
      using late m by (cases m) auto
    ultimately show ?thesis
      using Cons.IH [of "ns_of nxt" "c * 2"] Cons.prems(1,2,3) False m n(1) by simp
  qed
  then show ?case
    by (auto simp: obind_Returns_iff Let_def split: prod.splits if_splits)
qed simp

section \<open>Stubs\<close>

lemma m_wf_new: "m_wf marshall_new" and m_written_new: "m_written marshall_new = replicate RPC_HEADER_SZ None"
  by (simp_all add: m_wf_def m_written_def marshall_new_def mem_realloc_def DEFAULT_RPC_SZ_def RPC_HEADER_SZ_def
      sizeof_rpc_sz_def)

lemma get_content_written:
  assumes "m_written m = replicate RPC_HEADER_SZ None @ map Some c"
  shows "get_content m = Some c"
proof -
  have "drop RPC_HEADER_SZ (m_written m) = map Some c"
    using assms by simp
  then show ?thesis
    by (simp add: get_content_def those_eq_Some_iff m_written_def drop_take)
qed

text \<open>What the delivery lemmas need of a marshalled message with content \<open>c\<close>.\<close>

lemma sent_okI:
  assumes "m_wf m" and "m_written m = replicate RPC_HEADER_SZ None @ map Some c"
    and "RPC_HEADER_SZ + length c < 2 ^ 31"
  shows "sent_ok m c"
proof -
  have "m_ind m = RPC_HEADER_SZ + length c"
    using arg_cong [OF assms(2), of length] assms(1) by (simp add: m_written_def m_wf_def)
  then show ?thesis
    using assms get_content_written by (simp add: sent_ok_def)
qed

lemma u_okdone_skip: "u_wf u \<Longrightarrow> u_ok u \<Longrightarrow> u_okdone (u_skip (length (u_rest u)) u)"
  by (simp add: u_okdone_def u_wf_def u_rest_def)

lemma get3:
  assumes c: "codec p1 g1 e1" "codec p2 g2 e2" "codec p3 g3 e3"
    and u: "u_wf u" "u_ok u" "u_rest u = e1 a1 @ e2 a2 @ e3 a3"
  shows "\<exists>u1 u2 u3. g1 u = (a1, u1) \<and> g2 u1 = (a2, u2) \<and> g3 u2 = (a3, u3) \<and> u_okdone u3"
proof -
  let ?u1 = "u_skip (length (e1 a1)) u"
  let ?u2 = "u_skip (length (e2 a2)) ?u1"
  let ?u3 = "u_skip (length (e3 a3)) ?u2"
  have "g1 u = (a1, ?u1)"
    using u by (intro codec.get_enc [OF c(1), of _ _ "e2 a2 @ e3 a3"]) simp_all
  moreover have "g2 ?u1 = (a2, ?u2)"
    using u by (intro codec.get_enc [OF c(2), of _ _ "e3 a3"]) simp_all
  moreover have "g3 ?u2 = (a3, ?u3)"
    using u by (intro codec.get_enc_only [OF c(3)]) simp_all
  moreover have "u_okdone ?u3"
    using u_okdone_skip [OF u(1,2)] u(3) by (simp add: add.assoc)
  ultimately show ?thesis
    by blast
qed

section \<open>Properties\<close>

text \<open>C1: End to end at most once: in every reachable state of client and server together, with any
  loss, duplication and reordering of messages, as long as no call times out, no request has been
  executed twice.\<close>

theorem rpc_at_most_once:
  assumes "sys_step\<^sup>*\<^sup>* (sys_init r lossy) s"
  shows "distinct (am_exec (sy_srv s))"
proof -
  have "sys_inv s"
    using rpc.inv_reachable [OF _ assms] by blast
  then show ?thesis
    by (simp add: sys_inv_def amo_inv_def amo_ok_def)
qed

theorem rpc_at_most_once_witness:
  "\<exists>s. sys_step\<^sup>*\<^sup>* (sys_init 9 0) s \<and> am_exec (sy_srv s) = [1] \<and> am_arrived (sy_srv s) = {1}
     \<and> distinct (am_exec (sy_srv s))"
proof -
  let ?s0 = "sys_init 9 0"
  obtain req' cc where c: "call1_start rpc_bind (put_int marshall_new 0) (sy_cl ?s0) = Inr (1, req', 0, cc)"
    by (simp add: call1_start_def sys_init_def rpcc_new_def)
  let ?s1 = "?s0\<lparr>sy_cl := cc, sy_hdr := (sy_hdr ?s0)(1 \<mapsto> 0)\<rparr>"
  let ?s2 = "?s1\<lparr>sy_srv := amo_arrive 1 0 (sy_srv ?s1)\<rparr>"
  let ?s3 = "?s2\<lparr>sy_srv := amo_arrive 1 0 (sy_srv ?s2)\<rparr>"
  have "sys_step ?s0 ?s1"
    by (rule sys_step.call [OF c]) (simp add: sys_init_def rpcc_new_def)
  moreover have "sys_step ?s1 ?s2"
    by (rule sys_step.deliver) simp
  moreover have "sys_step ?s2 ?s3"
    by (rule sys_step.deliver) simp
  ultimately have r: "sys_step\<^sup>*\<^sup>* ?s0 ?s3"
    by (meson rtranclp.rtrancl_into_rtrancl rtranclp.rtrancl_refl)
  have "am_exec (sy_srv ?s3) = [1]" "am_arrived (sy_srv ?s3) = {1}"
    by (simp_all add: sys_init_def amo_arrive_def amo_init_def window_check_def window_insert_def reply_new_def)
  then show ?thesis
    using r rpc_at_most_once [OF r] by blast
qed

text \<open>\<open>update_xid_rep\<close> keeps an exact account of the answered calls: the set a window stands for
  grows by exactly the call that was answered, the window stays sorted, and its front, which the
  next request acknowledges, is as large as it can be.\<close>

theorem update_xid_rep_correct:
  assumes "win_ok w"
  shows "win_ok (update_xid_rep x w) \<and> acked (update_xid_rep x w) = insert x (acked w)"
  using assms by (rule update_xid_rep_spec)

theorem update_xid_rep_correct_witness:
  "win_ok [3, 5, 6, 6, 9] \<and> update_xid_rep 4 [3, 5, 6, 6, 9] = [6, 6, 9] \<and>
   acked [6, 6, 9] = insert 4 (acked [3, 5, 6, 6, 9])"
proof -
  have w: "win_ok [3, 5, 6, 6, 9]"
    by code_simp
  have "update_xid_rep 4 [3, 5, 6, 6, 9] = [6, 6, 9]"
    by code_simp
  then show ?thesis
    using w update_xid_rep_correct [OF w, of 4] by simp
qed

text \<open>C30: A call gives up: with the default timeout of 120 seconds, \<open>call1\<close> is over after at most eight
  turns of its loop, whatever the network and the other threads do, provided the clock does not
  run backwards past a deadline that was waited for.\<close>

theorem call1_gives_up:
  assumes "0 \<le> tv_nsec now" and "clock_ok (ns_of now) to_min rounds" and "8 \<le> length rounds"
  shows "call1 rounds now proc req to_max cc \<noteq> Returns None"
proof -
  have "call1_loop rounds xid req' final to_min tr ch cc' \<noteq> Returns None"
    if f: "add_timespec now to_max = Returns final" for xid req' final tr ch cc'
  proof (rule call1_loop_ends [OF assms(2)])
    have "(2::int) ^ 7 \<le> 2 ^ (length rounds - 1)"
      using assms(3) by (intro power_increasing) auto
    then show "ns_of final < ns_of now + (2 ^ (length rounds - 1) - 1) * (to_min * 1000000)"
      using add_timespec_returns [OF assms(1) _ f] by (simp add: to_max_def to_min_def)
    show "0 \<le> tv_nsec final"
      using add_timespec_returns [OF assms(1) _ f] by (simp add: to_max_def)
  qed (use assms(3) in \<open>simp_all add: to_min_def\<close>)
  then show ?thesis
    by (auto simp: call1_def obind_Returns_iff split: sum.splits prod.splits option.splits)
qed

theorem call1_gives_up_witness:
  "call1 example_rounds \<lparr>tv_sec = 1000, tv_nsec = 0\<rparr> rpc_bind marshall_new to_max (rpcc_new True 9 0) \<noteq> Returns None"
  by (rule call1_gives_up) (simp_all add: example_rounds_def upt_rec ns_of_def to_min_def)



end
