(* ===== verification/Lock_Server.thy ===== *)
theory Lock_Server
  imports Rpc_Client
begin

text \<open>
  The first lock service: lock_protocol.h, lock_server.h, lock_server.cc and lock_client.cc.

  The server is a map from lock ids to a flag. A handler that waits on the condition variable is
  a handler that is not enabled yet: \<open>acquire_lock\<close> is \<open>None\<close> while it waits. The value of \<open>r\<close>, which
  the handlers never assign, is an argument that is returned. \<open>mutex_ev\<close> records the operations on
  the server's mutex where a handler does not keep lock and unlock paired. \<open>ls_step\<close> is the server
  with its clients; the theorem is mutual exclusion.
\<close>

section \<open>Protocol\<close>

datatype lock_status = L_OK | L_RETRY | L_RPCERR | L_NOENT | L_IOERR

primrec lock_status_code :: "lock_status \<Rightarrow> u32" where
  "lock_status_code L_OK = 0"
| "lock_status_code L_RETRY = 1"
| "lock_status_code L_RPCERR = 2"
| "lock_status_code L_NOENT = 3"
| "lock_status_code L_IOERR = 4"

datatype acq_ret = Acq_OK | Acq_RETRY

datatype lock_state = NONE | FREE | LOCK | RELEASING | ACQING

type_synonym lockid_t = u64

definition proc_acquire :: u32 where "proc_acquire = 0x7001"
definition proc_release :: u32 where "proc_release = 0x7002"
definition proc_stat :: u32 where "proc_stat = 0x7003"

section \<open>Server\<close>

datatype mutex_ev = M_lock | M_unlock

record lock_server =
  ls_nacquire :: u32
  ls_lock_map :: "lockid_t \<Rightarrow> bool option"

definition lock_server_new :: lock_server where
  "lock_server_new = \<lparr>ls_nacquire = 0, ls_lock_map = (\<lambda>_. None)\<rparr>"

definition ls_stat :: "u32 \<Rightarrow> lockid_t \<Rightarrow> lock_server \<Rightarrow> lock_status \<times> u32" where
  "ls_stat clt lid s = (L_OK, ls_nacquire s)"

definition acquire_lock :: "u32 \<Rightarrow> lockid_t \<Rightarrow> u32 \<Rightarrow> lock_server \<Rightarrow> (lock_status \<times> u32 \<times> lock_server) option" where
  "acquire_lock clt lid r s =
     (case ls_lock_map s lid of
        None \<Rightarrow> Some (L_OK, r, s\<lparr>ls_lock_map := (ls_lock_map s)(lid \<mapsto> True)\<rparr>)
      | Some locked \<Rightarrow>
          if locked then None
          else Some (L_OK, r, s\<lparr>ls_lock_map := (ls_lock_map s)(lid \<mapsto> True)\<rparr>))"

definition release_lock :: "u32 \<Rightarrow> lockid_t \<Rightarrow> u32 \<Rightarrow> lock_server \<Rightarrow>
    lock_status \<times> u32 \<times> mutex_ev list \<times> lock_server" where
  "release_lock clt lid r s =
     (let (ret, evs) = (if ls_lock_map s lid = None then (L_IOERR, [M_lock, M_unlock]) else (L_OK, [M_lock]));
          s = s\<lparr>ls_lock_map := (ls_lock_map s)(lid \<mapsto> False)\<rparr>
      in (ret, r, evs @ [M_unlock], s))"

section \<open>Client\<close>

text \<open>\<open>call\<close> is the RPC: it maps procedure, client id and lock id to the return code and \<open>r\<close>.\<close>

definition lc_stat :: "(u32 \<Rightarrow> u32 \<Rightarrow> lockid_t \<Rightarrow> u32 \<times> u32) \<Rightarrow> u32 \<Rightarrow> lockid_t \<Rightarrow> u32 outcome" where
  "lc_stat call me lid = (let (ret, r) = call proc_stat me lid in VERIFY (ret = lock_status_code L_OK) (Returns r))"

definition lc_acquire :: "(u32 \<Rightarrow> u32 \<Rightarrow> lockid_t \<Rightarrow> u32 \<times> u32) \<Rightarrow> u32 \<Rightarrow> lockid_t \<Rightarrow> u32 outcome" where
  "lc_acquire call me lid = (let (ret, r) = call proc_acquire me lid in VERIFY (ret = lock_status_code L_OK) (Returns r))"

definition lc_release :: "(u32 \<Rightarrow> u32 \<Rightarrow> lockid_t \<Rightarrow> u32 \<times> u32) \<Rightarrow> u32 \<Rightarrow> lockid_t \<Rightarrow> u32 outcome" where
  "lc_release call me lid = (let (ret, r) = call proc_release me lid in VERIFY (ret = lock_status_code L_OK) (Returns r))"

section \<open>Server and clients\<close>

text \<open>\<open>lk_holds\<close>: which clients have got a lock and not released it. A client releases what it holds.\<close>

record ls_sys =
  lk_server :: lock_server
  lk_holds :: "(u32 \<times> lockid_t) set"

definition ls_init :: ls_sys where
  "ls_init = \<lparr>lk_server = lock_server_new, lk_holds = {}\<rparr>"

inductive ls_step :: "ls_sys \<Rightarrow> ls_sys \<Rightarrow> bool" where
  acquire: "acquire_lock c lid r (lk_server s) = Some (ret, r', srv) \<Longrightarrow>
    ls_step s \<lparr>lk_server = srv, lk_holds = insert (c, lid) (lk_holds s)\<rparr>"
| release: "(c, lid) \<in> lk_holds s \<Longrightarrow> release_lock c lid r (lk_server s) = (ret, r', evs, srv) \<Longrightarrow>
    ls_step s \<lparr>lk_server = srv, lk_holds = lk_holds s - {(c, lid)}\<rparr>"

definition ls_inv :: "ls_sys \<Rightarrow> bool" where
  "ls_inv s \<longleftrightarrow>
     (\<forall>lid. (ls_lock_map (lk_server s) lid = Some True) = (\<exists>c. (c, lid) \<in> lk_holds s))
   \<and> (\<forall>c d lid. (c, lid) \<in> lk_holds s \<longrightarrow> (d, lid) \<in> lk_holds s \<longrightarrow> c = d)"

section \<open>Lemmas\<close>

lemma acquire_lock_Some:
  assumes "acquire_lock c lid r s = Some (ret, r', t)"
  shows "ls_lock_map s lid \<noteq> Some True \<and> ls_lock_map t = (ls_lock_map s)(lid \<mapsto> True)"
  using assms by (auto simp: acquire_lock_def split: option.splits if_splits)

lemma release_lock_map:
  "release_lock c lid r s = (ret, r', evs, t) \<Longrightarrow> ls_lock_map t = (ls_lock_map s)(lid \<mapsto> False)"
  by (auto simp: release_lock_def Let_def split: if_splits)

interpretation ls: invariant_system "\<lambda>s. s = ls_init" ls_step ls_inv
proof
  fix s t
  assume inv: "ls_inv s" and "ls_step s t"
  from \<open>ls_step s t\<close> show "ls_inv t"
  proof (cases rule: ls_step.cases)
    case (acquire c lid r ret r' srv)
    then show ?thesis
      using inv acquire_lock_Some [of c lid r "lk_server s" ret r' srv]
      unfolding ls_inv_def by (auto split: if_splits)
  next
    case (release c lid r ret r' evs srv)
    then show ?thesis
      using inv release_lock_map [of c lid r "lk_server s" ret r' evs srv]
      unfolding ls_inv_def by (auto split: if_splits)
  qed
qed (simp add: ls_init_def ls_inv_def lock_server_new_def)

section \<open>Properties\<close>

text \<open>Mutual exclusion of the lock server: however acquires and releases of disciplined clients
  interleave, no two clients hold the same lock.\<close>

theorem lock_server_mutex:
  assumes "ls_step\<^sup>*\<^sup>* ls_init s" and "(c, lid) \<in> lk_holds s" and "(d, lid) \<in> lk_holds s"
  shows "c = d"
  using ls.inv_reachable [OF refl assms(1)] assms(2,3) unfolding ls_inv_def by blast

theorem lock_server_mutex_witness:
  "\<exists>s. ls_step\<^sup>*\<^sup>* ls_init s \<and> (7, 1) \<in> lk_holds s \<and> (\<forall>d. (d, 1) \<in> lk_holds s \<longrightarrow> 7 = d)"
proof -
  obtain srv where a: "acquire_lock 7 1 0 (lk_server ls_init) = Some (L_OK, 0, srv)"
    by (simp add: acquire_lock_def ls_init_def lock_server_new_def)
  let ?s = "\<lparr>lk_server = srv, lk_holds = insert (7, 1) (lk_holds ls_init)\<rparr>"
  have r: "ls_step\<^sup>*\<^sup>* ls_init ?s"
    using ls_step.acquire [OF a] by blast
  have h: "(7, 1) \<in> lk_holds ?s"
    by simp
  show ?thesis
    using r h lock_server_mutex [OF r h] by blast
qed

text \<open>Releasing a lock the server has never seen unlocks the server's mutex twice: the branch that
  reports \<open>IOERR\<close> unlocks it and goes on, without the mutex, to create the lock and unlock again.\<close>

theorem release_unknown_unlocks_twice:
  assumes "ls_lock_map s lid = None"
  shows "release_lock clt lid r s =
    (L_IOERR, r, [M_lock, M_unlock, M_unlock], s\<lparr>ls_lock_map := (ls_lock_map s)(lid \<mapsto> False)\<rparr>)"
  using assms by (simp add: release_lock_def)

theorem release_unknown_unlocks_twice_witness:
  "fst (snd (snd (release_lock 7 1 0 lock_server_new))) = [M_lock, M_unlock, M_unlock]"
  using release_unknown_unlocks_twice [of lock_server_new 1 7 0] by (simp add: lock_server_new_def)

end
