(* ===== verification/Lock_Cache.thy ===== *)
theory Lock_Cache
  imports Lock_Server "HOL-Library.Multiset"
begin

text \<open>
  The caching lock service: lock_server_cache.h/.cc and lock_client_cache.h/.cc.

  Every handler is split where it gives up its mutex to make an RPC. The server's parts are
  \<open>lsc_acquire\<close> (up to the revoke RPC, whose target \<open>lsc_revoke_target\<close> is read afterwards),
  \<open>lsc_release\<close> (up to the retry RPC) and \<open>lsc_release_end\<close>. The client's methods act on one
  \<open>ClientLock\<close>, as in the code; the flag they return says that a release RPC is sent.

  \<open>lc_step\<close> is one lock with its server, any number of clients with any number of threads each, and
  messages that travel independently; revoke and retry calls may come at any time. Its invariant
  says that there is one token per lock, which gives mutual exclusion.
\<close>

section \<open>Server\<close>

record cond_lock_cache =
  clk_locked :: bool
  clk_user :: string

definition cond_lock_new :: cond_lock_cache where
  "cond_lock_new = \<lparr>clk_locked = False, clk_user = []\<rparr>"

record lock_server_cache =
  lsc_nacquire :: u32
  lsc_map :: "lockid_t \<Rightarrow> cond_lock_cache option"
  lsc_retry :: "lockid_t \<Rightarrow> string list"

definition lock_server_cache_new :: lock_server_cache where
  "lock_server_cache_new = \<lparr>lsc_nacquire = 0, lsc_map = (\<lambda>_. None), lsc_retry = (\<lambda>_. [])\<rparr>"

definition lsc_item :: "lockid_t \<Rightarrow> lock_server_cache \<Rightarrow> cond_lock_cache" where
  "lsc_item lid s = (case lsc_map s lid of None \<Rightarrow> cond_lock_new | Some i \<Rightarrow> i)"

definition lsc_acquire :: "lockid_t \<Rightarrow> string \<Rightarrow> lock_server_cache \<Rightarrow> (acq_ret \<times> lock_server_cache) outcome" where
  "lsc_acquire lid cid s =
     (let item = lsc_item lid s
      in if \<not> clk_locked item then
           Returns (Acq_OK, s\<lparr>lsc_map := (lsc_map s)(lid \<mapsto> \<lparr>clk_locked = True, clk_user = cid\<rparr>)\<rparr>)
         else VERIFY (clk_user item \<noteq> [])
           (Returns (Acq_RETRY, s\<lparr>lsc_map := (lsc_map s)(lid \<mapsto> item),
                                  lsc_retry := (lsc_retry s)(lid := lsc_retry s lid @ [cid])\<rparr>)))"

definition lsc_revoke_target :: "lockid_t \<Rightarrow> lock_server_cache \<Rightarrow> string" where
  "lsc_revoke_target lid s = clk_user (lsc_item lid s)"

text \<open>The operations on \<open>m_lock_mutex_\<close> during \<open>acquire\<close>; the last one is the \<open>ScopeLock\<close>'s.\<close>

definition lsc_acquire_mutex :: "acq_ret \<Rightarrow> mutex_ev list" where
  "lsc_acquire_mutex ret = [M_lock] @ (if ret = Acq_RETRY then [M_unlock] else []) @ [M_unlock]"

text \<open>The client to which a retry RPC goes, if any.\<close>

definition lsc_release :: "lockid_t \<Rightarrow> string \<Rightarrow> lock_server_cache \<Rightarrow> string option \<times> lock_server_cache" where
  "lsc_release lid cid s =
     (let s = s\<lparr>lsc_map := (lsc_map s)(lid \<mapsto> (lsc_item lid s)\<lparr>clk_locked := False\<rparr>)\<rparr>
      in case lsc_retry s lid of
           [] \<Rightarrow> (None, s)
         | u # q \<Rightarrow> (Some u, s\<lparr>lsc_retry := (lsc_retry s)(lid := q)\<rparr>))"

text \<open>After the retry RPC: whether a revoke RPC goes to the same client.\<close>

definition lsc_release_end :: "lockid_t \<Rightarrow> lock_server_cache \<Rightarrow> bool" where
  "lsc_release_end lid s = (lsc_retry s lid \<noteq> [])"

definition lsc_stat :: "lockid_t \<Rightarrow> lock_server_cache \<Rightarrow> lock_status \<times> u32" where
  "lsc_stat lid s = (L_OK, lsc_nacquire s)"

section \<open>Client\<close>

record client_lock =
  ck_retried :: bool
  ck_revoked :: bool
  ck_finished :: bool
  ck_status :: lock_state

definition client_lock_new :: client_lock where
  "client_lock_new = \<lparr>ck_retried = False, ck_revoked = False, ck_finished = False, ck_status = NONE\<rparr>"

definition DealRelease :: "client_lock \<Rightarrow> client_lock \<times> bool" where
  "DealRelease k =
     (if ck_status k = NONE then (k, False)
      else if ck_revoked k then
        (k\<lparr>ck_status := NONE, ck_finished := False, ck_revoked := False\<rparr>, True)
      else (k\<lparr>ck_status := FREE, ck_finished := True\<rparr>, False))"

definition SendAcqToSvr_begin :: "client_lock \<Rightarrow> client_lock" where
  "SendAcqToSvr_begin k = k\<lparr>ck_retried := False\<rparr>"

definition SendAcqToSvr_end :: "u32 \<Rightarrow> client_lock \<Rightarrow> client_lock" where
  "SendAcqToSvr_end ret k = (if ret = 0 then k\<lparr>ck_status := FREE\<rparr> else k\<lparr>ck_status := ACQING\<rparr>)"

definition DealWithStatusFREE :: "client_lock \<Rightarrow> client_lock" where
  "DealWithStatusFREE k = k\<lparr>ck_finished := False, ck_status := LOCK\<rparr>"

text \<open>One turn of the loop of \<open>acquire\<close>: an acquire RPC, a wait on a condition variable, or the lock.\<close>

datatype acq_turn = Send | Wait_free | Wait_acq | Got client_lock

definition acquire_turn :: "client_lock \<Rightarrow> acq_turn outcome" where
  "acquire_turn k =
     (case ck_status k of
        NONE \<Rightarrow> Returns Send
      | FREE \<Rightarrow> Returns (Got (DealWithStatusFREE k))
      | LOCK \<Rightarrow> Returns Wait_free
      | ACQING \<Rightarrow> if ck_retried k then Returns Send else Returns Wait_acq
      | RELEASING \<Rightarrow> Aborts)"

definition revoke_handler :: "client_lock \<Rightarrow> client_lock \<times> bool" where
  "revoke_handler k =
     (let k = k\<lparr>ck_revoked := True\<rparr> in if ck_finished k then DealRelease k else (k, False))"

definition retry_handler :: "client_lock \<Rightarrow> client_lock" where
  "retry_handler k = k\<lparr>ck_retried := True\<rparr>"

section \<open>One lock, its server and its clients\<close>

text \<open>
  Messages in flight are multisets of the clients they come from or go to. \<open>lk_owners\<close> has the
  clients that got an OK and have not sent a release; \<open>lk_cs\<close> those with a thread between acquire
  and release.
\<close>

record lc_sys =
  lk_srv :: lock_server_cache
  lk_cl :: "string \<Rightarrow> client_lock"
  lk_acq :: "string multiset"
  lk_ok :: "string multiset"
  lk_rty :: "string multiset"
  lk_rel :: "string multiset"
  lk_owners :: "string set"
  lk_cs :: "string multiset"

definition lc_init :: lc_sys where
  "lc_init =
     \<lparr>lk_srv = lock_server_cache_new, lk_cl = (\<lambda>_. client_lock_new), lk_acq = {#}, lk_ok = {#}, lk_rty = {#},
      lk_rel = {#}, lk_owners = {}, lk_cs = {#}\<rparr>"

definition send_release :: "string \<Rightarrow> client_lock \<times> bool \<Rightarrow> lc_sys \<Rightarrow> lc_sys" where
  "send_release c kb s =
     (let s = s\<lparr>lk_cl := (lk_cl s)(c := fst kb)\<rparr>
      in if snd kb then s\<lparr>lk_rel := add_mset c (lk_rel s), lk_owners := lk_owners s - {c}\<rparr> else s)"

inductive lc_step :: "lockid_t \<Rightarrow> lc_sys \<Rightarrow> lc_sys \<Rightarrow> bool" for lid where
  send: "acquire_turn (lk_cl s c) = Returns Send \<Longrightarrow>
    lc_step lid s (s\<lparr>lk_cl := (lk_cl s)(c := SendAcqToSvr_begin (lk_cl s c)), lk_acq := add_mset c (lk_acq s)\<rparr>)"
| grant: "c \<in># lk_acq s \<Longrightarrow> lsc_acquire lid c (lk_srv s) = Returns (Acq_OK, srv) \<Longrightarrow>
    lc_step lid s (s\<lparr>lk_srv := srv, lk_acq := lk_acq s - {#c#}, lk_ok := add_mset c (lk_ok s)\<rparr>)"
| refuse: "c \<in># lk_acq s \<Longrightarrow> lsc_acquire lid c (lk_srv s) = Returns (Acq_RETRY, srv) \<Longrightarrow>
    lc_step lid s (s\<lparr>lk_srv := srv, lk_acq := lk_acq s - {#c#}, lk_rty := add_mset c (lk_rty s)\<rparr>)"
| got_ok: "c \<in># lk_ok s \<Longrightarrow>
    lc_step lid s (s\<lparr>lk_cl := (lk_cl s)(c := SendAcqToSvr_end 0 (lk_cl s c)), lk_ok := lk_ok s - {#c#},
                 lk_owners := insert c (lk_owners s)\<rparr>)"
| got_retry: "c \<in># lk_rty s \<Longrightarrow> ret \<noteq> 0 \<Longrightarrow>
    lc_step lid s (s\<lparr>lk_cl := (lk_cl s)(c := SendAcqToSvr_end ret (lk_cl s c)), lk_rty := lk_rty s - {#c#}\<rparr>)"
| use: "acquire_turn (lk_cl s c) = Returns (Got k) \<Longrightarrow>
    lc_step lid s (s\<lparr>lk_cl := (lk_cl s)(c := k), lk_cs := add_mset c (lk_cs s)\<rparr>)"
| leave: "c \<in># lk_cs s \<Longrightarrow>
    lc_step lid s ((send_release c (DealRelease (lk_cl s c)) s)\<lparr>lk_cs := lk_cs s - {#c#}\<rparr>)"
| revoke: "lc_step lid s (send_release c (revoke_handler (lk_cl s c)) s)"
| retry: "lc_step lid s (s\<lparr>lk_cl := (lk_cl s)(c := retry_handler (lk_cl s c))\<rparr>)"
| released: "c \<in># lk_rel s \<Longrightarrow> lsc_release lid c (lk_srv s) = (target, srv) \<Longrightarrow>
    lc_step lid s (s\<lparr>lk_srv := srv, lk_rel := lk_rel s - {#c#}\<rparr>)"

definition lc_locked :: "lockid_t \<Rightarrow> lc_sys \<Rightarrow> bool" where
  "lc_locked lid s = clk_locked (lsc_item lid (lk_srv s))"

text \<open>One token exactly while the server's flag is set: an OK in flight, an owner, or a release in flight.\<close>

definition lc_token :: "lockid_t \<Rightarrow> lc_sys \<Rightarrow> bool" where
  "lc_token lid s \<longleftrightarrow>
     (if lc_locked lid s
      then \<exists>c. (lk_ok s = {#c#} \<and> lk_owners s = {} \<and> lk_rel s = {#})
             \<or> (lk_ok s = {#} \<and> lk_owners s = {c} \<and> lk_rel s = {#})
             \<or> (lk_ok s = {#} \<and> lk_owners s = {} \<and> lk_rel s = {#c#})
      else lk_ok s = {#} \<and> lk_owners s = {} \<and> lk_rel s = {#})"

text \<open>What a client's lock record may say, given whether the client owns the lock and has a thread
  that uses it.\<close>

definition client_ok :: "bool \<Rightarrow> bool \<Rightarrow> client_lock \<Rightarrow> bool" where
  "client_ok own busy k \<longleftrightarrow> (ck_status k = FREE \<or> ck_status k = LOCK \<longrightarrow> own)
     \<and> (busy \<longrightarrow> own \<and> (ck_status k = LOCK \<or> ck_status k = ACQING))
     \<and> (ck_finished k \<longrightarrow> own \<and> \<not> busy)"

definition lc_local :: "lc_sys \<Rightarrow> bool" where
  "lc_local s \<longleftrightarrow> (\<forall>c. client_ok (c \<in> lk_owners s) (c \<in># lk_cs s) (lk_cl s c)) \<and> size (lk_cs s) \<le> 1"

definition lc_inv :: "lockid_t \<Rightarrow> lc_sys \<Rightarrow> bool" where
  "lc_inv lid s \<longleftrightarrow> lc_token lid s \<and> lc_local s"

section \<open>Lemmas\<close>

lemma lsc_item_upd [simp]:
  "lsc_item lid (s\<lparr>lsc_map := (lsc_map s)(lid \<mapsto> i)\<rparr>) = i"
  "lsc_item lid (s\<lparr>lsc_retry := q\<rparr>) = lsc_item lid s"
  by (simp_all add: lsc_item_def)

lemma lsc_acquire_OK:
  "lsc_acquire lid c s = Returns (Acq_OK, t) \<Longrightarrow> \<not> clk_locked (lsc_item lid s) \<and> clk_locked (lsc_item lid t)"
  by (auto simp: lsc_acquire_def Let_def split: if_splits)

lemma lsc_acquire_RETRY:
  "lsc_acquire lid c s = Returns (Acq_RETRY, t) \<Longrightarrow> clk_locked (lsc_item lid s) \<and> clk_locked (lsc_item lid t)"
  by (auto simp: lsc_acquire_def Let_def lsc_item_def split: if_splits)

lemma lsc_release_unlocks: "lsc_release lid c s = (u, t) \<Longrightarrow> \<not> clk_locked (lsc_item lid t)"
  by (auto simp: lsc_release_def Let_def split: list.splits)

lemma acquire_turn_Got: "acquire_turn k = Returns (Got k') \<Longrightarrow> ck_status k = FREE \<and> k' = DealWithStatusFREE k"
  by (auto simp: acquire_turn_def split: lock_state.splits if_splits)

lemma lc_token_cases:
  assumes "lc_token lid s"
  obtains (none) "\<not> lc_locked lid s" "lk_ok s = {#}" "lk_owners s = {}" "lk_rel s = {#}"
    | (ok) c where "lc_locked lid s" "lk_ok s = {#c#}" "lk_owners s = {}" "lk_rel s = {#}"
    | (owner) c where "lc_locked lid s" "lk_ok s = {#}" "lk_owners s = {c}" "lk_rel s = {#}"
    | (rel) c where "lc_locked lid s" "lk_ok s = {#}" "lk_owners s = {}" "lk_rel s = {#c#}"
  using assms unfolding lc_token_def by (cases "lc_locked lid s") metis+

lemma lc_token_owner:
  assumes "lc_token lid s" and "c \<in> lk_owners s"
  shows "lc_locked lid s \<and> lk_ok s = {#} \<and> lk_owners s = {c} \<and> lk_rel s = {#}"
  using assms(1) by (rule lc_token_cases) (use assms(2) in simp_all)

lemma lc_token_ok:
  assumes "lc_token lid s" and "c \<in># lk_ok s"
  shows "lc_locked lid s \<and> lk_ok s = {#c#} \<and> lk_owners s = {} \<and> lk_rel s = {#}"
  using assms(1) by (rule lc_token_cases) (use assms(2) in simp_all)

lemma lc_token_rel:
  assumes "lc_token lid s" and "c \<in># lk_rel s"
  shows "lc_locked lid s \<and> lk_ok s = {#} \<and> lk_owners s = {} \<and> lk_rel s = {#c#}"
  using assms(1) by (rule lc_token_cases) (use assms(2) in simp_all)

lemma lc_send_release_token:
  assumes "lc_token lid s" and "c \<in> lk_owners s"
  shows "lc_token lid (send_release c kb s)"
proof (cases "snd kb")
  case True
  then show ?thesis
    using lc_token_owner [OF assms] by (simp add: lc_token_def send_release_def lc_locked_def Let_def)
next
  case False
  then show ?thesis
    using assms(1) by (simp add: lc_token_def send_release_def lc_locked_def Let_def)
qed

lemma lc_send_release_none: "\<not> snd kb \<Longrightarrow> send_release c kb s = s\<lparr>lk_cl := (lk_cl s)(c := fst kb)\<rparr>"
  by (simp add: send_release_def)

lemma size_le_1: "size M \<le> Suc 0 \<Longrightarrow> c \<in># M \<Longrightarrow> M = {#c#}"
  by (auto dest!: multi_member_split)

lemma lc_one_owner: "lc_token lid s \<Longrightarrow> c \<in> lk_owners s \<Longrightarrow> d \<in> lk_owners s \<Longrightarrow> d = c"
  using lc_token_owner [of lid s c] by auto

text \<open>A step of client \<open>c\<close> that leaves the standing of the others alone.\<close>

lemma lc_local_upd:
  assumes "lc_local s" and "\<And>d. d \<noteq> c \<Longrightarrow> lk_cl t d = lk_cl s d" and "size (lk_cs t) \<le> 1"
    and "\<And>d. d \<noteq> c \<Longrightarrow> (d \<in> lk_owners t) = (d \<in> lk_owners s)"
    and "\<And>d. d \<noteq> c \<Longrightarrow> (d \<in># lk_cs t) = (d \<in># lk_cs s)"
    and "client_ok (c \<in> lk_owners t) (c \<in># lk_cs t) (lk_cl t c)"
  shows "lc_local t"
  unfolding lc_local_def
proof (intro conjI allI)
  fix d
  show "client_ok (d \<in> lk_owners t) (d \<in># lk_cs t) (lk_cl t d)"
    using assms by (cases "d = c") (simp_all add: lc_local_def)
qed (rule assms(3))

lemma lc_localD:
  assumes "lc_local s"
  shows "client_ok (c \<in> lk_owners s) (c \<in># lk_cs s) (lk_cl s c) \<and> size (lk_cs s) \<le> 1"
  using assms by (simp add: lc_local_def)

lemma lc_leave_inv:
  assumes tok: "lc_token lid s" and loc: "lc_local s" and c: "c \<in># lk_cs s"
  shows "lc_inv lid ((send_release c (DealRelease (lk_cl s c)) s)\<lparr>lk_cs := lk_cs s - {#c#}\<rparr>)"
    (is "lc_inv lid ?t")
proof -
  have cs: "lk_cs s = {#c#}"
    using lc_localD [OF loc] c by (auto intro: size_le_1)
  have k: "client_ok True True (lk_cl s c)" and own: "c \<in> lk_owners s"
    using lc_localD [OF loc, of c] c by (simp_all add: client_ok_def)
  have "lc_token lid ?t"
    using lc_send_release_token [OF tok own] by (simp add: lc_token_def lc_locked_def)
  moreover have "lc_local ?t"
    by (rule lc_local_upd [OF loc, of c])
      (use k own cs in \<open>auto simp: send_release_def DealRelease_def client_ok_def Let_def\<close>)
  ultimately show ?thesis
    by (simp add: lc_inv_def)
qed

lemma lc_revoke_inv:
  assumes tok: "lc_token lid s" and loc: "lc_local s"
  shows "lc_inv lid (send_release c (revoke_handler (lk_cl s c)) s)" (is "lc_inv lid ?t")
proof -
  note k = lc_localD [OF loc, of c]
  have "lc_local ?t"
    by (rule lc_local_upd [OF loc, of c])
      (use k in \<open>auto simp: send_release_def revoke_handler_def DealRelease_def client_ok_def Let_def\<close>)
  moreover have "lc_token lid ?t"
  proof (cases "snd (revoke_handler (lk_cl s c))")
    case True
    then have "c \<in> lk_owners s"
      using k by (auto simp: revoke_handler_def client_ok_def Let_def split: if_splits)
    then show ?thesis
      using lc_send_release_token [OF tok] by blast
  next
    case False
    then show ?thesis
      using tok by (simp add: lc_send_release_none lc_token_def lc_locked_def)
  qed
  ultimately show ?thesis
    by (simp add: lc_inv_def)
qed

lemma lc_token_same:
  assumes "lc_token lid s" and "lk_ok t = lk_ok s" and "lk_owners t = lk_owners s" and "lk_rel t = lk_rel s"
    and "lc_locked lid t = lc_locked lid s"
  shows "lc_token lid t"
  using assms by (simp add: lc_token_def)

lemma lc_step_inv:
  assumes "lc_inv lid s" and "lc_step lid s t"
  shows "lc_inv lid t"
proof -
  have tok: "lc_token lid s" and loc: "lc_local s"
    using assms(1) by (simp_all add: lc_inv_def)
  note upd = lc_local_upd [OF loc]
  note k = lc_localD [OF loc]
  from assms(2) show ?thesis
  proof (cases rule: lc_step.cases)
    case (send c)
    have "lc_local t"
      by (rule upd [of c]) (use k [of c] send(1) in \<open>auto simp: SendAcqToSvr_begin_def client_ok_def\<close>)
    then show ?thesis
      using lc_token_same [OF tok] send(1) by (simp add: lc_inv_def lc_locked_def)
  next
    case (grant c srv)
    have "\<not> lc_locked lid s" "lc_locked lid t"
      using lsc_acquire_OK [OF grant(3)] grant(1) by (simp_all add: lc_locked_def)
    then have "lc_token lid t"
      using tok grant(1) by (simp add: lc_token_def)
    then show ?thesis
      using loc grant(1) by (simp add: lc_inv_def lc_local_def)
  next
    case (refuse c srv)
    have "lc_token lid t"
      using lsc_acquire_RETRY [OF refuse(3)] refuse(1) by (intro lc_token_same [OF tok]) (simp_all add: lc_locked_def)
    then show ?thesis
      using loc refuse(1) by (simp add: lc_inv_def lc_local_def)
  next
    case (got_ok c)
    note o = lc_token_ok [OF tok got_ok(2)]
    have "lc_local t"
      by (rule upd [of c]) (use k [of c] o got_ok(1) in \<open>auto simp: SendAcqToSvr_end_def client_ok_def\<close>)
    moreover have "lc_token lid t"
      using o got_ok(1) by (simp add: lc_token_def lc_locked_def)
    ultimately show ?thesis
      by (simp add: lc_inv_def)
  next
    case (got_retry c ret)
    have "lc_local t"
      by (rule upd [of c]) (use k [of c] got_retry in \<open>auto simp: SendAcqToSvr_end_def client_ok_def\<close>)
    then show ?thesis
      using lc_token_same [OF tok] got_retry(1) by (simp add: lc_inv_def lc_locked_def)
  next
    case (use c k')
    have q: "ck_status (lk_cl s c) = FREE" "k' = DealWithStatusFREE (lk_cl s c)"
      using acquire_turn_Got [OF use(2)] by simp_all
    have own: "c \<in> lk_owners s"
      using k [of c] q(1) by (simp add: client_ok_def)
    have "d \<notin># lk_cs s" for d
      using k [of d] lc_one_owner [OF tok own, of d] q(1) by (auto simp: client_ok_def)
    then have e: "lk_cs s = {#}"
      using multiset_nonemptyE by blast
    have "lc_local t"
      by (rule upd [of c]) (use use(1) own q e in \<open>auto simp: DealWithStatusFREE_def client_ok_def\<close>)
    then show ?thesis
      using lc_token_same [OF tok] use(1) by (simp add: lc_inv_def lc_locked_def)
  next
    case (leave c)
    then show ?thesis
      using lc_leave_inv [OF tok loc] by simp
  next
    case (revoke c)
    then show ?thesis
      using lc_revoke_inv [OF tok loc] by simp
  next
    case (retry c)
    have "lc_local t"
      by (rule upd [of c]) (use k [of c] retry in \<open>auto simp: retry_handler_def client_ok_def\<close>)
    then show ?thesis
      using lc_token_same [OF tok] retry by (simp add: lc_inv_def lc_locked_def)
  next
    case (released c target srv)
    note r = lc_token_rel [OF tok released(2)]
    have "lc_token lid t"
      using r lsc_release_unlocks [OF released(3)] released(1) by (simp add: lc_token_def lc_locked_def)
    then show ?thesis
      using loc released(1) by (simp add: lc_inv_def lc_local_def)
  qed
qed

interpretation lc: invariant_system "\<lambda>s. s = lc_init" "lc_step lid" "lc_inv lid" for lid
proof
  fix s
  assume "s = lc_init"
  then show "lc_inv lid s"
    by (simp add: lc_init_def lc_inv_def lc_token_def lc_locked_def lc_local_def lsc_item_def client_ok_def
        lock_server_cache_new_def cond_lock_new_def client_lock_new_def)
qed (rule lc_step_inv)

section \<open>Properties\<close>



text \<open>\<open>lock_server_cache::acquire\<close> unlocks its mutex twice when the lock is taken: once by hand
  before the revoke RPC and once more by the \<open>ScopeLock\<close>, when another thread may hold it.\<close>

theorem cache_acquire_unlocks_twice:
  assumes "clk_locked (lsc_item lid s)" and "clk_user (lsc_item lid s) \<noteq> []"
  shows "\<exists>t. lsc_acquire lid c s = Returns (Acq_RETRY, t) \<and> lsc_retry t lid = lsc_retry s lid @ [c]
    \<and> lsc_acquire_mutex Acq_RETRY = [M_lock, M_unlock, M_unlock]"
  using assms by (simp add: lsc_acquire_def lsc_acquire_mutex_def)

theorem cache_acquire_unlocks_twice_witness:
  "\<exists>t. lsc_acquire 1 ''b'' (lock_server_cache_new\<lparr>lsc_map := [1 \<mapsto> \<lparr>clk_locked = True, clk_user = ''a''\<rparr>]\<rparr>) =
     Returns (Acq_RETRY, t) \<and> lsc_retry t 1 = [''b''] \<and> lsc_acquire_mutex Acq_RETRY = [M_lock, M_unlock, M_unlock]"
  using cache_acquire_unlocks_twice [of 1 "lock_server_cache_new\<lparr>lsc_map := [1 \<mapsto> \<lparr>clk_locked = True, clk_user = ''a''\<rparr>]\<rparr>" "''b''"]
  by (simp add: lock_server_cache_new_def lsc_item_def)

end
