(* ===== verification/Extent.thy ===== *)
theory Extent
  imports Rpc_Client
begin

text \<open>
  The extent service: the server (extent\_server.cc), the plain client (extent\_client.cc) and the
  write-back cache (extent\_client\_cache.cc) that a lock release flushes (lock\_client\_cache.h).

  \<^item> A status is the \<open>int\<close> the code passes around, because a client sees the codes of the server
    and the negative codes of the RPC library alike.
  \<^item> \<open>time(0)\<close>, the draws of \<open>rand()\<close> and the fate of an RPC are arguments. \<open>xcall\<close> is the contract
    of \<open>rpcc::call\<close>: the call is \<open>Delivered\<close>, or it fails before (\<open>Lost\<close>) or after (\<open>Late\<close>) the
    method has run. The server's result variable starts as an empty string or as an
    uninitialised \<open>attr\<close> (\<open>xe_junk\<close>), and is sent back even when the method fails.
  \<^item> The last part composes several caching clients with the server. Each extent has at most one
    owner, which is what the lock service guarantees; releasing a lock flushes its extent.
\<close>

section \<open>Protocol\<close>

definition ext_OK :: u32 where "ext_OK = 0"
definition ext_RPCERR :: u32 where "ext_RPCERR = 1"
definition ext_NOENT :: u32 where "ext_NOENT = 2"
definition ext_IOERR :: u32 where "ext_IOERR = 3"

record attr =
  at_atime :: u32
  at_mtime :: u32
  at_ctime :: u32
  at_size :: u32

definition attr_zero :: attr where
  "attr_zero = \<lparr>at_atime = 0, at_mtime = 0, at_ctime = 0, at_size = 0\<rparr>"

definition get_attr :: "unmarshall \<Rightarrow> attr \<times> unmarshall" where
  "get_attr u =
     (let (a, u) = get_uint u; (m, u) = get_uint u; (c, u) = get_uint u; (n, u) = get_uint u
      in (\<lparr>at_atime = a, at_mtime = m, at_ctime = c, at_size = n\<rparr>, u))"

definition put_attr :: "marshall \<Rightarrow> attr \<Rightarrow> marshall" where
  "put_attr m a = put_uint (put_uint (put_uint (put_uint m (at_atime a)) (at_mtime a)) (at_ctime a)) (at_size a)"

definition enc_attr :: "attr \<Rightarrow> string" where
  "enc_attr a = be32 (at_atime a) @ be32 (at_mtime a) @ be32 (at_ctime a) @ be32 (at_size a)"

type_synonym file_content = "attr \<times> string"

section \<open>Server\<close>

record extent_server =
  file_block :: "u64 \<rightharpoonup> file_content"

text \<open>\<open>file_block_[id]\<close>, which creates the entry that is not there.\<close>

definition es_item :: "u64 \<Rightarrow> extent_server \<Rightarrow> file_content" where
  "es_item eid s = (case file_block s eid of Some f \<Rightarrow> f | None \<Rightarrow> (attr_zero, []))"

definition es_put :: "u32 \<Rightarrow> u64 \<Rightarrow> string \<Rightarrow> u32 \<Rightarrow> extent_server \<Rightarrow> u32 \<times> u32 \<times> extent_server" where
  "es_put now eid buf r s =
     (let a = fst (es_item eid s);
          a = (if file_block s eid = None
               then a\<lparr>at_ctime := now, at_mtime := now, at_atime := now\<rparr>
               else a\<lparr>at_mtime := now, at_ctime := now\<rparr>);
          a = a\<lparr>at_size := of_nat (length buf)\<rparr>
      in (ext_OK, 0, s\<lparr>file_block := (file_block s)(eid \<mapsto> (a, buf))\<rparr>))"

definition es_get :: "u32 \<Rightarrow> u64 \<Rightarrow> string \<Rightarrow> extent_server \<Rightarrow> u32 \<times> string \<times> extent_server" where
  "es_get now eid buf s =
     (case file_block s eid of
        None \<Rightarrow> (ext_NOENT, buf, s)
      | Some (a, c) \<Rightarrow> (ext_OK, c, s\<lparr>file_block := (file_block s)(eid \<mapsto> (a\<lparr>at_atime := now\<rparr>, c))\<rparr>))"

definition es_getattr :: "u64 \<Rightarrow> attr \<Rightarrow> extent_server \<Rightarrow> u32 \<times> attr \<times> extent_server" where
  "es_getattr eid a s =
     (case file_block s eid of None \<Rightarrow> (ext_NOENT, a, s) | Some f \<Rightarrow> (ext_OK, fst f, s))"

definition es_remove :: "u64 \<Rightarrow> u32 \<Rightarrow> extent_server \<Rightarrow> u32 \<times> u32 \<times> extent_server" where
  "es_remove eid r s =
     (if file_block s eid = None then (ext_NOENT, 0, s)
      else (ext_OK, 0, s\<lparr>file_block := (file_block s)(eid := None)\<rparr>))"

definition extent_server_new :: "u32 \<Rightarrow> extent_server" where
  "extent_server_new now = snd (snd (es_put now 1 [] 0 \<lparr>file_block = Map.empty\<rparr>))"

text \<open>
  The loop of \<open>GetInodeNum\<close> on the draws of \<open>rand()\<close>; \<open>None\<close> when none of them ended it. The
  \<open>continue\<close> jumps to the loop condition, so inode 1 is rejected only while it exists.
\<close>

definition draw_ino :: "bool \<Rightarrow> u64 \<Rightarrow> u64" where
  "draw_ino is_file d =
     (let ino = d mod 0x80000000 in if ino = 1 then ino else if is_file then ino OR 0x80000000 else ino)"

fun inode_loop :: "u64 list \<Rightarrow> bool \<Rightarrow> extent_server \<Rightarrow> u64 option" where
  "inode_loop [] is_file s = None"
| "inode_loop (d # draws) is_file s =
     (let ino = draw_ino is_file d
      in if file_block s ino \<noteq> None then inode_loop draws is_file s else Some ino)"

definition GetInodeNum :: "u64 list \<Rightarrow> u32 \<Rightarrow> u64 \<Rightarrow> extent_server \<Rightarrow> (u32 \<times> u64) option" where
  "GetInodeNum draws is_file rino s = map_option (Pair ext_OK) (inode_loop draws (is_file \<noteq> 0) s)"

section \<open>Environment of a call\<close>

record xenv =
  xe_now :: u32
  xe_srv_now :: u32
  xe_net :: net
  xe_net2 :: net
  xe_junk :: attr

section \<open>Plain client\<close>

definition ec_get :: "xenv \<Rightarrow> u64 \<Rightarrow> string \<Rightarrow> extent_server \<Rightarrow> u32 \<times> string \<times> extent_server" where
  "ec_get e eid buf s = xcall (xe_net e) (es_get (xe_srv_now e) eid) [] buf s"

definition ec_getattr :: "xenv \<Rightarrow> u64 \<Rightarrow> attr \<Rightarrow> extent_server \<Rightarrow> u32 \<times> attr \<times> extent_server" where
  "ec_getattr e eid a s = xcall (xe_net e) (es_getattr eid) (xe_junk e) a s"

definition ec_put :: "xenv \<Rightarrow> u64 \<Rightarrow> string \<Rightarrow> extent_server \<Rightarrow> u32 \<times> extent_server" where
  "ec_put e eid buf s = (let (ret, _, s) = xcall (xe_net e) (es_put (xe_srv_now e) eid buf) 0 0 s in (ret, s))"

definition ec_remove :: "xenv \<Rightarrow> u64 \<Rightarrow> extent_server \<Rightarrow> u32 \<times> extent_server" where
  "ec_remove e eid s = (let (ret, _, s) = xcall (xe_net e) (es_remove eid) 0 0 s in (ret, s))"

definition ec_getinode :: "net \<Rightarrow> u64 list \<Rightarrow> u64 \<Rightarrow> u32 \<Rightarrow> extent_server \<Rightarrow> (u32 \<times> u64) option" where
  "ec_getinode nt draws ino is_file s =
     (case nt of Delivered \<Rightarrow> GetInodeNum draws is_file ino s | Lost e \<Rightarrow> Some (e, ino) | Late e \<Rightarrow> Some (e, ino))"

section \<open>Write-back cache\<close>

record file_data =
  fd_attr :: attr
  fd_content :: string
  fd_present :: bool
  fd_dirty :: bool

definition file_data_new :: file_data where
  "file_data_new = \<lparr>fd_attr = attr_zero, fd_content = [], fd_present = False, fd_dirty = False\<rparr>"

record extent_cache =
  ec_cache :: "u64 \<rightharpoonup> file_data"
  ec_srv :: extent_server

definition cc_item :: "u64 \<Rightarrow> extent_cache \<Rightarrow> file_data" where
  "cc_item eid s = (case ec_cache s eid of Some f \<Rightarrow> f | None \<Rightarrow> file_data_new)"

definition cc_set :: "u64 \<Rightarrow> file_data \<Rightarrow> extent_cache \<Rightarrow> extent_cache" where
  "cc_set eid f s = s\<lparr>ec_cache := (ec_cache s)(eid \<mapsto> f)\<rparr>"

definition cc_get :: "xenv \<Rightarrow> u64 \<Rightarrow> string \<Rightarrow> extent_cache \<Rightarrow> u32 \<times> string \<times> extent_cache" where
  "cc_get e eid buf s =
     (let f = cc_item eid s
      in if fd_present f
         then (ext_OK, fd_content f, cc_set eid (f\<lparr>fd_attr := (fd_attr f)\<lparr>at_atime := xe_now e\<rparr>\<rparr>) s)
         else (let (_, buf, srv) = xcall (xe_net e) (es_get (xe_srv_now e) eid) [] buf (ec_srv s);
                   (ret, a, srv) = xcall (xe_net2 e) (es_getattr eid) (xe_junk e) (fd_attr f) srv
               in (ret, buf, cc_set eid (f\<lparr>fd_attr := a, fd_content := buf, fd_present := True\<rparr>) (s\<lparr>ec_srv := srv\<rparr>))))"

definition cc_getattr :: "xenv \<Rightarrow> u64 \<Rightarrow> attr \<Rightarrow> extent_cache \<Rightarrow> u32 \<times> attr \<times> extent_cache" where
  "cc_getattr e eid a s =
     (let f = cc_item eid s; s = cc_set eid f s
      in if fd_present f then (ext_OK, fd_attr f, s)
         else (let (ret, a, srv) = xcall (xe_net e) (es_getattr eid) (xe_junk e) a (ec_srv s)
               in (ret, a, s\<lparr>ec_srv := srv\<rparr>)))"

definition cc_put :: "xenv \<Rightarrow> u64 \<Rightarrow> string \<Rightarrow> extent_cache \<Rightarrow> u32 \<times> extent_cache" where
  "cc_put e eid buf s =
     (let f = cc_item eid s; a = fd_attr f;
          a = (if ec_cache s eid = None then a\<lparr>at_atime := xe_now e\<rparr> else a);
          a = a\<lparr>at_mtime := xe_now e, at_ctime := xe_now e, at_size := of_nat (length buf)\<rparr>
      in (ext_OK, cc_set eid \<lparr>fd_attr = a, fd_content = buf, fd_present = True, fd_dirty = True\<rparr> s))"

definition cc_remove :: "xenv \<Rightarrow> u64 \<Rightarrow> extent_cache \<Rightarrow> u32 \<times> extent_cache" where
  "cc_remove e eid s =
     (if ec_cache s eid \<noteq> None then (ext_OK, s\<lparr>ec_cache := (ec_cache s)(eid := None)\<rparr>)
      else (let (ret, srv) = ec_remove e eid (ec_srv s) in (ret, s\<lparr>ec_srv := srv\<rparr>)))"

definition cc_flush :: "xenv \<Rightarrow> u64 \<Rightarrow> extent_cache \<Rightarrow> u32 \<times> extent_cache" where
  "cc_flush e eid s =
     (case ec_cache s eid of
        None \<Rightarrow> (let (ret, srv) = ec_remove e eid (ec_srv s) in (ret, s\<lparr>ec_srv := srv\<rparr>))
      | Some f \<Rightarrow>
          (let (ret, srv) = (if fd_dirty f then ec_put e eid (fd_content f) (ec_srv s) else (ext_OK, ec_srv s))
           in (ret, cc_set eid (f\<lparr>fd_dirty := False, fd_present := False\<rparr>) (s\<lparr>ec_srv := srv\<rparr>))))"

text \<open>\<open>lock_release_user_dev::dorelease\<close>, which the lock client calls before it gives a lock back.\<close>

definition dorelease :: "xenv \<Rightarrow> u64 \<Rightarrow> extent_cache \<Rightarrow> extent_cache" where
  "dorelease e lid s = snd (cc_flush e lid s)"

section \<open>Several clients\<close>

record ext_sys =
  xs_srv :: extent_server
  xs_cache :: "nat \<Rightarrow> u64 \<rightharpoonup> file_data"
  xs_owner :: "u64 \<rightharpoonup> nat"

datatype ext_op = X_acquire nat u64 | X_get nat u64 | X_getattr nat u64 | X_put nat u64 string | X_release nat u64

datatype ext_ans = A_none | A_data u32 string | A_size u32 u32 | A_status u32

definition xs_client :: "nat \<Rightarrow> ext_sys \<Rightarrow> extent_cache" where
  "xs_client c s = \<lparr>ec_cache = xs_cache s c, ec_srv = xs_srv s\<rparr>"

definition xs_back :: "nat \<Rightarrow> extent_cache \<Rightarrow> ext_sys \<Rightarrow> ext_sys" where
  "xs_back c k s = s\<lparr>xs_srv := ec_srv k, xs_cache := (xs_cache s)(c := ec_cache k)\<rparr>"

fun ext_exec :: "xenv \<times> ext_op \<Rightarrow> ext_sys \<Rightarrow> ext_ans \<times> ext_sys" where
  "ext_exec (e, X_acquire c eid) s = (A_none, s\<lparr>xs_owner := (xs_owner s)(eid \<mapsto> c)\<rparr>)"
| "ext_exec (e, X_get c eid) s =
     (let (ret, b, k) = cc_get e eid [] (xs_client c s) in (A_data ret b, xs_back c k s))"
| "ext_exec (e, X_getattr c eid) s =
     (let (ret, a, k) = cc_getattr e eid attr_zero (xs_client c s) in (A_size ret (at_size a), xs_back c k s))"
| "ext_exec (e, X_put c eid buf) s =
     (let (ret, k) = cc_put e eid buf (xs_client c s) in (A_status ret, xs_back c k s))"
| "ext_exec (e, X_release c eid) s =
     (A_none, (xs_back c (dorelease e eid (xs_client c s)) s)\<lparr>xs_owner := (xs_owner s)(eid := None)\<rparr>)"

fun xop_eid :: "ext_op \<Rightarrow> u64" where
  "xop_eid (X_acquire c eid) = eid"
| "xop_eid (X_get c eid) = eid"
| "xop_eid (X_getattr c eid) = eid"
| "xop_eid (X_put c eid b) = eid"
| "xop_eid (X_release c eid) = eid"

text \<open>The specification: one map from extents to contents, shared by all clients.\<close>

fun ext_spec :: "xenv \<times> ext_op \<Rightarrow> (u64 \<rightharpoonup> string) \<Rightarrow> ext_ans \<times> (u64 \<rightharpoonup> string)" where
  "ext_spec (e, X_acquire c eid) m = (A_none, m)"
| "ext_spec (e, X_get c eid) m = (A_data ext_OK (the (m eid)), m)"
| "ext_spec (e, X_getattr c eid) m = (A_size ext_OK (of_nat (length (the (m eid)))), m)"
| "ext_spec (e, X_put c eid buf) m = (A_status ext_OK, m(eid \<mapsto> buf))"
| "ext_spec (e, X_release c eid) m = (A_none, m)"

text \<open>
  The invariant and the abstraction of one extent, on its owner, its entry in every cache and
  its block at the server: a present entry belongs to the owner and, unless it is dirty, agrees
  with the server; the recorded sizes are the sizes of the contents.
\<close>

definition sized :: "attr \<Rightarrow> string \<Rightarrow> bool" where
  "sized a c = (at_size a = of_nat (length c))"

definition idle :: "file_data \<Rightarrow> bool" where
  "idle f = (\<not> fd_present f \<and> \<not> fd_dirty f)"

definition entry_ok :: "file_data \<Rightarrow> file_content option \<Rightarrow> bool" where
  "entry_ok f blk =
     (if fd_present f
      then sized (fd_attr f) (fd_content f) \<and> (fd_dirty f \<or> map_option snd blk = Some (fd_content f))
      else \<not> fd_dirty f)"

definition cell_ok :: "nat option \<Rightarrow> (nat \<Rightarrow> file_data option) \<Rightarrow> file_content option \<Rightarrow> bool" where
  "cell_ok own ca blk =
     (pred_option (\<lambda>(a, c). sized a c) blk
      \<and> (\<forall>d. own \<noteq> Some d \<longrightarrow> pred_option idle (ca d))
      \<and> (\<forall>c. own = Some c \<longrightarrow> pred_option (\<lambda>f. entry_ok f blk) (ca c)))"

definition entry_abs :: "file_data option \<Rightarrow> file_content option \<Rightarrow> string option" where
  "entry_abs f blk = (case f of
     Some f \<Rightarrow> if fd_present f then Some (fd_content f) else map_option snd blk
   | None \<Rightarrow> map_option snd blk)"

definition cell_abs :: "nat option \<Rightarrow> (nat \<Rightarrow> file_data option) \<Rightarrow> file_content option \<Rightarrow> string option" where
  "cell_abs own ca blk = (case own of Some c \<Rightarrow> entry_abs (ca c) blk | None \<Rightarrow> map_option snd blk)"

definition xs_abs :: "ext_sys \<Rightarrow> u64 \<rightharpoonup> string" where
  "xs_abs s eid = cell_abs (xs_owner s eid) (\<lambda>c. xs_cache s c eid) (file_block (xs_srv s) eid)"

definition xs_inv :: "ext_sys \<Rightarrow> bool" where
  "xs_inv s = (\<forall>eid. cell_ok (xs_owner s eid) (\<lambda>c. xs_cache s c eid) (file_block (xs_srv s) eid))"

text \<open>
  What a client must respect: an extent is accessed by its owner only, it exists when it is read,
  and it was accessed before its lock is released. The calls are delivered.
\<close>

fun ext_allowed :: "xenv \<times> ext_op \<Rightarrow> ext_sys \<Rightarrow> bool" where
  "ext_allowed (e, X_acquire c eid) s = (xs_owner s eid = None)"
| "ext_allowed (e, X_get c eid) s =
     (xs_owner s eid = Some c \<and> xs_abs s eid \<noteq> None \<and> xe_net e = Delivered \<and> xe_net2 e = Delivered)"
| "ext_allowed (e, X_getattr c eid) s =
     (xs_owner s eid = Some c \<and> xs_abs s eid \<noteq> None \<and> xe_net e = Delivered)"
| "ext_allowed (e, X_put c eid buf) s = (xs_owner s eid = Some c)"
| "ext_allowed (e, X_release c eid) s =
     (xs_owner s eid = Some c \<and> xs_cache s c eid \<noteq> None \<and> xe_net e = Delivered)"

definition ext_sys_new :: "u32 \<Rightarrow> ext_sys" where
  "ext_sys_new now = \<lparr>xs_srv = extent_server_new now, xs_cache = (\<lambda>_. Map.empty), xs_owner = Map.empty\<rparr>"

definition calm :: xenv where
  "calm = \<lparr>xe_now = 7, xe_srv_now = 8, xe_net = Delivered, xe_net2 = Delivered, xe_junk = attr_zero\<rparr>"

definition example_xops :: "(xenv \<times> ext_op) list" where
  "example_xops = map (Pair calm)
     [X_acquire 1 1, X_put 1 1 ''abc'', X_get 1 1, X_release 1 1, X_acquire 2 1, X_get 2 1, X_getattr 2 1]"

section \<open>Wire format of attributes\<close>

interpretation attr_c: codec put_attr get_attr enc_attr
  by (rule codec_structI [OF codec_pairI [OF uint_c.codec_axioms codec_pairI
        [OF uint_c.codec_axioms uint_pair.pair_codec]],
      where tup = "\<lambda>a. (at_atime a, at_mtime a, at_ctime a, at_size a)"
        and of_tup = "\<lambda>(a, m, c, n). \<lparr>at_atime = a, at_mtime = m, at_ctime = c, at_size = n\<rparr>"])
    (simp_all add: put_attr_def get_attr_def enc_attr_def put_pair_def get_pair_def split_beta Let_def)

section \<open>Server\<close>

lemma es_get_put:
  "es_get n eid b (snd (snd (es_put now eid buf r s))) =
     (ext_OK, buf, (snd (snd (es_put now eid buf r s)))
        \<lparr>file_block := (file_block s)(eid \<mapsto> ((fst (the (file_block (snd (snd (es_put now eid buf r s))) eid)))\<lparr>at_atime := n\<rparr>, buf))\<rparr>)"
  by (simp add: es_get_def es_put_def Let_def)

lemma inode_loop_Some:
  "inode_loop draws b s = Some ino \<Longrightarrow> file_block s ino = None \<and> (\<exists>d \<in> set draws. ino = draw_ino b d)"
  by (induction draws b s rule: inode_loop.induct) (auto simp: Let_def simp del: not_None_eq split: if_splits)

lemma inode_loop_ends:
  "d \<in> set draws \<Longrightarrow> file_block s (draw_ino b d) = None \<Longrightarrow> inode_loop draws b s \<noteq> None"
  by (induction draws b s rule: inode_loop.induct) (auto simp: Let_def)

lemma draw_ino_kind: "draw_ino b d \<noteq> 1 \<Longrightarrow> (draw_ino b d AND 0x80000000 \<noteq> 0) = b"
  using mod_bit31 [of d]
  by (cases "d mod 0x80000000 = 1"; cases b)
    (auto simp only: and_bit31 draw_ino_def Let_def bit_or_iff bit_0x80000000 if_True if_False simp_thms)

section \<open>Cache\<close>

lemma cc_set_sel [simp]:
  "ec_cache (cc_set eid f s) = (ec_cache s)(eid \<mapsto> f)" "ec_srv (cc_set eid f s) = ec_srv s"
  by (simp_all add: cc_set_def)

lemma xs_sel [simp]:
  "ec_cache (xs_client c s) = xs_cache s c" "ec_srv (xs_client c s) = xs_srv s"
  "xs_srv (xs_back c k s) = ec_srv k" "xs_cache (xs_back c k s) = (xs_cache s)(c := ec_cache k)"
  "xs_owner (xs_back c k s) = xs_owner s"
  by (simp_all add: xs_client_def xs_back_def)

lemma cc_get_present:
  "ec_cache k eid = Some f \<Longrightarrow> fd_present f \<Longrightarrow>
   cc_get e eid b k = (ext_OK, fd_content f, cc_set eid (f\<lparr>fd_attr := (fd_attr f)\<lparr>at_atime := xe_now e\<rparr>\<rparr>) k)"
  by (simp add: cc_get_def cc_item_def)

lemma cc_get_absent:
  assumes "\<not> fd_present (cc_item eid k)" and "file_block (ec_srv k) eid = Some (a, c)"
    and "xe_net e = Delivered" and "xe_net2 e = Delivered"
  shows "cc_get e eid b k = (ext_OK, c,
      cc_set eid ((cc_item eid k)\<lparr>fd_attr := a\<lparr>at_atime := xe_srv_now e\<rparr>, fd_content := c, fd_present := True\<rparr>)
        (k\<lparr>ec_srv := (ec_srv k)\<lparr>file_block := (file_block (ec_srv k))(eid \<mapsto> (a\<lparr>at_atime := xe_srv_now e\<rparr>, c))\<rparr>\<rparr>))"
  using assms by (simp add: cc_get_def es_get_def es_getattr_def Let_def)

lemma es_frame [simp]:
  "eid' \<noteq> eid \<Longrightarrow> file_block (snd (snd (es_put now eid buf r s))) eid' = file_block s eid'"
  "eid' \<noteq> eid \<Longrightarrow> file_block (snd (snd (es_get now eid b s))) eid' = file_block s eid'"
  "eid' \<noteq> eid \<Longrightarrow> file_block (snd (snd (es_getattr eid a s))) eid' = file_block s eid'"
  "eid' \<noteq> eid \<Longrightarrow> file_block (snd (snd (es_remove eid r s))) eid' = file_block s eid'"
  by (simp_all add: es_put_def es_get_def es_getattr_def es_remove_def Let_def split: option.splits)

lemma xcall_frame:
  "(\<And>r. file_block (snd (snd (meth r s))) x = file_block s x) \<Longrightarrow>
   file_block (snd (snd (xcall n meth r0 r s))) x = file_block s x"
  by (cases n) auto

lemma cc_frame:
  assumes "eid' \<noteq> eid"
  shows "file_block (ec_srv (snd (snd (cc_get e eid b k)))) eid' = file_block (ec_srv k) eid'"
    and "file_block (ec_srv (snd (snd (cc_getattr e eid a k)))) eid' = file_block (ec_srv k) eid'"
    and "file_block (ec_srv (snd (cc_put e eid buf k))) eid' = file_block (ec_srv k) eid'"
    and "file_block (ec_srv (snd (cc_flush e eid k))) eid' = file_block (ec_srv k) eid'"
    and "file_block (ec_srv (snd (cc_remove e eid k))) eid' = file_block (ec_srv k) eid'"
    and "ec_cache (snd (snd (cc_get e eid b k))) eid' = ec_cache k eid'"
    and "ec_cache (snd (snd (cc_getattr e eid a k))) eid' = ec_cache k eid'"
    and "ec_cache (snd (cc_put e eid buf k)) eid' = ec_cache k eid'"
    and "ec_cache (snd (cc_flush e eid k)) eid' = ec_cache k eid'"
    and "ec_cache (snd (cc_remove e eid k)) eid' = ec_cache k eid'"
  using assms
  by (simp_all add: cc_get_def cc_getattr_def cc_put_def cc_flush_def cc_remove_def ec_put_def ec_remove_def
      Let_def split_beta xcall_frame split: option.splits)

lemma ext_exec_other:
  assumes "eid \<noteq> xop_eid x"
  shows "xs_owner (snd (ext_exec (e, x) s)) eid = xs_owner s eid"
    and "xs_cache (snd (ext_exec (e, x) s)) c eid = xs_cache s c eid"
    and "file_block (xs_srv (snd (ext_exec (e, x) s))) eid = file_block (xs_srv s) eid"
  using assms by (cases x; simp add: split_beta dorelease_def cc_frame)+

text \<open>The extent an operation is about: its answer, invariant and content afterwards.\<close>

lemmas cell_defs = cell_ok_def cell_abs_def entry_ok_def entry_abs_def sized_def

lemma cell_get:
  assumes "xs_owner s eid = Some c" and "cell_ok (Some c) (\<lambda>c. xs_cache s c eid) (file_block (xs_srv s) eid)"
    and "xs_abs s eid = Some d" and "xe_net e = Delivered" and "xe_net2 e = Delivered"
    and "ext_exec (e, X_get c eid) s = (ans, t)"
  shows "ans = A_data ext_OK d \<and> cell_ok (Some c) (\<lambda>c. xs_cache t c eid) (file_block (xs_srv t) eid) \<and> xs_abs t eid = Some d"
proof (cases "fd_present (cc_item eid (xs_client c s))")
  case True
  then obtain f where "xs_cache s c eid = Some f" "fd_present f"
    by (auto simp: cc_item_def file_data_new_def split: option.splits)
  then show ?thesis
    using assms by (auto simp: cc_get_present xs_abs_def cell_defs split: if_splits)
next
  case False
  then obtain a where "file_block (xs_srv s) eid = Some (a, d)"
    using assms(1,3) by (auto simp: xs_abs_def cell_defs cc_item_def split: option.splits if_splits)
  then show ?thesis
    using assms False by (auto simp: cc_get_absent xs_abs_def cell_defs cc_item_def file_data_new_def split: option.splits)
qed

lemma cell_getattr:
  assumes "xs_owner s eid = Some c" and "cell_ok (Some c) (\<lambda>c. xs_cache s c eid) (file_block (xs_srv s) eid)"
    and "xs_abs s eid = Some d" and "xe_net e = Delivered"
    and "ext_exec (e, X_getattr c eid) s = (ans, t)"
  shows "ans = A_size ext_OK (of_nat (length d)) \<and> cell_ok (Some c) (\<lambda>c. xs_cache t c eid) (file_block (xs_srv t) eid) \<and> xs_abs t eid = Some d"
  using assms
  by (auto simp: cc_getattr_def es_getattr_def cc_item_def file_data_new_def xs_abs_def cell_defs Let_def
      split: option.splits if_splits)

lemma cell_put:
  assumes "xs_owner s eid = Some c" and "cell_ok (Some c) (\<lambda>c. xs_cache s c eid) (file_block (xs_srv s) eid)"
    and "ext_exec (e, X_put c eid buf) s = (ans, t)"
  shows "ans = A_status ext_OK \<and> cell_ok (Some c) (\<lambda>c. xs_cache t c eid) (file_block (xs_srv t) eid) \<and> xs_abs t eid = Some buf"
  using assms by (auto simp: cc_put_def xs_abs_def cell_defs Let_def)

lemma cell_release:
  assumes "xs_owner s eid = Some c" and "cell_ok (Some c) (\<lambda>c. xs_cache s c eid) (file_block (xs_srv s) eid)"
    and "xs_cache s c eid = Some f" and "xe_net e = Delivered"
    and "ext_exec (e, X_release c eid) s = (ans, t)"
  shows "ans = A_none \<and> cell_ok None (\<lambda>c. xs_cache t c eid) (file_block (xs_srv t) eid) \<and> xs_abs t eid = xs_abs s eid"
  using assms
  by (auto simp: dorelease_def cc_flush_def ec_put_def es_put_def xs_abs_def cell_defs idle_def Let_def split: if_splits)

lemma cell_acquire:
  assumes "xs_owner s eid = None" and "cell_ok None (\<lambda>c. xs_cache s c eid) (file_block (xs_srv s) eid)"
    and "ext_exec (e, X_acquire c eid) s = (ans, t)"
  shows "ans = A_none \<and> cell_ok (Some c) (\<lambda>c. xs_cache t c eid) (file_block (xs_srv t) eid) \<and> xs_abs t eid = xs_abs s eid"
proof -
  have "pred_option idle (xs_cache s d eid)" for d
    using assms(2) by (simp add: cell_ok_def)
  then show ?thesis
    using assms
    by (auto simp: xs_abs_def cell_defs idle_def pred_option_def split: option.splits)
qed

lemma ext_exec_own:
  assumes "xs_inv s" and "ext_allowed (e, x) s" and "ext_exec (e, x) s = (ans, t)"
  shows "cell_ok (xs_owner t (xop_eid x)) (\<lambda>c. xs_cache t c (xop_eid x)) (file_block (xs_srv t) (xop_eid x))
    \<and> fst (ext_spec (e, x) (xs_abs s)) = ans \<and> snd (ext_spec (e, x) (xs_abs s)) (xop_eid x) = xs_abs t (xop_eid x)"
proof (cases x)
  case (X_acquire c eid)
  then show ?thesis
    using assms cell_acquire [of s eid e c ans t] by (fastforce simp: xs_inv_def dest: spec [of _ eid])
next
  case (X_get c eid)
  then show ?thesis
    using assms cell_get [of s eid c _ e ans t] by (auto simp: xs_inv_def split_beta dest: spec [of _ eid])
next
  case (X_getattr c eid)
  then show ?thesis
    using assms cell_getattr [of s eid c _ e ans t] by (auto simp: xs_inv_def split_beta dest: spec [of _ eid])
next
  case (X_put c eid buf)
  then show ?thesis
    using assms cell_put [of s eid c e buf ans t] by (auto simp: xs_inv_def split_beta dest: spec [of _ eid])
next
  case (X_release c eid)
  then show ?thesis
    using assms cell_release [of s eid c _ e ans t] by (fastforce simp: xs_inv_def dest: spec [of _ eid])
qed

lemma ext_spec_other: "eid \<noteq> xop_eid x \<Longrightarrow> snd (ext_spec (e, x) m) eid = m eid"
  by (cases x) auto

interpretation ext: data_refinement xs_inv ext_allowed ext_exec xs_abs ext_spec
proof
  fix s and ex :: "xenv \<times> ext_op"
  obtain e x ans t where ex: "ex = (e, x)" and t: "ext_exec (e, x) s = (ans, t)"
    by (metis surj_pair)
  assume inv: "xs_inv s" and ok: "ext_allowed ex s"
  note own = ext_exec_own [OF inv ok [unfolded ex] t]
  note other = ext_exec_other [where e = e and x = x and s = s, unfolded t, simplified]
  show "xs_inv (snd (ext_exec ex s))"
    unfolding xs_inv_def
  proof
    fix eid
    show "cell_ok (xs_owner (snd (ext_exec ex s)) eid) (\<lambda>c. xs_cache (snd (ext_exec ex s)) c eid)
        (file_block (xs_srv (snd (ext_exec ex s))) eid)"
      using own other [of eid] inv by (cases "eid = xop_eid x") (simp_all add: ex t xs_inv_def)
  qed
  have "snd (ext_spec ex (xs_abs s)) eid = xs_abs t eid" for eid
    using own other [of eid] by (cases "eid = xop_eid x") (simp_all add: ex ext_spec_other xs_abs_def)
  then show "ext_spec ex (xs_abs s) = apsnd xs_abs (ext_exec ex s)"
    using own by (simp add: ex t prod_eq_iff fun_eq_iff)
qed

lemma xs_inv_new: "xs_inv (ext_sys_new now)"
  by (auto simp: xs_inv_def ext_sys_new_def extent_server_new_def es_put_def cell_defs Let_def)

lemma xs_abs_new: "xs_abs (ext_sys_new now) = [1 \<mapsto> []]"
  by (auto simp: xs_abs_def ext_sys_new_def extent_server_new_def es_put_def cell_defs Let_def fun_eq_iff)

section \<open>Properties\<close>



text \<open>A new inode number is fresh and of the requested kind: while the root directory exists,
  \<open>GetInodeNum\<close> returns only numbers that no extent has, other than 1, with bit 31 set exactly for
  files; and it does return as soon as one of the draws is fresh.\<close>

theorem get_inode_fresh:
  assumes "file_block s 1 \<noteq> None"
  shows "(\<forall>ret ino. GetInodeNum draws is_file rino s = Some (ret, ino) \<longrightarrow> ret = ext_OK \<and> file_block s ino = None
      \<and> ino \<noteq> 1 \<and> (ino AND 0x80000000 \<noteq> 0 \<longleftrightarrow> is_file \<noteq> 0))
    \<and> ((\<exists>d \<in> set draws. file_block s (draw_ino (is_file \<noteq> 0) d) = None) \<longrightarrow> GetInodeNum draws is_file rino s \<noteq> None)"
proof (intro conjI allI impI)
  fix ret ino
  assume "GetInodeNum draws is_file rino s = Some (ret, ino)"
  then have r: "inode_loop draws (is_file \<noteq> 0) s = Some ino" and ok: "ret = ext_OK"
    by (auto simp: GetInodeNum_def)
  obtain d where d: "file_block s ino = None" "ino = draw_ino (is_file \<noteq> 0) d"
    using inode_loop_Some [OF r] by blast
  then have n: "ino \<noteq> 1"
    using assms by auto
  then show "ret = ext_OK" "file_block s ino = None" "ino \<noteq> 1" "(ino AND 0x80000000 \<noteq> 0) = (is_file \<noteq> 0)"
    using ok d draw_ino_kind by blast+
next
  assume "\<exists>d \<in> set draws. file_block s (draw_ino (is_file \<noteq> 0) d) = None"
  then show "GetInodeNum draws is_file rino s \<noteq> None"
    using inode_loop_ends by (auto simp: GetInodeNum_def)
qed

theorem get_inode_fresh_witness:
  "\<exists>ret ino. GetInodeNum [1, 5] 0 0 (extent_server_new 9) = Some (ret, ino) \<and> ino \<noteq> 1 \<and> \<not> ino AND 0x80000000 \<noteq> 0"
proof -
  have r: "file_block (extent_server_new 9) 1 \<noteq> None" "file_block (extent_server_new 9) (draw_ino False 5) = None"
    by (simp_all add: extent_server_new_def es_put_def draw_ino_def Let_def)
  then obtain p where "GetInodeNum [1, 5] 0 0 (extent_server_new 9) = Some p"
    using get_inode_fresh [OF r(1), of "[1, 5]" 0 0] by auto
  then show ?thesis
    using get_inode_fresh [OF r(1), of "[1, 5]" 0 0] by (cases p) auto
qed

text \<open>A file that was removed comes back: removing a cached extent only drops the cache entry, and
  leaves it to the flush to remove it at the server. Any getattr in between creates the entry
  again, so that the flush finds nothing to do and the extent survives with its old content.\<close>

theorem removed_extent_survives:
  assumes "ec_cache k eid = Some f" and "file_block (ec_srv k) eid = Some (a, c)"
    and "cc_remove e1 eid k = (r1, k1)" and "cc_getattr e2 eid a0 k1 = (r2, a2, k2)" and "cc_flush e3 eid k2 = (r3, k3)"
  shows "r1 = ext_OK \<and> r3 = ext_OK \<and> file_block (ec_srv k3) eid = Some (a, c)"
proof -
  have k1: "r1 = ext_OK" "k1 = k\<lparr>ec_cache := (ec_cache k)(eid := None)\<rparr>"
    using assms(1,3) by (simp_all add: cc_remove_def)
  have "snd (snd (xcall n (es_getattr eid) j a0 s)) = s" for n j s
    by (cases n) (auto simp: es_getattr_def split: option.splits)
  then have "ec_srv k2 = ec_srv k \<and> ec_cache k2 eid = Some file_data_new"
    using assms(4) k1 by (auto simp: cc_getattr_def cc_item_def file_data_new_def Let_def split_beta)
  then show ?thesis
    using assms(2,5) k1 by (auto simp: cc_flush_def file_data_new_def)
qed

theorem removed_extent_survives_witness:
  "\<exists>k1 a2 k2 k3. cc_remove calm 1 \<lparr>ec_cache = [1 \<mapsto> file_data_new], ec_srv = extent_server_new 5\<rparr> = (ext_OK, k1)
     \<and> cc_getattr calm 1 attr_zero k1 = (ext_OK, a2, k2) \<and> cc_flush calm 1 k2 = (ext_OK, k3)
     \<and> file_block (ec_srv k3) 1 \<noteq> None"
proof -
  let ?k = "\<lparr>ec_cache = [1 \<mapsto> file_data_new], ec_srv = extent_server_new 5\<rparr>"
  obtain a c where f: "file_block (ec_srv ?k) 1 = Some (a, c)"
    by (simp add: extent_server_new_def es_put_def Let_def)
  obtain r1 k1 r2 a2 k2 r3 k3 where r: "cc_remove calm 1 ?k = (r1, k1)" "cc_getattr calm 1 attr_zero k1 = (r2, a2, k2)"
    "cc_flush calm 1 k2 = (r3, k3)"
    by (metis surj_pair)
  then have "r2 = ext_OK"
    using f by (auto simp: cc_remove_def cc_getattr_def cc_item_def file_data_new_def calm_def es_getattr_def Let_def)
  then show ?thesis
    using removed_extent_survives [OF _ f r] r by auto
qed

text \<open>Releasing a lock whose extent was never accessed destroys it: the flush takes the missing cache
  entry for a pending removal, and removes the extent at the server.\<close>

theorem untouched_release_destroys:
  assumes "ec_cache k eid = None" and "xe_net e = Delivered"
  shows "file_block (ec_srv (dorelease e eid k)) eid = None"
  using assms by (simp add: dorelease_def cc_flush_def ec_remove_def es_remove_def)

theorem untouched_release_destroys_witness:
  "file_block (extent_server_new 5) 1 \<noteq> None \<and>
   file_block (ec_srv (dorelease calm 1 \<lparr>ec_cache = Map.empty, ec_srv = extent_server_new 5\<rparr>)) 1 = None"
  using untouched_release_destroys [of "\<lparr>ec_cache = Map.empty, ec_srv = extent_server_new 5\<rparr>" 1 calm]
  by (simp add: calm_def extent_server_new_def es_put_def Let_def)

end
