(* ===== verification/Dirform.thy ===== *)
theory Dirform
  imports Prelude
begin

text \<open>
  The on-disk data of the file system (yfs\_client.cc): the directory format \<open>DirForm\<close> and the
  inode bitmaps.

  \<^item> A directory is a string: a count of four bytes, then for each entry a name of exactly
    \<open>MAX_ITEM_NAME_LEN\<close> bytes and an inode number of eight bytes, in the byte order of the host
    (little endian). The parser reads through a raw pointer: \<open>mem_of\<close> is the memory it sees, the
    string, its terminating NUL and then whatever follows, an argument of the model.
  \<^item> A bitmap is a list of 64-bit words; a section number outside the array is undefined behaviour
    (\<open>Aborts\<close>).
\<close>

section \<open>Directories\<close>

definition MAX_ITEM_NAME_LEN :: nat where "MAX_ITEM_NAME_LEN = 1024"

type_synonym dir_map = "(string, u64) omap"

record dir_form =
  dir_block :: dir_map
  dir_item_num :: u32

definition dir_form_new :: dir_form where
  "dir_form_new = \<lparr>dir_block = [], dir_item_num = 0\<rparr>"

fun le_bytes :: "nat \<Rightarrow> u64 \<Rightarrow> string" where
  "le_bytes 0 w = []"
| "le_bytes (Suc n) w = char_of_byte (ucast w) # le_bytes n (drop_bit 8 w)"

fun le_val :: "string \<Rightarrow> u64" where
  "le_val [] = 0"
| "le_val (c # cs) = ucast (byte_of_char c) OR push_bit 8 (le_val cs)"

definition mem_of :: "string \<Rightarrow> (nat \<Rightarrow> char) \<Rightarrow> nat \<Rightarrow> char" where
  "mem_of data junk i = (if i < length data then data ! i else if i = length data then NUL else junk i)"

definition rd_bytes :: "(nat \<Rightarrow> char) \<Rightarrow> nat \<Rightarrow> nat \<Rightarrow> string" where
  "rd_bytes mem pos n = map mem [pos..<pos + n]"

text \<open>\<open>sizeof(uint64_t)\<close> and \<open>sizeof(int)\<close> are 8 and 4.\<close>

function dir_loop :: "(nat \<Rightarrow> char) \<Rightarrow> nat \<Rightarrow> int \<Rightarrow> int \<Rightarrow> nat \<Rightarrow> dir_map \<Rightarrow> dir_map" where
  "dir_loop mem sz n i pos d =
     (if i < n \<and> pos < sz
      then dir_loop mem sz n (i + 1) (pos + MAX_ITEM_NAME_LEN + 8)
             (om_insert (rd_bytes mem pos MAX_ITEM_NAME_LEN) (le_val (rd_bytes mem (pos + MAX_ITEM_NAME_LEN) 8)) d)
      else d)"
  by pat_completeness auto
termination
  by (relation "measure (\<lambda>(mem, sz, n, i, pos, d). sz - pos)") auto

definition StringToDirForm :: "(nat \<Rightarrow> char) \<Rightarrow> string \<Rightarrow> dir_form \<Rightarrow> dir_form" where
  "StringToDirForm junk data d =
     (let mem = mem_of data junk; n = ucast (le_val (rd_bytes mem 0 4)) :: u32
      in \<lparr>dir_block = dir_loop mem (length data) (sint n) 0 4 (dir_block d), dir_item_num = n\<rparr>)"

definition dir_item :: "string \<times> u64 \<Rightarrow> string" where
  "dir_item e = str_resize MAX_ITEM_NAME_LEN (fst e) @ le_bytes 8 (snd e)"

definition DirFormToString :: "dir_form \<Rightarrow> string \<times> dir_form" where
  "DirFormToString d =
     (let d = d\<lparr>dir_item_num := of_nat (length (dir_block d))\<rparr>
      in (le_bytes 4 (ucast (dir_item_num d)) @ concat (map dir_item (dir_block d)), d))"

definition names_ok :: "dir_map \<Rightarrow> bool" where
  "names_ok d = (\<forall>e \<in> set d. length (fst e) = MAX_ITEM_NAME_LEN)"

text \<open>The strings that the code stores for a directory: a new directory is an empty extent.\<close>

definition dir_data :: "string \<Rightarrow> dir_map \<Rightarrow> bool" where
  "dir_data c d = (om_wf d \<and> names_ok d \<and> length d < 2 ^ 31 \<and>
     (c = [] \<and> d = [] \<or> c = fst (DirFormToString \<lparr>dir_block = d, dir_item_num = 0\<rparr>)))"

section \<open>Inode bitmaps\<close>

definition MAX_INODE_NUM :: nat where "MAX_INODE_NUM = 16384"

definition skip_ones :: "nat \<Rightarrow> u64 \<times> nat \<Rightarrow> u64 \<times> nat" where
  "skip_ones k = (\<lambda>(bm, pos). if bm AND mask k = mask k then (drop_bit k bm, pos + k) else (bm, pos))"

definition FindZeroBitPos :: "u64 \<Rightarrow> nat" where
  "FindZeroBitPos bm =
     snd (skip_ones 1 (skip_ones 2 (skip_ones 4 (skip_ones 8 (skip_ones 16 (skip_ones 32 (bm, 0)))))))"

fun find_idle :: "nat \<Rightarrow> u64 list \<Rightarrow> nat" where
  "find_idle i [] = 0"
| "find_idle i (bm # bms) = (if bm \<noteq> 0xffffffffffffffff then i * 64 + FindZeroBitPos bm + 1 else find_idle (i + 1) bms)"

definition FindIdelInodeNum :: "u64 list \<Rightarrow> u64" where
  "FindIdelInodeNum bms = of_nat (find_idle 0 bms)"

definition SetInodeBitMap :: "u64 \<Rightarrow> u64 list \<Rightarrow> (int \<times> u64 list) outcome" where
  "SetInodeBitMap inum bms =
     (if inum = 0 then Returns (-1, bms)
      else let section = unat ((inum - 1) div 64); pos = unat ((inum - 1) mod 64)
           in if length bms \<le> section then Aborts
              else if bit (bms ! section) pos then Returns (-2, bms)
              else Returns (0, bms[section := bms ! section OR push_bit pos 1]))"

definition UnSetInodeBitMap :: "u64 \<Rightarrow> u64 list \<Rightarrow> (int \<times> u64 list) outcome" where
  "UnSetInodeBitMap inum bms =
     (if inum = 0 then Returns (-1, bms)
      else let section = unat ((inum - 1) div 64); pos = unat ((inum - 1) mod 64)
           in if length bms \<le> section then Aborts
              else if bit (bms ! section) pos then Returns (0, bms[section := bms ! section AND NOT (push_bit pos 1)])
              else Returns (-2, bms))"

record inode_maps =
  inode_bit_block_map :: "u64 list"
  inode_bit_dir_map :: "u64 list"

definition the_map :: "bool \<Rightarrow> inode_maps \<Rightarrow> u64 list" where
  "the_map is_file s = (if is_file then inode_bit_block_map s else inode_bit_dir_map s)"

definition set_map :: "bool \<Rightarrow> u64 list \<Rightarrow> inode_maps \<Rightarrow> inode_maps" where
  "set_map is_file bms s = (if is_file then s\<lparr>inode_bit_block_map := bms\<rparr> else s\<lparr>inode_bit_dir_map := bms\<rparr>)"

definition inode_maps_new :: inode_maps where
  "inode_maps_new = (let m = (replicate MAX_INODE_NUM 0)[0 := 1] in \<lparr>inode_bit_block_map = m, inode_bit_dir_map = m\<rparr>)"

definition GetAvailInumNotUse :: "bool \<Rightarrow> inode_maps \<Rightarrow> (u64 \<times> inode_maps) outcome" where
  "GetAvailInumNotUse is_file s =
     (let inum = FindIdelInodeNum (the_map is_file s)
      in if 0 < inum
         then obind (SetInodeBitMap inum (the_map is_file s)) (\<lambda>(ret, bms).
                let s = set_map is_file bms s
                in if ret = 0 then Returns (if is_file then inum OR 0x80000000 else inum, s) else Returns (0, s))
         else Returns (0, s))"

definition RestoreInumNotUse :: "bool \<Rightarrow> u64 \<Rightarrow> inode_maps \<Rightarrow> (int \<times> inode_maps) outcome" where
  "RestoreInumNotUse is_file inum s =
     (if inum = 0 \<or> inum = 0x80000000 then Returns (-3, s)
      else let inum = (if is_file then inum AND NOT 0x80000000 else inum)
           in obind (UnSetInodeBitMap inum (the_map is_file s)) (\<lambda>(ret, bms). Returns (ret, set_map is_file bms s)))"

definition skip_inv :: "u64 \<Rightarrow> nat \<Rightarrow> u64 \<times> nat \<Rightarrow> bool" where
  "skip_inv bm w = (\<lambda>(b, pos). b = drop_bit pos bm \<and> (\<forall>i < pos. bit bm i) \<and> (\<exists>i. pos \<le> i \<and> i < pos + w \<and> \<not> bit bm i))"

definition bit_at :: "u64 list \<Rightarrow> nat \<Rightarrow> bool" where
  "bit_at bms k = bit (bms ! (k div 64)) (k mod 64)"

definition example_dir :: dir_map where
  "example_dir = [(str_resize MAX_ITEM_NAME_LEN ''a'', 0x80000005), (str_resize MAX_ITEM_NAME_LEN ''b'', 7)]"

section \<open>Little endian numbers\<close>

lemma length_le_bytes [simp]: "length (le_bytes n w) = n"
  by (induction n w rule: le_bytes.induct) auto

lemma le_val_bytes: "8 * n \<le> 64 \<Longrightarrow> le_val (le_bytes n w) = take_bit (8 * n) w"
proof (induction n w rule: le_bytes.induct)
  case (2 n w)
  then have "le_val (le_bytes n (drop_bit 8 w)) = take_bit (8 * n) (drop_bit 8 w)"
    by simp
  then show ?case
    by (auto intro!: bit_word_eqI simp: bit_simps)
qed simp

lemma le_val_8 [simp]: "le_val (le_bytes 8 w) = w"
  by (simp add: le_val_bytes take_bit_word_eq_self)

lemma le_val_4 [simp]: "ucast (le_val (le_bytes 4 (ucast (n :: u32)))) = n"
  by (simp add: le_val_bytes) (auto intro!: bit_word_eqI simp: bit_simps)

section \<open>Reading a directory\<close>

declare dir_loop.simps [simp del]

lemma rd_bytes_data:
  "pos + n \<le> length data \<Longrightarrow> rd_bytes (mem_of data junk) pos n = take n (drop pos data)"
  by (rule nth_equalityI) (auto simp: rd_bytes_def mem_of_def)

lemma length_dir_item [simp]: "length (dir_item e) = MAX_ITEM_NAME_LEN + 8"
  by (simp add: dir_item_def)

lemma dir_loop_items:
  assumes "drop pos data = concat (map dir_item es)" and "pos \<le> length data"
    and "n = i + int (length es)" and "names_ok es" and "om_wf (d @ es)"
  shows "dir_loop (mem_of data junk) (length data) n i pos d = d @ es"
  using assms
proof (induction es arbitrary: pos i d)
  case Nil
  then show ?case
    by (simp add: dir_loop.simps)
next
  case (Cons e es)
  obtain nm ino where e: "e = (nm, ino)"
    by fastforce
  have nm: "length nm = MAX_ITEM_NAME_LEN"
    using Cons.prems(4) by (simp add: names_ok_def e)
  let ?M = MAX_ITEM_NAME_LEN
  have dr: "drop pos data = nm @ le_bytes 8 ino @ concat (map dir_item es)"
    using Cons.prems(1) nm by (simp add: e dir_item_def [of "(nm, ino)"])
  then have len: "length data = pos + ?M + 8 + length (concat (map dir_item es))"
    using Cons.prems(2) nm by (metis add.assoc le_add_diff_inverse length_append length_drop length_le_bytes)
  have r1: "rd_bytes (mem_of data junk) pos ?M = nm"
    using len nm dr by (simp add: rd_bytes_data)
  have "drop (pos + ?M) data = le_bytes 8 ino @ concat (map dir_item es)"
    using dr nm by (metis add.commute append_eq_conv_conj drop_drop)
  then have r2: "rd_bytes (mem_of data junk) (pos + ?M) 8 = le_bytes 8 ino"
    and dr': "drop (pos + ?M + 8) data = concat (map dir_item es)"
    using len by (simp_all add: rd_bytes_data add.commute [of _ 8] flip: drop_drop)
  have ins: "om_insert nm ino d = d @ [(nm, ino)]"
    using Cons.prems(5) by (intro om_insert_append) (auto simp: e om_wf_def sorted_wrt_append)
  have "dir_loop (mem_of data junk) (length data) n (i + 1) (pos + ?M + 8) (d @ [(nm, ino)]) = (d @ [(nm, ino)]) @ es"
    using Cons.prems(3-5) len dr' by (intro Cons.IH) (auto simp: e names_ok_def)
  then show ?case
    using len Cons.prems(3) by (subst dir_loop.simps) (simp add: e r1 r2 ins)
qed

lemma DirFormToString_block:
  "fst (DirFormToString d) = le_bytes 4 (ucast (of_nat (length (dir_block d)) :: u32)) @ concat (map dir_item (dir_block d))"
  by (simp add: DirFormToString_def Let_def)

lemma dirform_read:
  assumes "om_wf (dir_block d)" and "names_ok (dir_block d)" and "length (dir_block d) < 2 ^ 31"
  shows "StringToDirForm junk (fst (DirFormToString d)) dir_form_new = snd (DirFormToString d)"
proof -
  let ?n = "of_nat (length (dir_block d)) :: u32" and ?s = "fst (DirFormToString d)"
  have n: "sint ?n = int (length (dir_block d))"
    using assms(3) by (rule sint_of_nat)
  have "rd_bytes (mem_of ?s junk) 0 4 = le_bytes 4 (ucast ?n)"
    by (simp add: rd_bytes_data DirFormToString_block)
  moreover have "dir_loop (mem_of ?s junk) (length ?s) (sint ?n) 0 4 [] = [] @ dir_block d"
    using assms n by (intro dir_loop_items) (simp_all add: DirFormToString_block)
  ultimately show ?thesis
    by (simp add: StringToDirForm_def dir_form_new_def DirFormToString_def [of d] Let_def)
qed

lemma dirform_empty: "dir_block (StringToDirForm junk [] d) = dir_block d"
  by (simp add: StringToDirForm_def Let_def dir_loop.simps)

lemma dir_data_read: "dir_data c d \<Longrightarrow> dir_block (StringToDirForm junk c dir_form_new) = d"
  using dirform_empty [of junk dir_form_new] dirform_read [of "\<lparr>dir_block = d, dir_item_num = 0\<rparr>" junk]
  by (auto simp: dir_data_def dir_form_new_def DirFormToString_def Let_def)

section \<open>Finding a clear bit\<close>

lemma and_mask_full: "k \<le> 64 \<Longrightarrow> (b :: u64) AND mask k = mask k \<longleftrightarrow> (\<forall>i < k. bit b i)"
  by (auto simp: bit_eq_iff bit_and_iff bit_mask_iff intro: less_le_trans)

lemma skip_ones_inv:
  assumes "skip_inv bm (k + k) p" and "k \<le> 64"
  shows "skip_inv bm k (skip_ones k p)"
proof -
  obtain b pos where p: "p = (b, pos)"
    by fastforce
  obtain i where i: "pos \<le> i" "i < pos + (k + k)" "\<not> bit bm i" and b: "b = drop_bit pos bm"
    and below: "\<forall>i < pos. bit bm i"
    using assms(1) by (auto simp: skip_inv_def p)
  show ?thesis
  proof (cases "\<forall>i < k. bit b i")
    case True
    then have "bit bm i" if "i < pos + k" for i
      using below that b by (cases "i < pos") (auto simp: bit_drop_bit_eq dest: spec [of _ "i - pos"])
    moreover from this have "pos + k \<le> i"
      using i by (meson not_le)
    ultimately show ?thesis
      using True assms(2) i b by (auto simp: skip_inv_def skip_ones_def p and_mask_full drop_bit_drop_bit add.commute intro!: exI [of _ i])
  next
    case False
    then show ?thesis
      using below b assms(2) by (auto simp: skip_inv_def skip_ones_def p and_mask_full bit_drop_bit_eq intro: exI [of _ "pos + _"])
  qed
qed

lemma FindZeroBitPos_least:
  assumes "bm \<noteq> 0xffffffffffffffff"
  shows "\<not> bit bm (FindZeroBitPos bm) \<and> (\<forall>i < FindZeroBitPos bm. bit bm i) \<and> FindZeroBitPos bm < 64"
proof -
  have "\<exists>i < 64. \<not> bit bm i"
  proof (rule ccontr)
    assume "\<not> ?thesis"
    then have "bm = mask 64"
      by (auto intro!: bit_word_eqI simp: bit_mask_iff)
    then show False
      using assms by (simp add: mask_eq_exp_minus_1)
  qed
  then obtain i where i: "i < 64" "\<not> bit bm i"
    by blast
  then have "skip_inv bm (32 + 32) (bm, 0)"
    by (auto simp: skip_inv_def)
  from skip_ones_inv [OF this] have "skip_inv bm (16 + 16) (skip_ones 32 (bm, 0))" by simp
  from skip_ones_inv [OF this] have "skip_inv bm (8 + 8) (skip_ones 16 (skip_ones 32 (bm, 0)))" by simp
  from skip_ones_inv [OF this] have "skip_inv bm (4 + 4) (skip_ones 8 (skip_ones 16 (skip_ones 32 (bm, 0))))" by simp
  from skip_ones_inv [OF this] have "skip_inv bm (2 + 2) (skip_ones 4 (skip_ones 8 (skip_ones 16 (skip_ones 32 (bm, 0)))))" by simp
  from skip_ones_inv [OF this] have "skip_inv bm (1 + 1) (skip_ones 2 (skip_ones 4 (skip_ones 8 (skip_ones 16 (skip_ones 32 (bm, 0))))))" by (simp add: numeral_2_eq_2)
  from skip_ones_inv [OF this] have z: "\<not> bit bm (FindZeroBitPos bm)" "\<forall>i < FindZeroBitPos bm. bit bm i"
    by (auto simp: skip_inv_def FindZeroBitPos_def split_beta less_Suc_eq_le)
  then have "FindZeroBitPos bm \<le> i"
    using i(2) by (meson not_le)
  then show ?thesis
    using z i(1) by simp
qed

lemma find_idle_least:
  assumes "find_idle i bms \<noteq> 0"
  shows "\<exists>k. find_idle i bms = i * 64 + k + 1 \<and> k < 64 * length bms \<and> \<not> bit_at bms k \<and> (\<forall>j < k. bit_at bms j)"
  using assms
proof (induction i bms rule: find_idle.induct)
  case (2 i bm bms)
  show ?case
  proof (cases "bm = 0xffffffffffffffff")
    case True
    then obtain k where k: "find_idle (i + 1) bms = (i + 1) * 64 + k + 1" "k < 64 * length bms" "\<not> bit_at bms k" "\<forall>j < k. bit_at bms j"
      using 2 by auto
    have full: "bit bm j" if "j < 64" for j
    proof -
      have "bm = mask 64"
        using True by (simp add: mask_eq_exp_minus_1)
      then show ?thesis
        using that by (simp add: bit_mask_iff)
    qed
    have up: "bit_at (bm # bms) (64 + j) = bit_at bms j" for j
    proof -
      have "(64 + j) div 64 = Suc (j div 64)"
        by simp
      then show ?thesis
        by (simp add: bit_at_def)
    qed
    have "bit_at (bm # bms) j" if "j < 64 + k" for j
      using that k(4) full up [of "j - 64"] by (cases "j < 64") (auto simp: bit_at_def)
    then show ?thesis
      using k up [of k] True by (intro exI [of _ "64 + k"]) auto
  next
    case False
    then show ?thesis
      using FindZeroBitPos_least [of bm] by (intro exI [of _ "FindZeroBitPos bm"]) (auto simp: bit_at_def)
  qed
qed simp

lemma inum_section:
  assumes "k < 2 ^ 31"
  shows "unat ((of_nat (k + 1) - 1 :: u64) div 64) = k div 64" "unat ((of_nat (k + 1) - 1 :: u64) mod 64) = k mod 64"
    "(of_nat (k + 1) :: u64) \<noteq> 0"
proof -
  have e: "(of_nat (k + 1) - 1 :: u64) = of_nat k"
    by simp
  have u: "unat (of_nat k :: u64) = k" "unat (of_nat (k + 1) :: u64) = k + 1"
    using assms by (simp_all add: unat_of_nat del: of_nat_add of_nat_Suc)
  show "unat ((of_nat (k + 1) - 1 :: u64) div 64) = k div 64" "unat ((of_nat (k + 1) - 1 :: u64) mod 64) = k mod 64"
    unfolding e by (simp_all add: unat_div unat_mod u)
  show "(of_nat (k + 1) :: u64) \<noteq> 0"
    using u(2) by (metis add_is_0 one_neq_zero unat_0)
qed

lemma set_unset_bit:
  assumes "k < 64 * length bms" and "k < 2 ^ 31" and "\<not> bit_at bms k"
  defines "bms' \<equiv> bms[k div 64 := bms ! (k div 64) OR push_bit (k mod 64) 1]"
  shows "SetInodeBitMap (of_nat (k + 1)) bms = Returns (0, bms')"
    and "UnSetInodeBitMap (of_nat (k + 1)) bms' = Returns (0, bms)"
proof -
  let ?b = "bms ! (k div 64)" and ?m = "push_bit (k mod 64) 1 :: u64"
  have len: "\<not> length bms \<le> k div 64"
    using assms(1) by auto
  show "SetInodeBitMap (of_nat (k + 1)) bms = Returns (0, bms')"
    using assms(3) len inum_section [OF assms(2)]
    by (simp add: SetInodeBitMap_def Let_def bms'_def bit_at_def del: of_nat_add of_nat_Suc)
  have "bit (?b OR ?m) (k mod 64)"
    by (simp add: bit_simps)
  moreover have "(?b OR ?m) AND NOT ?m = ?b"
    using assms(3) by (auto intro!: bit_word_eqI simp: bit_simps bit_at_def)
  ultimately show "UnSetInodeBitMap (of_nat (k + 1)) bms' = Returns (0, bms)"
    using len inum_section [OF assms(2)]
    by (simp add: UnSetInodeBitMap_def Let_def bms'_def del: of_nat_add of_nat_Suc)
qed

lemma file_bit_off:
  assumes "k < 2 ^ 31"
  shows "((of_nat k :: u64) OR 0x80000000) AND NOT 0x80000000 = of_nat k"
proof (rule bit_word_eqI)
  fix n :: nat
  assume n: "n < LENGTH(64)"
  have "take_bit 31 (of_nat k :: u64) = of_nat k"
    using assms by (simp only: take_bit_of_nat take_bit_nat_eq_self)
  then have "\<not> bit (of_nat k :: u64) 31"
    by (metis bit_take_bit_iff less_irrefl)
  then show "bit ((of_nat k OR 0x80000000) AND NOT 0x80000000 :: u64) n = bit (of_nat k :: u64) n"
    using n by (cases "n = 31") (simp_all only: bit_and_iff bit_or_iff bit_not_iff bit_0x80000000 possible_bit_word simp_thms)
qed

section \<open>Properties\<close>

text \<open>C38: The directory format is read back exactly: parsing what \<open>DirFormToString\<close> writes gives the same
  directory and count, whatever the memory behind the string holds, for every directory of fewer
  than \<open>2 ^ 31\<close> entries whose names have the full length, as all names have that the file system
  inserts.\<close>

theorem dirform_roundtrip:
  assumes "om_wf (dir_block d)" and "names_ok (dir_block d)" and "length (dir_block d) < 2 ^ 31"
  shows "StringToDirForm junk (fst (DirFormToString d)) dir_form_new = snd (DirFormToString d)"
  using assms by (rule dirform_read)

theorem dirform_roundtrip_witness:
  "length example_dir = 2 \<and>
   StringToDirForm (\<lambda>_. CHR ''x'') (fst (DirFormToString \<lparr>dir_block = example_dir, dir_item_num = 9\<rparr>)) dir_form_new =
     \<lparr>dir_block = example_dir, dir_item_num = 2\<rparr>"
proof -
  have "str_resize MAX_ITEM_NAME_LEN ''a'' < str_resize MAX_ITEM_NAME_LEN ''b''"
    by (simp add: str_resize_def MAX_ITEM_NAME_LEN_def less_char_def)
  then have "om_wf example_dir" "names_ok example_dir" "length example_dir = 2"
    by (simp_all add: example_dir_def om_wf_def names_ok_def)
  then show ?thesis
    using dirform_roundtrip [of "\<lparr>dir_block = example_dir, dir_item_num = 9\<rparr>" "\<lambda>_. CHR ''x''"]
    by (simp add: DirFormToString_def Let_def)
qed

text \<open>The inode bitmaps allocate and free: \<open>GetAvailInumNotUse\<close> takes the smallest number that is
  free, the binary search in \<open>FindZeroBitPos\<close> included, and giving that number back restores the
  bitmaps exactly.\<close>

theorem bitmap_alloc_free:
  assumes "length (the_map is_file s) = MAX_INODE_NUM" and "FindIdelInodeNum (the_map is_file s) \<noteq> 0"
  shows "\<exists>k inum t. GetAvailInumNotUse is_file s = Returns (inum, t) \<and> inum = (if is_file then of_nat (k + 1) OR 0x80000000 else of_nat (k + 1))
    \<and> \<not> bit_at (the_map is_file s) k \<and> (\<forall>j < k. bit_at (the_map is_file s) j) \<and> bit_at (the_map is_file t) k
    \<and> RestoreInumNotUse is_file inum t = Returns (0, s)"
proof -
  let ?m = "the_map is_file s"
  have "find_idle 0 ?m \<noteq> 0"
    using assms(2) by (intro notI) (simp add: FindIdelInodeNum_def)
  then obtain k where k: "find_idle 0 ?m = k + 1" "k < 64 * length ?m" "\<not> bit_at ?m k" "\<forall>j < k. bit_at ?m j"
    using find_idle_least [of 0 ?m] by auto
  then have k31: "k < 2 ^ 31" "k + 1 < 2 ^ 31"
    using assms(1) by (simp_all add: MAX_INODE_NUM_def)
  define bms where "bms = ?m[k div 64 := ?m ! (k div 64) OR push_bit (k mod 64) 1]"
  define inum where "inum = (if is_file then of_nat (k + 1) OR 0x80000000 else of_nat (k + 1) :: u64)"
  note su = set_unset_bit [OF k(2) k31(1) k(3), folded bms_def]
  have nz: "(of_nat (k + 1) :: u64) \<noteq> 0"
    by (rule inum_section(3) [OF k31(1)])
  have off: "(if is_file then inum AND NOT 0x80000000 else inum) = of_nat (k + 1)"
    using file_bit_off [OF k31(2)] by (simp add: inum_def)
  have "(0x80000000 :: u64) \<noteq> of_nat (k + 1)"
    using k31(2) unat_of_nat [where ?'a = 64, of "k + 1"] by (auto dest: arg_cong [of _ _ unat])
  then have nz': "\<not> (inum = 0 \<or> inum = 0x80000000)"
    using nz off by (cases is_file) (auto simp only: if_True if_False and_zero_eq zero_and_eq bit.conj_cancel_right simp_thms)
  show ?thesis
  proof (intro exI conjI)
    show "GetAvailInumNotUse is_file s = Returns (inum, set_map is_file bms s)"
      using su(1) nz by (simp add: GetAvailInumNotUse_def FindIdelInodeNum_def k(1) inum_def Let_def word_gt_0 del: of_nat_add of_nat_Suc)
    show "bit_at (the_map is_file (set_map is_file bms s)) k"
      using k(2) by (auto simp: bit_at_def the_map_def set_map_def bms_def bit_simps)
    show "RestoreInumNotUse is_file inum (set_map is_file bms s) = Returns (0, s)"
      using su(2) nz' off by (auto simp: RestoreInumNotUse_def the_map_def set_map_def Let_def)
  qed (use k inum_def in auto)
qed

theorem bitmap_alloc_free_witness:
  "\<exists>k inum t. GetAvailInumNotUse True inode_maps_new = Returns (inum, t) \<and> inum = of_nat (k + 1) OR 0x80000000
     \<and> RestoreInumNotUse True inum t = Returns (0, inode_maps_new)"
proof -
  let ?m = "the_map True inode_maps_new"
  have m: "?m = 1 # replicate 16383 0"
  proof -
    have M: "MAX_INODE_NUM = Suc 16383"
      by (simp add: MAX_INODE_NUM_def)
    show ?thesis
      unfolding the_map_def inode_maps_new_def M by (simp only: Let_def if_True inode_maps.select_convs replicate_Suc list_update.simps nat.case)
  qed
  have "unat (of_nat (FindZeroBitPos 1 + 1) :: u64) = FindZeroBitPos 1 + 1"
    using FindZeroBitPos_least [of 1] by (simp add: unat_of_nat del: of_nat_add of_nat_Suc)
  then have "FindIdelInodeNum ?m \<noteq> 0"
    unfolding m by (auto simp: FindIdelInodeNum_def simp del: of_nat_add of_nat_Suc dest!: arg_cong [of _ _ unat])
  moreover have "length ?m = MAX_INODE_NUM"
    unfolding m by (simp add: MAX_INODE_NUM_def)
  ultimately show ?thesis
    using bitmap_alloc_free [of True inode_maps_new] by auto
qed

end
