(* ===== verification/Yfs.thy ===== *)
theory Yfs
  imports Extent Dirform
begin

text \<open>
  The file system client (yfs\_client.cc, yfs\_client.h) on top of the caching extent client.

  \<^item> The state is the cache and server of \<open>Extent\<close> plus a ghost log of lock calls and extent accesses.
    A \<open>YfsLock\<close> object logs its acquire where it is constructed and its release at every return.
    \<open>getfile\<close> and \<open>getdir\<close> construct a temporary, which is gone before the next statement.
  \<^item> The environment of an operation is \<open>yenv\<close>: that of its first, second, \<dots> call to the extent client,
    the draws of the inode generator, the fate of that call, and the memory behind a string that
    the directory parser may read. An operation is \<open>None\<close> when the draws do not end the
    generator's loop.
  \<^item> Running out of memory is not modelled.
  \<^item> The specification is an inode file system: files with contents and directories with entries.
\<close>

section \<open>Types\<close>

datatype yfs_status = Y_OK | Y_RPCERR | Y_NOENT | Y_IOERR | Y_EXIST

record fileinfo =
  fi_size :: u64
  fi_atime :: u64
  fi_mtime :: u64
  fi_ctime :: u64

record dirinfo =
  di_atime :: u64
  di_mtime :: u64
  di_ctime :: u64

datatype yfs_event = Acq u64 | Rel u64 | Use u64

record yfs =
  y_ec :: extent_cache
  y_log :: "yfs_event list"

record yenv =
  ye_x :: "nat \<Rightarrow> xenv"
  ye_draws :: "u64 list"
  ye_net :: net
  ye_mem :: "nat \<Rightarrow> char"

definition y_event :: "yfs_event \<Rightarrow> yfs \<Rightarrow> yfs" where
  "y_event v s = s\<lparr>y_log := y_log s @ [v]\<rparr>"

definition YfsLock :: "u64 \<Rightarrow> yfs \<Rightarrow> yfs" where
  "YfsLock ino s = y_event (Acq ino) s"

definition YfsLock_delete :: "u64 \<Rightarrow> yfs \<Rightarrow> yfs" where
  "YfsLock_delete ino s = y_event (Rel ino) s"

definition isfile :: "u64 \<Rightarrow> bool" where
  "isfile inum = (inum AND 0x80000000 \<noteq> 0)"

definition isdir :: "u64 \<Rightarrow> bool" where
  "isdir inum = (\<not> isfile inum)"

section \<open>Extent access\<close>

definition y_getattr :: "xenv \<Rightarrow> u64 \<Rightarrow> attr \<Rightarrow> yfs \<Rightarrow> u32 \<times> attr \<times> yfs" where
  "y_getattr e ino a s = (let (ret, a, k) = cc_getattr e ino a (y_ec s) in (ret, a, y_event (Use ino) (s\<lparr>y_ec := k\<rparr>)))"

definition getdata :: "xenv \<Rightarrow> u64 \<Rightarrow> string \<Rightarrow> yfs \<Rightarrow> yfs_status \<times> string \<times> yfs" where
  "getdata e ino data s =
     (let (ret, data, k) = cc_get e ino data (y_ec s)
      in (if ret \<noteq> ext_OK then Y_IOERR else Y_OK, data, y_event (Use ino) (s\<lparr>y_ec := k\<rparr>)))"

definition putdata :: "xenv \<Rightarrow> u64 \<Rightarrow> string \<Rightarrow> yfs \<Rightarrow> yfs_status \<times> yfs" where
  "putdata e ino data s =
     (let (ret, k) = cc_put e ino data (y_ec s)
      in (if ret \<noteq> ext_OK then Y_IOERR else Y_OK, y_event (Use ino) (s\<lparr>y_ec := k\<rparr>)))"

definition y_remove :: "xenv \<Rightarrow> u64 \<Rightarrow> yfs \<Rightarrow> u32 \<times> yfs" where
  "y_remove e ino s = (let (ret, k) = cc_remove e ino (y_ec s) in (ret, y_event (Use ino) (s\<lparr>y_ec := k\<rparr>)))"

definition getfile :: "xenv \<Rightarrow> u64 \<Rightarrow> fileinfo \<Rightarrow> yfs \<Rightarrow> yfs_status \<times> fileinfo \<times> yfs" where
  "getfile e inum fin s =
     (let s = YfsLock_delete inum (YfsLock inum s);
          (ret, a, s) = y_getattr e inum (xe_junk e) s
      in if ret \<noteq> ext_OK then (Y_IOERR, fin, s)
         else (Y_OK, \<lparr>fi_size = ucast (at_size a), fi_atime = ucast (at_atime a),
                      fi_mtime = ucast (at_mtime a), fi_ctime = ucast (at_ctime a)\<rparr>, s))"

definition getdir :: "xenv \<Rightarrow> u64 \<Rightarrow> dirinfo \<Rightarrow> yfs \<Rightarrow> yfs_status \<times> dirinfo \<times> yfs" where
  "getdir e inum din s =
     (let s = YfsLock_delete inum (YfsLock inum s);
          (ret, a, s) = y_getattr e inum (xe_junk e) s
      in if ret \<noteq> ext_OK then (Y_IOERR, din, s)
         else (Y_OK, \<lparr>di_atime = ucast (at_atime a), di_mtime = ucast (at_mtime a), di_ctime = ucast (at_ctime a)\<rparr>, s))"

text \<open>\<open>None\<close>: the draws do not end the loop of the inode generator; 0: the call failed.\<close>

definition GetAvailInum :: "yenv \<Rightarrow> bool \<Rightarrow> yfs \<Rightarrow> u64 option" where
  "GetAvailInum en is_file s =
     map_option (\<lambda>(ret, inode). if ret \<noteq> ext_OK then 0 else inode)
       (ec_getinode (ye_net en) (ye_draws en) 0 (of_bool is_file) (ec_srv (y_ec s)))"

definition RestoreInum :: "xenv \<Rightarrow> bool \<Rightarrow> u64 \<Rightarrow> yfs \<Rightarrow> yfs" where
  "RestoreInum e is_file inum s = snd (y_remove e (if is_file then inum AND NOT 0x80000000 else inum) s)"

section \<open>Files\<close>

definition yfs_read :: "yenv \<Rightarrow> u64 \<Rightarrow> u64 \<Rightarrow> u64 \<Rightarrow> string \<Rightarrow> yfs \<Rightarrow> yfs_status \<times> string \<times> yfs" where
  "yfs_read en ino sz off buf s =
     (let (ret, data, s) = getdata (ye_x en 0) ino [] (YfsLock ino s); s = YfsLock_delete ino s
      in if ret \<noteq> Y_OK then (Y_NOENT, buf, s)
         else if of_nat (length data) \<le> off then (Y_OK, [], s)
         else if of_nat (length data) < off + sz then (Y_OK, drop (unat off) data, s)
         else (Y_OK, take (unat sz) (drop (unat off) data), s))"

definition write_bytes :: "u64 \<Rightarrow> string \<Rightarrow> string \<Rightarrow> string" where
  "write_bytes off buf data =
     (let sz = of_nat (length buf);
          data = (if of_nat (length data) < off then str_resize (unat off) data else data);
          write_data = take (unat off) data
      in if of_nat (length data) < off + sz then write_data @ buf
         else write_data @ buf @ drop (unat (off + sz)) data)"

definition yfs_write :: "yenv \<Rightarrow> u64 \<Rightarrow> u64 \<Rightarrow> string \<Rightarrow> yfs \<Rightarrow> yfs_status \<times> yfs" where
  "yfs_write en ino off buf s =
     (let (ret, data, s) = getdata (ye_x en 0) ino [] (YfsLock ino s)
      in if ret \<noteq> Y_OK then (ret, YfsLock_delete ino s)
         else let (ret, s) = putdata (ye_x en 1) ino (write_bytes off buf data) s in (ret, YfsLock_delete ino s))"

definition yfs_setattr :: "yenv \<Rightarrow> u64 \<Rightarrow> nat \<Rightarrow> yfs \<Rightarrow> yfs_status \<times> yfs" where
  "yfs_setattr en ino st_size s =
     (let (ret, data, s) = getdata (ye_x en 0) ino [] (YfsLock ino s)
      in if ret \<noteq> Y_OK then (ret, YfsLock_delete ino s)
         else let (ret, s) = putdata (ye_x en 1) ino (str_resize st_size data) s in (ret, YfsLock_delete ino s))"

section \<open>Directories\<close>

definition yfs_readdir :: "yenv \<Rightarrow> dir_form \<Rightarrow> u64 \<Rightarrow> yfs \<Rightarrow> yfs_status \<times> dir_form \<times> yfs" where
  "yfs_readdir en d inum s =
     (let (ret, data, s) = getdata (ye_x en 0) inum [] (YfsLock inum s); s = YfsLock_delete inum s
      in if ret \<noteq> Y_OK then (ret, d, s) else (Y_OK, StringToDirForm (ye_mem en) data d, s))"

definition yfs_lookup :: "yenv \<Rightarrow> u64 \<Rightarrow> string \<Rightarrow> bool \<Rightarrow> u64 \<Rightarrow> yfs \<Rightarrow> yfs_status \<times> bool \<times> u64 \<times> yfs" where
  "yfs_lookup en parent name found inum s =
     (let str_name = str_resize MAX_ITEM_NAME_LEN name;
          (ret, data, s) = getdata (ye_x en 0) parent [] (YfsLock parent s); s = YfsLock_delete parent s
      in if ret \<noteq> Y_OK then (Y_NOENT, found, inum, s)
         else case map_of (dir_block (StringToDirForm (ye_mem en) data dir_form_new)) str_name of
                Some i \<Rightarrow> (Y_OK, True, i, s)
              | None \<Rightarrow> (Y_OK, found, inum, s))"

text \<open>
  The two parts that \<open>create\<close> and \<open>mkdir\<close> have in common. The second begins once there is an inode
  number: \<open>RestoreInum(ret_ino, is_file)\<close> has its arguments the wrong way round, and the casts turn
  the inode number into \<open>true\<close> and the kind into inode 1 or 0.
\<close>

definition add_entry :: "yenv \<Rightarrow> bool \<Rightarrow> u64 \<Rightarrow> string \<Rightarrow> dir_form \<Rightarrow> u64 \<Rightarrow> yfs \<Rightarrow> yfs_status \<times> yfs" where
  "add_entry en is_file parent str_name d ino s =
     (let restore = RestoreInum (ye_x en 4) (ino \<noteq> 0) (of_bool is_file);
          data = fst (DirFormToString (d\<lparr>dir_block := om_put str_name ino (dir_block d)\<rparr>));
          (ret, s) = putdata (ye_x en 1) parent data s
      in if ret \<noteq> Y_OK then (ret, restore s)
         else let (ret, s) = putdata (ye_x en 2) ino [] s
              in if ret \<noteq> Y_OK then (ret, restore s)
                 else let (ret, info, s) = getfile (ye_x en 3) ino \<lparr>fi_size = 0, fi_atime = 0, fi_mtime = 0, fi_ctime = 0\<rparr> s
                      in if ret \<noteq> Y_OK then (ret, restore s) else (Y_OK, s))"

definition make_node :: "yenv \<Rightarrow> bool \<Rightarrow> u64 \<Rightarrow> string \<Rightarrow> u64 \<Rightarrow> yfs \<Rightarrow> (yfs_status \<times> u64 \<times> yfs) option" where
  "make_node en is_file parent name ret_ino s =
     (let str_name = str_resize MAX_ITEM_NAME_LEN name;
          (ret, data, s) = getdata (ye_x en 0) parent [] (YfsLock parent s)
      in if ret \<noteq> Y_OK then Some (Y_NOENT, ret_ino, YfsLock_delete parent s)
         else let d = StringToDirForm (ye_mem en) data dir_form_new
              in if map_of (dir_block d) str_name \<noteq> None then Some (Y_EXIST, ret_ino, YfsLock_delete parent s)
                 else case GetAvailInum en is_file s of
                        None \<Rightarrow> None
                      | Some ino \<Rightarrow>
                          if ino = 0 then Some (Y_NOENT, ino, YfsLock_delete parent s)
                          else let (ret, s) = add_entry en is_file parent str_name d ino s
                               in Some (ret, ino, YfsLock_delete parent s))"

definition yfs_create :: "yenv \<Rightarrow> u64 \<Rightarrow> string \<Rightarrow> u64 \<Rightarrow> yfs \<Rightarrow> (yfs_status \<times> u64 \<times> yfs) option" where
  "yfs_create en parent name ret_ino s = make_node en True parent name ret_ino s"

definition yfs_mkdir :: "yenv \<Rightarrow> u64 \<Rightarrow> string \<Rightarrow> u64 \<Rightarrow> yfs \<Rightarrow> (yfs_status \<times> u64 \<times> yfs) option" where
  "yfs_mkdir en parent name ret_ino s = make_node en False parent name ret_ino s"

definition yfs_unlink :: "yenv \<Rightarrow> u64 \<Rightarrow> string \<Rightarrow> yfs \<Rightarrow> yfs_status \<times> yfs" where
  "yfs_unlink en parent name s =
     (let str_name = str_resize MAX_ITEM_NAME_LEN name;
          (ret, data, s) = getdata (ye_x en 0) parent [] (YfsLock parent s)
      in if ret \<noteq> Y_OK then (Y_NOENT, YfsLock_delete parent s)
         else let d = StringToDirForm (ye_mem en) data dir_form_new
              in case map_of (dir_block d) str_name of
                   None \<Rightarrow> (Y_NOENT, YfsLock_delete parent s)
                 | Some ino \<Rightarrow>
                     if \<not> isfile ino then (Y_NOENT, YfsLock_delete parent s)
                     else let data = fst (DirFormToString (d\<lparr>dir_block := om_erase str_name (dir_block d)\<rparr>));
                              (ret, s) = putdata (ye_x en 1) parent data s
                          in if ret \<noteq> Y_OK then (ret, YfsLock_delete parent s)
                             else let (ret, s) = y_remove (ye_x en 2) ino (YfsLock ino s);
                                      s = YfsLock_delete parent (YfsLock_delete ino s)
                                  in if ret \<noteq> ext_OK then (Y_NOENT, s) else (Y_OK, s))"

section \<open>Specification\<close>

datatype fnode = File string | Dir dir_map

datatype yop = O_read u64 u64 u64 | O_write u64 u64 string | O_setattr u64 nat | O_lookup u64 string | O_readdir u64
  | O_create u64 string u64 | O_mkdir u64 string u64 | O_unlink u64 string

datatype yans = R_status yfs_status | R_data string | R_found "u64 option" | R_dir dir_map | R_made u64 | R_hangs

fun made :: "yfs \<Rightarrow> (yfs_status \<times> u64 \<times> yfs) option \<Rightarrow> yans \<times> yfs" where
  "made s0 None = (R_hangs, s0)"
| "made s0 (Some (st, i, s)) = (if st = Y_OK then R_made i else R_status st, s)"

fun yfs_exec :: "yenv \<times> yop \<Rightarrow> yfs \<Rightarrow> yans \<times> yfs" where
  "yfs_exec (en, O_read ino sz off) s =
     (let (st, b, s) = yfs_read en ino sz off [] s in (if st = Y_OK then R_data b else R_status st, s))"
| "yfs_exec (en, O_write ino off buf) s = apfst R_status (yfs_write en ino off buf s)"
| "yfs_exec (en, O_setattr ino n) s = apfst R_status (yfs_setattr en ino n s)"
| "yfs_exec (en, O_lookup p name) s =
     (let (st, found, i, s) = yfs_lookup en p name False 0 s
      in (if st = Y_OK then R_found (if found then Some i else None) else R_status st, s))"
| "yfs_exec (en, O_readdir ino) s =
     (let (st, d, s) = yfs_readdir en dir_form_new ino s in (if st = Y_OK then R_dir (dir_block d) else R_status st, s))"
| "yfs_exec (en, O_create p name ino) s = made s (yfs_create en p name 0 s)"
| "yfs_exec (en, O_mkdir p name ino) s = made s (yfs_mkdir en p name 0 s)"
| "yfs_exec (en, O_unlink p name) s = apfst R_status (yfs_unlink en p name s)"

definition pwrite :: "nat \<Rightarrow> string \<Rightarrow> string \<Rightarrow> string" where
  "pwrite off buf c = take off (c @ replicate (off - length c) NUL) @ buf @ drop (off + length buf) c"

type_synonym fs = "u64 \<rightharpoonup> fnode"

definition dir_at :: "fs \<Rightarrow> u64 \<Rightarrow> dir_map" where
  "dir_at m i = (case m i of Some (Dir d) \<Rightarrow> d | _ \<Rightarrow> [])"

definition file_at :: "fs \<Rightarrow> u64 \<Rightarrow> string" where
  "file_at m i = (case m i of Some (File c) \<Rightarrow> c | _ \<Rightarrow> [])"

definition fs_make :: "fnode \<Rightarrow> u64 \<Rightarrow> string \<Rightarrow> u64 \<Rightarrow> fs \<Rightarrow> yans \<times> fs" where
  "fs_make node p name ino m =
     (if map_of (dir_at m p) name \<noteq> None then (R_status Y_EXIST, m)
      else if ino = 0 then (R_status Y_NOENT, m)
      else (R_made ino, m(p \<mapsto> Dir (om_put name ino (dir_at m p)), ino \<mapsto> node)))"

fun fs_spec :: "yenv \<times> yop \<Rightarrow> fs \<Rightarrow> yans \<times> fs" where
  "fs_spec (en, O_read ino sz off) m = (R_data (take (unat sz) (drop (unat off) (file_at m ino))), m)"
| "fs_spec (en, O_write ino off buf) m = (R_status Y_OK, m(ino \<mapsto> File (pwrite (unat off) buf (file_at m ino))))"
| "fs_spec (en, O_setattr ino n) m = (R_status Y_OK, m(ino \<mapsto> File (str_resize n (file_at m ino))))"
| "fs_spec (en, O_lookup p name) m = (R_found (map_of (dir_at m p) (str_resize MAX_ITEM_NAME_LEN name)), m)"
| "fs_spec (en, O_readdir ino) m = (R_dir (dir_at m ino), m)"
| "fs_spec (en, O_create p name ino) m = fs_make (File []) p (str_resize MAX_ITEM_NAME_LEN name) ino m"
| "fs_spec (en, O_mkdir p name ino) m = fs_make (Dir []) p (str_resize MAX_ITEM_NAME_LEN name) ino m"
| "fs_spec (en, O_unlink p name) m =
     (case map_of (dir_at m p) (str_resize MAX_ITEM_NAME_LEN name) of
        Some i \<Rightarrow> if isfile i
          then (R_status Y_OK, m(p \<mapsto> Dir (om_erase (str_resize MAX_ITEM_NAME_LEN name) (dir_at m p)), i := None))
          else (R_status Y_NOENT, m)
      | None \<Rightarrow> (R_status Y_NOENT, m))"

text \<open>The content of an extent as this client sees it, and the file system it stands for.\<close>

definition cc_abs :: "extent_cache \<Rightarrow> u64 \<rightharpoonup> string" where
  "cc_abs k eid = entry_abs (ec_cache k eid) (file_block (ec_srv k) eid)"

definition node_of :: "u64 \<Rightarrow> string \<Rightarrow> fnode" where
  "node_of ino c = (if isfile ino then File c else Dir (dir_block (StringToDirForm (\<lambda>_. NUL) c dir_form_new)))"

definition fs_of :: "(u64 \<rightharpoonup> string) \<Rightarrow> fs" where
  "fs_of m ino = map_option (node_of ino) (m ino)"

definition fs_abs :: "yfs \<Rightarrow> fs" where
  "fs_abs s = fs_of (cc_abs (y_ec s))"

definition dirs_ok :: "(u64 \<rightharpoonup> string) \<Rightarrow> bool" where
  "dirs_ok m = (\<forall>ino. isdir ino \<longrightarrow> pred_option (\<lambda>c. \<exists>d. dir_data c d) (m ino))"

definition yfs_inv :: "yfs \<Rightarrow> bool" where
  "yfs_inv s = (file_block (ec_srv (y_ec s)) 1 \<noteq> None \<and> dirs_ok (cc_abs (y_ec s)))"

definition delivered :: "yenv \<Rightarrow> bool" where
  "delivered en = (\<forall>n. xe_net (ye_x en n) = Delivered \<and> xe_net2 (ye_x en n) = Delivered)"

text \<open>
  When the specification applies: the calls are delivered, the operand exists and has the right
  kind, offsets do not overflow, a new inode number is not in use by an extent that only the
  cache has, and a file that is unlinked is cached or stored but not both.
\<close>

definition make_allowed :: "yenv \<Rightarrow> bool \<Rightarrow> u64 \<Rightarrow> u64 \<Rightarrow> yfs \<Rightarrow> bool" where
  "make_allowed en is_file p ino s =
     (delivered en \<and> isdir p \<and> fs_abs s p \<noteq> None \<and> length (dir_at (fs_abs s) p) < 2 ^ 31 - 1
      \<and> GetAvailInum en is_file s = Some ino)"

fun yfs_allowed :: "yenv \<times> yop \<Rightarrow> yfs \<Rightarrow> bool" where
  "yfs_allowed (en, O_read ino sz off) s =
     (delivered en \<and> isfile ino \<and> fs_abs s ino \<noteq> None \<and> length (file_at (fs_abs s) ino) < 2 ^ 64)"
| "yfs_allowed (en, O_write ino off buf) s =
     (delivered en \<and> isfile ino \<and> fs_abs s ino \<noteq> None \<and> length (file_at (fs_abs s) ino) < 2 ^ 64
      \<and> unat off + length buf < 2 ^ 64)"
| "yfs_allowed (en, O_setattr ino n) s = (delivered en \<and> isfile ino \<and> fs_abs s ino \<noteq> None)"
| "yfs_allowed (en, O_lookup p name) s = (delivered en \<and> isdir p \<and> fs_abs s p \<noteq> None)"
| "yfs_allowed (en, O_readdir ino) s = (delivered en \<and> isdir ino \<and> fs_abs s ino \<noteq> None)"
| "yfs_allowed (en, O_create p name ino) s = (make_allowed en True p ino s \<and> fs_abs s ino = None)"
| "yfs_allowed (en, O_mkdir p name ino) s = (make_allowed en False p ino s \<and> fs_abs s ino = None)"
| "yfs_allowed (en, O_unlink p name) s =
     (delivered en \<and> isdir p \<and> fs_abs s p \<noteq> None
      \<and> (\<forall>i. map_of (dir_at (fs_abs s) p) (str_resize MAX_ITEM_NAME_LEN name) = Some i \<longrightarrow>
           fs_abs s i \<noteq> None \<and> (ec_cache (y_ec s) i = None \<or> file_block (ec_srv (y_ec s)) i = None)))"

definition srv_has :: "yfs \<Rightarrow> u64 \<Rightarrow> bool" where
  "srv_has s i = (file_block (ec_srv (y_ec s)) i \<noteq> None)"

definition yfs_sim :: "yenv \<times> yop \<Rightarrow> yfs \<Rightarrow> bool" where
  "yfs_sim x s = (yfs_inv (snd (yfs_exec x s)) \<and> fs_spec x (fs_abs s) = apsnd fs_abs (yfs_exec x s))"

text \<open>Every access to an extent happens while its lock is held.\<close>

fun uses_locked :: "u64 set \<Rightarrow> yfs_event list \<Rightarrow> bool" where
  "uses_locked H [] = True"
| "uses_locked H (Acq i # l) = uses_locked (insert i H) l"
| "uses_locked H (Rel i # l) = uses_locked (H - {i}) l"
| "uses_locked H (Use i # l) = (i \<in> H \<and> uses_locked H l)"

definition yfs_new :: "u32 \<Rightarrow> yfs" where
  "yfs_new now = \<lparr>y_ec = \<lparr>ec_cache = Map.empty, ec_srv = extent_server_new now\<rparr>, y_log = []\<rparr>"

definition calm_en :: "u64 list \<Rightarrow> yenv" where
  "calm_en draws = \<lparr>ye_x = (\<lambda>_. calm), ye_draws = draws, ye_net = Delivered, ye_mem = (\<lambda>_. NUL)\<rparr>"

definition example_yops :: "(yenv \<times> yop) list" where
  "example_yops = map (Pair (calm_en [5]))
     [O_create 1 ''a'' 0x80000005, O_write 0x80000005 2 ''xyz'', O_read 0x80000005 2 1, O_lookup 1 ''a'']"

section \<open>Reading and writing bytes\<close>

lemma yfs_read_bytes:
  assumes "length data < 2 ^ 64"
  shows "(if of_nat (length data) \<le> off then [] else if of_nat (length data) < off + sz then drop (unat off) data
    else take (unat sz) (drop (unat off) data)) = take (unat (sz::u64)) (drop (unat off) data)"
proof -
  have len: "unat (of_nat (length data) :: u64) = length data"
    using assms by (simp add: unat_of_nat)
  show ?thesis
  proof (cases "of_nat (length data) \<le> off")
    case True
    then show ?thesis
      using len by (simp add: word_le_nat_alt)
  next
    case False
    have "take (unat sz) (drop (unat off) data) = drop (unat off) data" if "of_nat (length data) < off + sz"
    proof -
      have "length data < (unat off + unat sz) mod 2 ^ 64"
        using that len by (simp add: word_less_nat_alt unat_word_ariths)
      also have "\<dots> \<le> unat off + unat sz"
        by (rule mod_less_eq_dividend)
      finally show ?thesis
        by simp
    qed
    then show ?thesis
      using False by simp
  qed
qed

lemma write_bytes_pwrite:
  assumes "length data < 2 ^ 64" and "unat off + length buf < 2 ^ 64"
  shows "write_bytes off buf data = pwrite (unat off) buf data"
proof -
  have len: "unat (of_nat (length data) :: u64) = length data" "unat (of_nat (length buf) :: u64) = length buf"
    using assms by (simp_all add: unat_of_nat)
  have sum: "unat (off + of_nat (length buf)) = unat off + length buf"
    using assms(2) len by (simp add: unat_word_ariths)
  show ?thesis
    using len sum
    by (auto simp: write_bytes_def pwrite_def Let_def word_less_nat_alt str_resize_def not_less)
qed

section \<open>Extent access\<close>

lemma y_sel [simp]:
  "y_ec (y_event v s) = y_ec s" "y_ec (YfsLock i s) = y_ec s" "y_ec (YfsLock_delete i s) = y_ec s"
  by (simp_all add: y_event_def YfsLock_def YfsLock_delete_def)

lemma getdata_ok:
  assumes "cc_abs (y_ec s) i = Some c" and "xe_net e = Delivered" and "xe_net2 e = Delivered"
  shows "\<exists>t. getdata e i b s = (Y_OK, c, t) \<and> cc_abs (y_ec t) = cc_abs (y_ec s) \<and> srv_has t = srv_has s
    \<and> (\<forall>j. j \<noteq> i \<longrightarrow> ec_cache (y_ec t) j = ec_cache (y_ec s) j)"
proof (cases "fd_present (cc_item i (y_ec s))")
  case True
  then obtain f where f: "ec_cache (y_ec s) i = Some f" "fd_present f"
    by (auto simp: cc_item_def file_data_new_def split: option.splits)
  then have "c = fd_content f"
    using assms(1) by (simp add: cc_abs_def entry_abs_def)
  then show ?thesis
    using f by (auto simp: getdata_def cc_get_present cc_abs_def entry_abs_def srv_has_def fun_eq_iff split: option.splits)
next
  case False
  then obtain a where a: "file_block (ec_srv (y_ec s)) i = Some (a, c)"
    using assms(1) by (auto simp: cc_abs_def entry_abs_def cc_item_def split: option.splits if_splits)
  show ?thesis
    using assms(1) a
    by (simp add: getdata_def cc_get_absent [OF False a assms(2,3)])
      (auto simp: cc_abs_def entry_abs_def srv_has_def fun_eq_iff split: option.splits)
qed

lemma putdata_ok:
  "\<exists>t. putdata e i c s = (Y_OK, t) \<and> cc_abs (y_ec t) = (cc_abs (y_ec s))(i \<mapsto> c) \<and> srv_has t = srv_has s
    \<and> (\<exists>f. ec_cache (y_ec t) i = Some f \<and> fd_present f) \<and> (\<forall>j. j \<noteq> i \<longrightarrow> ec_cache (y_ec t) j = ec_cache (y_ec s) j)"
  by (simp add: putdata_def cc_put_def Let_def) (auto simp: cc_abs_def entry_abs_def srv_has_def fun_eq_iff)

lemma getfile_ok:
  assumes "ec_cache (y_ec s) i = Some f" and "fd_present f"
  shows "\<exists>info t. getfile e i fin s = (Y_OK, info, t) \<and> y_ec t = y_ec s"
proof -
  have "cc_getattr e i a (y_ec s) = (ext_OK, fd_attr f, y_ec s)" for a
    using assms by (simp add: cc_getattr_def cc_item_def cc_set_def fun_upd_idem)
  then show ?thesis
    by (simp add: getfile_def y_getattr_def)
qed

lemma y_remove_ok:
  assumes "cc_abs (y_ec s) i \<noteq> None" and "xe_net e = Delivered"
    and "ec_cache (y_ec s) i = None \<or> file_block (ec_srv (y_ec s)) i = None"
  shows "\<exists>t. y_remove e i s = (ext_OK, t) \<and> cc_abs (y_ec t) = (cc_abs (y_ec s))(i := None)
    \<and> (\<forall>j. j \<noteq> i \<longrightarrow> srv_has t j = srv_has s j)"
proof (cases "ec_cache (y_ec s) i")
  case None
  then have "file_block (ec_srv (y_ec s)) i \<noteq> None"
    using assms(1) by (auto simp: cc_abs_def entry_abs_def)
  then show ?thesis
    using None assms(2)
    by (simp add: y_remove_def cc_remove_def ec_remove_def es_remove_def) (auto simp: cc_abs_def entry_abs_def srv_has_def fun_eq_iff)
next
  case (Some f)
  then show ?thesis
    using assms(3)
    by (simp add: y_remove_def cc_remove_def) (auto simp: cc_abs_def entry_abs_def srv_has_def fun_eq_iff)
qed

section \<open>The file system behind the extents\<close>

lemma fs_abs_None [simp]: "fs_abs s i = None \<longleftrightarrow> cc_abs (y_ec s) i = None"
  by (simp add: fs_abs_def fs_of_def)

lemma fs_of_upd: "fs_of (m(i := x)) = (fs_of m)(i := map_option (node_of i) x)"
  by (auto simp: fs_of_def fun_eq_iff)

lemma file_at_fs: "isfile i \<Longrightarrow> m i = Some c \<Longrightarrow> file_at (fs_of m) i = c"
  by (simp add: file_at_def fs_of_def node_of_def)

lemma dir_at_fs:
  assumes "isdir i" and "m i = Some c" and "dirs_ok m"
  shows "dir_data c (dir_at (fs_of m) i)"
proof -
  obtain d where "dir_data c d"
    using assms(3) [unfolded dirs_ok_def, rule_format, OF assms(1)] assms(2) by auto
  then show ?thesis
    using assms(1,2) dir_data_read by (auto simp: dir_at_def fs_of_def node_of_def isdir_def)
qed

lemma node_of_dir: "isdir i \<Longrightarrow> dir_data c d \<Longrightarrow> node_of i c = Dir d"
  using dir_data_read by (simp add: node_of_def isdir_def)

lemma dirs_ok_upd:
  "dirs_ok m \<Longrightarrow> (isdir i \<Longrightarrow> pred_option (\<lambda>c. \<exists>d. dir_data c d) x) \<Longrightarrow> dirs_ok (m(i := x))"
  by (auto simp: dirs_ok_def)

lemma dir_data_new: "dir_data [] []"
  by (simp add: dir_data_def names_ok_def)

lemma dir_data_string:
  assumes "dir_block f = d" and "om_wf d" and "names_ok d" and "length d < 2 ^ 31"
  shows "dir_data (fst (DirFormToString f)) d"
  using assms by (auto simp: dir_data_def DirFormToString_block)

lemma length_om_put: "length (om_put k v m) \<le> Suc (length m)"
  by (induction k v m rule: om_put.induct) auto

lemma length_om_erase: "length (om_erase k m) \<le> length m"
  by (simp add: om_erase_def)

lemma names_ok_put: "names_ok d \<Longrightarrow> length k = MAX_ITEM_NAME_LEN \<Longrightarrow> names_ok (om_put k v d)"
proof -
  have "names_ok m \<longleftrightarrow> (\<forall>k \<in> fst ` set m. length k = MAX_ITEM_NAME_LEN)" for m
    by (simp add: names_ok_def)
  then show "names_ok d \<Longrightarrow> length k = MAX_ITEM_NAME_LEN \<Longrightarrow> names_ok (om_put k v d)"
    by (simp only: set_om_put) simp
qed

lemma names_ok_erase: "names_ok d \<Longrightarrow> names_ok (om_erase k d)"
  by (simp add: names_ok_def om_erase_def)

lemma inode_loop_dom:
  "(\<And>i. file_block s i = None \<longleftrightarrow> file_block t i = None) \<Longrightarrow> inode_loop draws b s = inode_loop draws b t"
  by (induction draws) (auto simp: Let_def simp del: not_None_eq)

lemma GetAvailInum_dom:
  assumes "srv_has t = srv_has s"
  shows "GetAvailInum en b t = GetAvailInum en b s"
proof -
  have "file_block (ec_srv (y_ec t)) i = None \<longleftrightarrow> file_block (ec_srv (y_ec s)) i = None" for i
    using fun_cong [OF assms, of i] by (simp add: srv_has_def del: not_None_eq)
  then have "inode_loop draws b (ec_srv (y_ec t)) = inode_loop draws b (ec_srv (y_ec s))" for draws b
    by (rule inode_loop_dom)
  then show ?thesis
    by (simp add: GetAvailInum_def ec_getinode_def GetInodeNum_def split: net.splits)
qed

lemma GetAvailInum_kind:
  assumes "srv_has s 1" and "GetAvailInum en b s = Some ino" and "ino \<noteq> 0"
  shows "isfile ino = b"
proof -
  have "inode_loop (ye_draws en) b (ec_srv (y_ec s)) = Some ino"
    using assms(2,3) by (auto simp: GetAvailInum_def ec_getinode_def GetInodeNum_def split: net.splits if_splits)
  then obtain d where d: "file_block (ec_srv (y_ec s)) ino = None" "ino = draw_ino b d"
    using inode_loop_Some by blast
  then have "ino \<noteq> 1"
    using assms(1) by (auto simp: srv_has_def)
  then show ?thesis
    using d(2) draw_ino_kind by (simp only: isfile_def)
qed

section \<open>Simulation\<close>

lemma yfs_inv_alt: "yfs_inv s \<longleftrightarrow> srv_has s 1 \<and> dirs_ok (cc_abs (y_ec s))"
  by (simp add: yfs_inv_def srv_has_def)

lemma delivered_x [simp]: "delivered en \<Longrightarrow> xe_net (ye_x en n) = Delivered" "delivered en \<Longrightarrow> xe_net2 (ye_x en n) = Delivered"
  by (simp_all add: delivered_def)

lemma srv_has_event [simp]:
  "srv_has (YfsLock i s) = srv_has s" "srv_has (YfsLock_delete i s) = srv_has s" "srv_has (y_event v s) = srv_has s"
  by (simp_all add: srv_has_def fun_eq_iff)

lemma sim_read:
  assumes "yfs_inv s" and "yfs_allowed (en, O_read ino sz off) s"
  shows "yfs_sim (en, O_read ino sz off) s"
proof -
  obtain c where c: "cc_abs (y_ec s) ino = Some c"
    using assms(2) by auto
  then have f: "file_at (fs_abs s) ino = c"
    using assms(2) by (simp add: fs_abs_def file_at_fs)
  obtain t where t: "getdata (ye_x en 0) ino [] (YfsLock ino s) = (Y_OK, c, t)" "cc_abs (y_ec t) = cc_abs (y_ec s)" "srv_has t = srv_has s"
    using getdata_ok [of "YfsLock ino s" ino c "ye_x en 0" "[]"] c assms(2) by auto
  have "yfs_read en ino sz off [] s = (Y_OK, take (unat sz) (drop (unat off) c), YfsLock_delete ino t)"
    using yfs_read_bytes [of c off sz] assms(2) f by (simp add: yfs_read_def t) (auto split: if_splits)
  then show ?thesis
    using assms(1) t f by (simp add: yfs_sim_def yfs_inv_alt fs_abs_def)
qed

lemma sim_update:
  assumes "yfs_inv s" and "delivered en" and "isfile ino" and "cc_abs (y_ec s) ino = Some c"
  shows "\<exists>t u. getdata (ye_x en 0) ino [] (YfsLock ino s) = (Y_OK, c, t) \<and> putdata (ye_x en 1) ino c' t = (Y_OK, u)
    \<and> yfs_inv (YfsLock_delete ino u) \<and> fs_abs (YfsLock_delete ino u) = (fs_abs s)(ino \<mapsto> File c')"
proof -
  obtain t where t: "getdata (ye_x en 0) ino [] (YfsLock ino s) = (Y_OK, c, t)" "cc_abs (y_ec t) = cc_abs (y_ec s)" "srv_has t = srv_has s"
    using getdata_ok [of "YfsLock ino s" ino c "ye_x en 0" "[]"] assms by auto
  obtain u where u: "putdata (ye_x en 1) ino c' t = (Y_OK, u)" "cc_abs (y_ec u) = (cc_abs (y_ec t))(ino \<mapsto> c')" "srv_has u = srv_has t"
    using putdata_ok by blast
  have "yfs_inv (YfsLock_delete ino u)"
    using assms(1,3) t u dirs_ok_upd [of "cc_abs (y_ec s)" ino "Some c'"] by (simp add: yfs_inv_alt isdir_def)
  moreover have "fs_abs (YfsLock_delete ino u) = (fs_abs s)(ino \<mapsto> File c')"
    using t u assms(3) by (simp add: fs_abs_def fs_of_upd node_of_def)
  ultimately show ?thesis
    using t u by blast
qed

lemma sim_write:
  assumes "yfs_inv s" and "yfs_allowed (en, O_write ino off buf) s"
  shows "yfs_sim (en, O_write ino off buf) s"
proof -
  obtain c where c: "cc_abs (y_ec s) ino = Some c"
    using assms(2) by auto
  then have f: "file_at (fs_abs s) ino = c"
    using assms(2) by (simp add: fs_abs_def file_at_fs)
  then have "write_bytes off buf c = pwrite (unat off) buf c"
    using assms(2) by (intro write_bytes_pwrite) auto
  then show ?thesis
    using sim_update [OF assms(1) _ _ c, of en "pwrite (unat off) buf c"] assms(2) f
    by (auto simp: yfs_sim_def yfs_write_def)
qed

lemma sim_setattr:
  assumes "yfs_inv s" and "yfs_allowed (en, O_setattr ino n) s"
  shows "yfs_sim (en, O_setattr ino n) s"
proof -
  obtain c where c: "cc_abs (y_ec s) ino = Some c"
    using assms(2) by auto
  then have f: "file_at (fs_abs s) ino = c"
    using assms(2) by (simp add: fs_abs_def file_at_fs)
  then show ?thesis
    using sim_update [OF assms(1) _ _ c, of en "str_resize n c"] assms(2)
    by (auto simp: yfs_sim_def yfs_setattr_def)
qed

text \<open>Every directory operation begins by reading the directory.\<close>

lemma read_dir_ok:
  assumes "yfs_inv s" and "delivered en" and "isdir p" and "fs_abs s p \<noteq> None"
  obtains c t where "cc_abs (y_ec s) p = Some c" and "getdata (ye_x en 0) p [] (YfsLock p s) = (Y_OK, c, t)"
    and "cc_abs (y_ec t) = cc_abs (y_ec s)" and "srv_has t = srv_has s" and "dir_data c (dir_at (fs_abs s) p)"
    and "dir_block (StringToDirForm (ye_mem en) c dir_form_new) = dir_at (fs_abs s) p"
    and "\<And>j. j \<noteq> p \<Longrightarrow> ec_cache (y_ec t) j = ec_cache (y_ec s) j"
proof -
  obtain c where c: "cc_abs (y_ec s) p = Some c"
    using assms(4) by auto
  obtain t where "getdata (ye_x en 0) p [] (YfsLock p s) = (Y_OK, c, t)" "cc_abs (y_ec t) = cc_abs (y_ec s)" "srv_has t = srv_has s"
    "\<And>j. j \<noteq> p \<Longrightarrow> ec_cache (y_ec t) j = ec_cache (y_ec s) j"
    using getdata_ok [of "YfsLock p s" p c "ye_x en 0" "[]"] c assms(2) by auto
  moreover have "dir_data c (dir_at (fs_abs s) p)"
    using dir_at_fs [of p "cc_abs (y_ec s)" c] c assms(1,3) by (simp add: yfs_inv_alt fs_abs_def)
  ultimately show ?thesis
    using c dir_data_read that by blast
qed

lemma sim_lookup:
  assumes "yfs_inv s" and "yfs_allowed (en, O_lookup p name) s"
  shows "yfs_sim (en, O_lookup p name) s"
proof -
  obtain c t where "getdata (ye_x en 0) p [] (YfsLock p s) = (Y_OK, c, t)" "cc_abs (y_ec t) = cc_abs (y_ec s)" "srv_has t = srv_has s"
    "dir_block (StringToDirForm (ye_mem en) c dir_form_new) = dir_at (fs_abs s) p"
    using read_dir_ok [OF assms(1), of en p] assms(2) by (metis yfs_allowed.simps(4))
  then show ?thesis
    using assms(1)
    by (cases "map_of (dir_at (fs_abs s) p) (str_resize MAX_ITEM_NAME_LEN name)")
      (simp_all add: yfs_sim_def yfs_lookup_def yfs_inv_alt fs_abs_def Let_def)
qed

lemma sim_readdir:
  assumes "yfs_inv s" and "yfs_allowed (en, O_readdir ino) s"
  shows "yfs_sim (en, O_readdir ino) s"
proof -
  obtain c t where "getdata (ye_x en 0) ino [] (YfsLock ino s) = (Y_OK, c, t)" "cc_abs (y_ec t) = cc_abs (y_ec s)" "srv_has t = srv_has s"
    "dir_block (StringToDirForm (ye_mem en) c dir_form_new) = dir_at (fs_abs s) ino"
    using read_dir_ok [OF assms(1), of en ino] assms(2) by (metis yfs_allowed.simps(5))
  then show ?thesis
    using assms(1) by (auto simp: yfs_sim_def yfs_readdir_def yfs_inv_alt fs_abs_def)
qed

lemma add_entry_ok:
  assumes "yfs_inv s" and "isdir p" and "isfile ino = b"
    and "dir_block f = d" and "om_wf d" and "names_ok d" and "length d < 2 ^ 31 - 1" and "length nm = MAX_ITEM_NAME_LEN"
  shows "\<exists>t. add_entry en b p nm f ino s = (Y_OK, t) \<and> yfs_inv t \<and> srv_has t = srv_has s
    \<and> fs_abs t = (fs_abs s)(p \<mapsto> Dir (om_put nm ino d), ino \<mapsto> (if b then File [] else Dir []))"
proof -
  let ?f = "f\<lparr>dir_block := om_put nm ino (dir_block f)\<rparr>"
  have dd: "dir_data (fst (DirFormToString ?f)) (om_put nm ino d)"
    using assms(4-8) length_om_put [of nm ino d] by (intro dir_data_string) (auto simp: names_ok_put)
  obtain t1 where t1: "putdata (ye_x en 1) p (fst (DirFormToString ?f)) s = (Y_OK, t1)"
    "cc_abs (y_ec t1) = (cc_abs (y_ec s))(p \<mapsto> fst (DirFormToString ?f))" "srv_has t1 = srv_has s"
    using putdata_ok by blast
  obtain t2 fd where t2: "putdata (ye_x en 2) ino [] t1 = (Y_OK, t2)" "cc_abs (y_ec t2) = (cc_abs (y_ec t1))(ino \<mapsto> [])"
    "srv_has t2 = srv_has t1" "ec_cache (y_ec t2) ino = Some fd" "fd_present fd"
    using putdata_ok by blast
  obtain info t where t: "getfile (ye_x en 3) ino \<lparr>fi_size = 0, fi_atime = 0, fi_mtime = 0, fi_ctime = 0\<rparr> t2 = (Y_OK, info, t)"
    "y_ec t = y_ec t2"
    using getfile_ok [OF t2(4,5)] by blast
  have "add_entry en b p nm f ino s = (Y_OK, t)"
    using t1 t2 t by (simp add: add_entry_def Let_def)
  moreover have "yfs_inv t"
  proof -
    have "dirs_ok ((cc_abs (y_ec s))(p \<mapsto> fst (DirFormToString ?f)))"
      using assms(1) dd by (intro dirs_ok_upd) (auto simp: yfs_inv_alt)
    then have "dirs_ok (cc_abs (y_ec t))"
      unfolding t(2) t2(2) t1(2) by (rule dirs_ok_upd) (auto intro: dir_data_new)
    moreover have "srv_has t 1"
      using assms(1) t t1 t2 by (simp add: yfs_inv_alt srv_has_def fun_eq_iff)
    ultimately show ?thesis
      by (simp add: yfs_inv_alt)
  qed
  moreover have "fs_abs t = (fs_abs s)(p \<mapsto> Dir (om_put nm ino d), ino \<mapsto> (if b then File [] else Dir []))"
    using t1 t2 t assms(3) node_of_dir [OF assms(2) dd] node_of_dir [OF _ dir_data_new, of ino]
    by (auto simp: fs_abs_def fs_of_upd node_of_def isdir_def)
  moreover have "srv_has t = srv_has s"
    using t t1 t2 by (simp add: srv_has_def fun_eq_iff)
  ultimately show ?thesis
    by blast
qed

lemma sim_make:
  assumes "yfs_inv s" and "make_allowed en b p ino s"
  shows "\<exists>st t i. make_node en b p name 0 s = Some (st, i, t) \<and> yfs_inv t \<and> srv_has t = srv_has s
    \<and> fs_make (if b then File [] else Dir []) p (str_resize MAX_ITEM_NAME_LEN name) ino (fs_abs s) =
        (if st = Y_OK then R_made i else R_status st, fs_abs t)"
proof -
  let ?nm = "str_resize MAX_ITEM_NAME_LEN name" and ?d = "dir_at (fs_abs s) p"
  have al: "delivered en" "isdir p" "fs_abs s p \<noteq> None" "length ?d < 2 ^ 31 - 1" "GetAvailInum en b s = Some ino"
    using assms(2) by (simp_all add: make_allowed_def)
  obtain c t where t: "cc_abs (y_ec s) p = Some c" "getdata (ye_x en 0) p [] (YfsLock p s) = (Y_OK, c, t)"
    "cc_abs (y_ec t) = cc_abs (y_ec s)" "srv_has t = srv_has s" "dir_data c ?d"
    "dir_block (StringToDirForm (ye_mem en) c dir_form_new) = ?d"
    using read_dir_ok [OF assms(1) al(1-3)] by metis
  have inv: "yfs_inv t" "yfs_inv (YfsLock_delete p t)" "fs_abs (YfsLock_delete p t) = fs_abs s" "fs_abs t = fs_abs s"
    using assms(1) t by (simp_all add: yfs_inv_alt fs_abs_def)
  have g: "GetAvailInum en b t = Some ino"
    using al(5) GetAvailInum_dom [OF t(4)] by simp
  consider "map_of ?d ?nm \<noteq> None" | "map_of ?d ?nm = None" "ino = 0" | "map_of ?d ?nm = None" "ino \<noteq> 0"
    by blast
  then show ?thesis
  proof cases
    case 3
    have k: "isfile ino = b"
      using GetAvailInum_kind [OF _ g] 3 assms(1) t by (simp add: yfs_inv_alt)
    obtain u where u: "add_entry en b p ?nm (StringToDirForm (ye_mem en) c dir_form_new) ino t = (Y_OK, u)" "yfs_inv u" "srv_has u = srv_has t"
      "fs_abs u = (fs_abs t)(p \<mapsto> Dir (om_put ?nm ino ?d), ino \<mapsto> (if b then File [] else Dir []))"
      using add_entry_ok [OF inv(1) al(2) k t(6) _ _ al(4), of ?nm en] t(5) unfolding dir_data_def by auto
    then show ?thesis
      using 3 t g inv by (auto simp: make_node_def fs_make_def yfs_inv_alt fs_abs_def Let_def)
  qed (use t g inv in \<open>auto simp: make_node_def fs_make_def Let_def\<close>)
qed

lemma sim_unlink:
  assumes "yfs_inv s" and "yfs_allowed (en, O_unlink p name) s"
  shows "yfs_sim (en, O_unlink p name) s"
proof -
  let ?nm = "str_resize MAX_ITEM_NAME_LEN name" and ?d = "dir_at (fs_abs s) p"
  have al: "delivered en" "isdir p" "fs_abs s p \<noteq> None"
    using assms(2) by simp_all
  obtain c t where t: "cc_abs (y_ec s) p = Some c" "getdata (ye_x en 0) p [] (YfsLock p s) = (Y_OK, c, t)"
    "cc_abs (y_ec t) = cc_abs (y_ec s)" "srv_has t = srv_has s" "dir_data c ?d"
    "dir_block (StringToDirForm (ye_mem en) c dir_form_new) = ?d"
    "\<And>j. j \<noteq> p \<Longrightarrow> ec_cache (y_ec t) j = ec_cache (y_ec s) j"
    using read_dir_ok [OF assms(1) al(1-3)] by metis
  have inv: "yfs_inv (YfsLock_delete p t)" "fs_abs (YfsLock_delete p t) = fs_abs s"
    using assms(1) t by (simp_all add: yfs_inv_alt fs_abs_def)
  consider "map_of ?d ?nm = None" | i where "map_of ?d ?nm = Some i" "\<not> isfile i" | i where "map_of ?d ?nm = Some i" "isfile i"
    by blast
  then show ?thesis
  proof cases
    case (3 i)
    have ip: "i \<noteq> p" "i \<noteq> 1"
      using 3(2) al(2) by (auto simp: isdir_def isfile_def)
    let ?f = "(StringToDirForm (ye_mem en) c dir_form_new)\<lparr>dir_block := om_erase ?nm (dir_block (StringToDirForm (ye_mem en) c dir_form_new))\<rparr>"
    have dd: "dir_data (fst (DirFormToString ?f)) (om_erase ?nm ?d)"
      using t(5,6) length_om_erase [of ?nm ?d] unfolding dir_data_def [of c]
      by (intro dir_data_string) (simp_all add: names_ok_erase)
    obtain u where u: "putdata (ye_x en 1) p (fst (DirFormToString ?f)) t = (Y_OK, u)"
      "cc_abs (y_ec u) = (cc_abs (y_ec t))(p \<mapsto> fst (DirFormToString ?f))" "srv_has u = srv_has t"
      "\<And>j. j \<noteq> p \<Longrightarrow> ec_cache (y_ec u) j = ec_cache (y_ec t) j"
      using putdata_ok by blast
    have a: "cc_abs (y_ec s) i \<noteq> None" "ec_cache (y_ec s) i = None \<or> \<not> srv_has s i"
      using assms(2) 3(1) by (simp_all add: srv_has_def del: not_None_eq)
    obtain v where v: "y_remove (ye_x en 2) i (YfsLock i u) = (ext_OK, v)"
      "cc_abs (y_ec v) = (cc_abs (y_ec u))(i := None)" "\<And>j. j \<noteq> i \<Longrightarrow> srv_has v j = srv_has u j"
      using y_remove_ok [of "YfsLock i u" i "ye_x en 2"] a ip u(2-4) t(3,4,7) al(1) by (auto simp: srv_has_def fun_eq_iff simp del: not_None_eq)
    let ?v = "YfsLock_delete p (YfsLock_delete i v)"
    have "yfs_unlink en p name s = (Y_OK, ?v)"
      using t u v 3 by (simp add: yfs_unlink_def Let_def)
    moreover have "dirs_ok (cc_abs (y_ec v))"
      unfolding v(2) u(2) t(3) using assms(1) dd by (intro dirs_ok_upd) (auto simp: yfs_inv_alt)
    moreover have "srv_has v 1"
      using v(3) [of 1] u(3) t(4) ip assms(1) by (simp add: yfs_inv_alt)
    moreover have "fs_abs ?v = (fs_abs s)(p \<mapsto> Dir (om_erase ?nm ?d), i := None)"
      using node_of_dir [OF al(2) dd] by (simp add: fs_abs_def v(2) u(2) t(3) fs_of_upd)
    ultimately show ?thesis
      using 3 by (simp add: yfs_sim_def yfs_inv_alt)
  qed (use t inv in \<open>auto simp: yfs_sim_def yfs_unlink_def Let_def\<close>)
qed

lemma sim_create:
  assumes "yfs_inv s" and "yfs_allowed (en, O_create p name ino) s"
  shows "yfs_sim (en, O_create p name ino) s"
proof -
  obtain st t i where "make_node en True p name 0 s = Some (st, i, t)" "yfs_inv t"
    "fs_make (File []) p (str_resize MAX_ITEM_NAME_LEN name) ino (fs_abs s) = (if st = Y_OK then R_made i else R_status st, fs_abs t)"
    using sim_make [of s en True p ino name] assms by auto
  then show ?thesis
    by (simp add: yfs_sim_def yfs_create_def)
qed

lemma sim_mkdir:
  assumes "yfs_inv s" and "yfs_allowed (en, O_mkdir p name ino) s"
  shows "yfs_sim (en, O_mkdir p name ino) s"
proof -
  obtain st t i where "make_node en False p name 0 s = Some (st, i, t)" "yfs_inv t"
    "fs_make (Dir []) p (str_resize MAX_ITEM_NAME_LEN name) ino (fs_abs s) = (if st = Y_OK then R_made i else R_status st, fs_abs t)"
    using sim_make [of s en False p ino name] assms by auto
  then show ?thesis
    by (simp add: yfs_sim_def yfs_mkdir_def)
qed

lemmas sims = sim_read sim_write sim_setattr sim_lookup sim_readdir sim_create sim_mkdir sim_unlink

lemma yfs_simulates:
  assumes "yfs_inv s" and "yfs_allowed ex s"
  shows "yfs_sim ex s"
proof -
  obtain en x where "ex = (en, x)"
    by fastforce
  then show ?thesis
    using assms by (cases x) (simp_all only: sims)
qed

interpretation yfs_fs: data_refinement yfs_inv yfs_allowed yfs_exec fs_abs fs_spec
  by (rule data_refinement.intro) (simp_all only: yfs_simulates [unfolded yfs_sim_def])

lemma yfs_new_inv: "yfs_inv (yfs_new now)"
  by (auto simp: yfs_inv_def yfs_new_def extent_server_new_def es_put_def dirs_ok_def cc_abs_def entry_abs_def Let_def intro: dir_data_new)

lemma yfs_new_abs: "fs_abs (yfs_new now) = [1 \<mapsto> Dir []]"
  by (auto simp: fs_abs_def fs_of_def yfs_new_def extent_server_new_def es_put_def cc_abs_def entry_abs_def node_of_def isfile_def
      dirform_empty dir_form_new_def Let_def fun_eq_iff)

section \<open>Locks\<close>

lemma y_log_sel [simp]:
  "y_log (YfsLock i s) = y_log s @ [Acq i]" "y_log (YfsLock_delete i s) = y_log s @ [Rel i]"
  by (simp_all add: YfsLock_def YfsLock_delete_def y_event_def)

lemma access_log:
  "getdata e i b s = (r, c, t) \<Longrightarrow> y_log t = y_log s @ [Use i]"
  "putdata e i c s = (r, t) \<Longrightarrow> y_log t = y_log s @ [Use i]"
  "y_remove e i s = (r', t) \<Longrightarrow> y_log t = y_log s @ [Use i]"
  "getfile e i fin s = (r, info, t) \<Longrightarrow> y_log t = y_log s @ [Acq i, Rel i, Use i]"
  by (auto simp: getdata_def putdata_def y_remove_def getfile_def y_getattr_def y_event_def Let_def split: prod.splits if_splits)

lemma putdata_status [simp]: "fst (putdata e i c s) = Y_OK"
  by (simp add: putdata_def cc_put_def Let_def)

lemma add_entry_log:
  "\<exists>t. add_entry en b p nm f ino s = (Y_OK, t) \<and> y_log t = y_log s @ [Use p, Use ino, Acq ino, Rel ino, Use ino]"
proof -
  let ?f = "f\<lparr>dir_block := om_put nm ino (dir_block f)\<rparr>"
  obtain t1 where t1: "putdata (ye_x en 1) p (fst (DirFormToString ?f)) s = (Y_OK, t1)"
    using putdata_ok by blast
  obtain t2 fd where t2: "putdata (ye_x en 2) ino [] t1 = (Y_OK, t2)" "ec_cache (y_ec t2) ino = Some fd" "fd_present fd"
    using putdata_ok by blast
  obtain info t where t: "getfile (ye_x en 3) ino \<lparr>fi_size = 0, fi_atime = 0, fi_mtime = 0, fi_ctime = 0\<rparr> t2 = (Y_OK, info, t)"
    using getfile_ok [OF t2(2,3)] by blast
  have "y_log t1 = y_log s @ [Use p]" "y_log t2 = y_log t1 @ [Use ino]" "y_log t = y_log t2 @ [Acq ino, Rel ino, Use ino]"
    by (rule access_log(2) [OF t1] access_log(2) [OF t2(1)] access_log(4) [OF t])+
  then show ?thesis
    using t1 t2 t by (simp add: add_entry_def Let_def)
qed

lemma make_node_log:
  assumes "make_node en b p name i0 s = Some (st, i, t)"
  shows "(st = Y_OK \<and> y_log t = y_log s @ [Acq p, Use p, Use p, Use i, Acq i, Rel i, Use i, Rel p])
    \<or> (st \<noteq> Y_OK \<and> y_log t = y_log s @ [Acq p, Use p, Rel p])"
proof -
  obtain ret data u where g: "getdata (ye_x en 0) p [] (YfsLock p s) = (ret, data, u)"
    by (metis surj_pair)
  then have u: "y_log u = y_log s @ [Acq p, Use p]"
    using access_log(1) [OF g] by simp
  show ?thesis
    using assms u add_entry_log [of en b p "str_resize MAX_ITEM_NAME_LEN name" "StringToDirForm (ye_mem en) data dir_form_new" i u]
    by (auto simp: make_node_def g Let_def split: if_splits option.splits prod.splits)
qed

lemma unlink_log:
  assumes "yfs_unlink en p name s = (st, t)"
  shows "y_log t = y_log s @ [Acq p, Use p, Rel p] \<or> y_log t = y_log s @ [Acq p, Use p, Use p, Rel p]
    \<or> (\<exists>i. y_log t = y_log s @ [Acq p, Use p, Use p, Acq i, Use i, Rel i, Rel p])"
  using assms
  by (auto simp: yfs_unlink_def Let_def dest!: access_log split: prod.splits if_splits option.splits)

lemma update_log:
  "yfs_write en ino off buf s = (st, t) \<Longrightarrow> \<exists>l. y_log t = y_log s @ l \<and> uses_locked {} l"
  "yfs_setattr en ino n s = (st, t) \<Longrightarrow> \<exists>l. y_log t = y_log s @ l \<and> uses_locked {} l"
  by (auto simp: yfs_write_def yfs_setattr_def dest!: access_log split: prod.splits if_splits)

lemma read_log:
  "yfs_read en ino sz off buf s = (st, b, t) \<Longrightarrow> y_log t = y_log s @ [Acq ino, Use ino, Rel ino]"
  "yfs_lookup en p name fnd i s = (st, fnd', i', t) \<Longrightarrow> y_log t = y_log s @ [Acq p, Use p, Rel p]"
  "yfs_readdir en d ino s = (st, d', t) \<Longrightarrow> y_log t = y_log s @ [Acq ino, Use ino, Rel ino]"
  by (auto simp: yfs_read_def yfs_lookup_def yfs_readdir_def Let_def dest!: access_log split: prod.splits if_splits option.splits)

lemma made_log:
  assumes "made s (make_node en b p name i0 s) = (ans, t)"
  shows "\<exists>l. y_log t = y_log s @ l \<and> (uses_locked {} l \<longleftrightarrow> (\<forall>i. ans \<noteq> R_made i))"
proof (cases "make_node en b p name i0 s")
  case (Some r)
  obtain st i u where "r = (st, i, u)"
    by (metis surj_pair)
  then show ?thesis
    using make_node_log [of en b p name i0 s st i u] Some assms by auto
qed (use assms in auto)

lemma example_make: "make_allowed (calm_en [5]) True 1 0x80000005 (yfs_new 5)"
proof -
  have "draw_ino True 5 = 0x80000005"
    by (simp add: draw_ino_def)
  then have "GetAvailInum (calm_en [5]) True (yfs_new 5) = Some 0x80000005"
    by (simp add: GetAvailInum_def ec_getinode_def GetInodeNum_def calm_en_def yfs_new_def extent_server_new_def es_put_def Let_def)
  then show ?thesis
    by (simp add: make_allowed_def yfs_new_abs dir_at_def isdir_def isfile_def delivered_def calm_en_def calm_def del: fs_abs_None)
qed

section \<open>Properties\<close>



text \<open>Two files can get the same inode number. The server takes a number for fresh that no stored extent
  has, but the extent of a new file stays in the cache of its creator until the file's lock is
  revoked: a second create that draws the same random number, which depends on the microseconds of
  the clock only, gives a second name to the same inode and empties it.\<close>

theorem create_reissues_inode:
  assumes "yfs_inv s" and "make_allowed en True p ino s" and "ino \<noteq> 0" and "length (dir_at (fs_abs s) p) < 2 ^ 31 - 2"
    and "str_resize MAX_ITEM_NAME_LEN n1 \<noteq> str_resize MAX_ITEM_NAME_LEN n2" and "p \<noteq> ino"
    and "map_of (dir_at (fs_abs s) p) (str_resize MAX_ITEM_NAME_LEN n1) = None"
    and "map_of (dir_at (fs_abs s) p) (str_resize MAX_ITEM_NAME_LEN n2) = None"
  shows "\<exists>t u. yfs_create en p n1 0 s = Some (Y_OK, ino, t) \<and> yfs_create en p n2 0 t = Some (Y_OK, ino, u)
    \<and> map_of (dir_at (fs_abs u) p) (str_resize MAX_ITEM_NAME_LEN n1) = Some ino
    \<and> map_of (dir_at (fs_abs u) p) (str_resize MAX_ITEM_NAME_LEN n2) = Some ino \<and> fs_abs u ino = Some (File [])"
proof -
  let ?d = "dir_at (fs_abs s) p" and ?n1 = "str_resize MAX_ITEM_NAME_LEN n1" and ?n2 = "str_resize MAX_ITEM_NAME_LEN n2"
  obtain t st i where t: "make_node en True p n1 0 s = Some (st, i, t)" "yfs_inv t" "srv_has t = srv_has s"
    "fs_make (File []) p ?n1 ino (fs_abs s) = (if st = Y_OK then R_made i else R_status st, fs_abs t)"
    using sim_make [OF assms(1,2), of n1] by auto
  then have t': "st = Y_OK" "i = ino" "fs_abs t = (fs_abs s)(p \<mapsto> Dir (om_put ?n1 ino ?d), ino \<mapsto> File [])"
    using assms(3,7) by (auto simp: fs_make_def split: if_splits)
  have dt: "dir_at (fs_abs t) p = om_put ?n1 ino ?d"
    using t'(3) assms(6) by (simp add: dir_at_def)
  have "make_allowed en True p ino t"
    using assms(2,4,6) dt length_om_put [of ?n1 ino ?d] GetAvailInum_dom [OF t(3)] t'(3)
    by (simp add: make_allowed_def del: fs_abs_None)
  then obtain u st' i' where u: "make_node en True p n2 0 t = Some (st', i', u)"
    "fs_make (File []) p ?n2 ino (fs_abs t) = (if st' = Y_OK then R_made i' else R_status st', fs_abs u)"
    using sim_make [OF t(2), of en True p ino n2] by auto
  then have u': "st' = Y_OK" "i' = ino" "fs_abs u = (fs_abs t)(p \<mapsto> Dir (om_put ?n2 ino (om_put ?n1 ino ?d)), ino \<mapsto> File [])"
    using assms(3,5,8) dt by (auto simp: fs_make_def split: if_splits)
  have "dir_at (fs_abs u) p = om_put ?n2 ino (om_put ?n1 ino ?d)"
    using u'(3) assms(6) by (simp add: dir_at_def)
  then show ?thesis
    using t t' u u' assms(5) by (simp add: yfs_create_def)
qed

theorem create_reissues_inode_witness:
  "\<exists>t u. yfs_create (calm_en [5]) 1 ''a'' 0 (yfs_new 5) = Some (Y_OK, 0x80000005, t)
     \<and> yfs_create (calm_en [5]) 1 ''b'' 0 t = Some (Y_OK, 0x80000005, u)
     \<and> map_of (dir_at (fs_abs u) 1) (str_resize MAX_ITEM_NAME_LEN ''a'') = Some 0x80000005
     \<and> map_of (dir_at (fs_abs u) 1) (str_resize MAX_ITEM_NAME_LEN ''b'') = Some 0x80000005"
proof -
  have "str_resize MAX_ITEM_NAME_LEN ''a'' \<noteq> str_resize MAX_ITEM_NAME_LEN ''b''"
    by (simp add: str_resize_def MAX_ITEM_NAME_LEN_def)
  then show ?thesis
    using create_reissues_inode [OF yfs_new_inv example_make, of "''a''" "''b''"]
    by (auto simp: yfs_new_abs dir_at_def [of "[_ \<mapsto> _]"])
qed


end
