(* ===== verification/Fuse.thy ===== *)
theory Fuse
  imports Yfs
begin

text \<open>
  The FUSE handlers (fuse.cc): each takes a request, calls \<open>yfs_client\<close> and sends one reply.

  \<^item> A handler returns its reply and the new state. Its environment gives one \<open>yenv\<close> per call of
    \<open>yfs_client\<close>; \<open>None\<close> is a handler that never replies, because the inode generator does not return.
  \<^item> \<open>fuse_dirent_size\<close> and \<open>fuse_add_dirent\<close> belong to libfuse and are parameters: the size of a directory
    record for a name of a given length, and the record for a name, an inode and an offset.
\<close>

section \<open>Replies\<close>

datatype errno = NO_ERROR | ENOENT | EEXIST | ENOSYS | ENOTDIR

datatype st_mode = Mode_none | Mode_file | Mode_dir

record fstat =
  st_ino :: u64
  st_mode :: st_mode
  st_nlink :: nat
  st_atime :: u64
  st_mtime :: u64
  st_ctime :: u64
  st_size :: u64

record fuse_entry =
  fe_ino :: u64
  fe_attr :: fstat

datatype fuse_reply = F_err errno | F_attr fstat | F_buf string | F_write u64 | F_create fuse_entry | F_entry fuse_entry
  | F_open | F_statfs nat nat

type_synonym fenv = "nat \<Rightarrow> yenv"

section \<open>Attributes\<close>

definition fstat_zero :: "u64 \<Rightarrow> fstat" where
  "fstat_zero inum = \<lparr>st_ino = inum, st_mode = Mode_none, st_nlink = 0, st_atime = 0, st_mtime = 0, st_ctime = 0, st_size = 0\<rparr>"

definition fuse_getattr :: "xenv \<Rightarrow> u64 \<Rightarrow> yfs \<Rightarrow> yfs_status \<times> fstat \<times> yfs" where
  "fuse_getattr e inum s =
     (let st = fstat_zero inum
      in if isfile inum
         then let (ret, info, s) = getfile e inum \<lparr>fi_size = 0, fi_atime = 0, fi_mtime = 0, fi_ctime = 0\<rparr> s
              in if ret \<noteq> Y_OK then (ret, st, s)
                 else (Y_OK, st\<lparr>st_mode := Mode_file, st_nlink := 1, st_atime := fi_atime info, st_mtime := fi_mtime info,
                               st_ctime := fi_ctime info, st_size := fi_size info\<rparr>, s)
         else let (ret, info, s) = getdir e inum \<lparr>di_atime = 0, di_mtime = 0, di_ctime = 0\<rparr> s
              in if ret \<noteq> Y_OK then (ret, st, s)
                 else (Y_OK, st\<lparr>st_mode := Mode_dir, st_nlink := 2, st_atime := di_atime info, st_mtime := di_mtime info,
                               st_ctime := di_ctime info\<rparr>, s))"

definition fuseserver_getattr :: "fenv \<Rightarrow> u64 \<Rightarrow> yfs \<Rightarrow> fuse_reply \<times> yfs" where
  "fuseserver_getattr en ino s =
     (let (ret, st, s) = fuse_getattr (ye_x (en 0) 0) ino s in (if ret \<noteq> Y_OK then F_err ENOENT else F_attr st, s))"

definition fuseserver_setattr :: "fenv \<Rightarrow> u64 \<Rightarrow> nat \<Rightarrow> bool \<Rightarrow> yfs \<Rightarrow> fuse_reply \<times> yfs" where
  "fuseserver_setattr en ino sz set_size s =
     (if set_size
      then let (ret, s) = yfs_setattr (en 0) ino sz s
           in if ret \<noteq> Y_OK then (F_err ENOSYS, s)
              else let (ret, st, s) = fuse_getattr (ye_x (en 1) 0) ino s in (if ret \<noteq> Y_OK then F_err ENOSYS else F_attr st, s)
      else (F_err ENOSYS, s))"

section \<open>Files\<close>

definition fuseserver_read :: "fenv \<Rightarrow> u64 \<Rightarrow> u64 \<Rightarrow> u64 \<Rightarrow> yfs \<Rightarrow> fuse_reply \<times> yfs" where
  "fuseserver_read en ino sz off s =
     (let (ret, buf, s) = yfs_read (en 0) ino sz off [] s in (if ret \<noteq> Y_OK then F_err ENOENT else F_buf buf, s))"

definition fuseserver_write :: "fenv \<Rightarrow> u64 \<Rightarrow> string \<Rightarrow> u64 \<Rightarrow> yfs \<Rightarrow> fuse_reply \<times> yfs" where
  "fuseserver_write en ino buf off s =
     (let (ret, s) = yfs_write (en 0) ino off buf s
      in (if ret \<noteq> Y_OK then F_err ENOENT else F_write (of_nat (length buf)), s))"

section \<open>Entries\<close>

definition fuseserver_createhelper :: "fenv \<Rightarrow> u64 \<Rightarrow> string \<Rightarrow> yfs \<Rightarrow> (yfs_status \<times> fuse_entry \<times> yfs) option" where
  "fuseserver_createhelper en parent name s =
     map_option (\<lambda>(ret, inum, s).
         if ret \<noteq> Y_OK then (ret, \<lparr>fe_ino = 0, fe_attr = fstat_zero 0\<rparr>, s)
         else let (_, st, s) = fuse_getattr (ye_x (en 1) 0) inum s in (Y_OK, \<lparr>fe_ino = inum, fe_attr = st\<rparr>, s))
       (yfs_create (en 0) parent name 0 s)"

definition create_errno :: "yfs_status \<Rightarrow> errno" where
  "create_errno ret = (if ret = Y_EXIST then EEXIST else ENOENT)"

definition fuseserver_create :: "fenv \<Rightarrow> u64 \<Rightarrow> string \<Rightarrow> yfs \<Rightarrow> (fuse_reply \<times> yfs) option" where
  "fuseserver_create en parent name s =
     map_option (\<lambda>(ret, e, s). (if ret = Y_OK then F_create e else F_err (create_errno ret), s))
       (fuseserver_createhelper en parent name s)"

definition fuseserver_mknod :: "fenv \<Rightarrow> u64 \<Rightarrow> string \<Rightarrow> yfs \<Rightarrow> (fuse_reply \<times> yfs) option" where
  "fuseserver_mknod en parent name s =
     map_option (\<lambda>(ret, e, s). (if ret = Y_OK then F_entry e else F_err (create_errno ret), s))
       (fuseserver_createhelper en parent name s)"

definition fuseserver_lookup :: "fenv \<Rightarrow> u64 \<Rightarrow> string \<Rightarrow> yfs \<Rightarrow> fuse_reply \<times> yfs" where
  "fuseserver_lookup en parent name s =
     (let (ret, found, ino, s) = yfs_lookup (en 0) parent name False 0 s
      in if ret = Y_OK \<and> found
         then let (_, st, s) = fuse_getattr (ye_x (en 1) 0) ino s in (F_entry \<lparr>fe_ino = ino, fe_attr = st\<rparr>, s)
         else (F_err ENOENT, s))"

definition fuseserver_mkdir :: "fenv \<Rightarrow> u64 \<Rightarrow> string \<Rightarrow> yfs \<Rightarrow> (fuse_reply \<times> yfs) option" where
  "fuseserver_mkdir en parent name s =
     map_option (\<lambda>(ret, ino, s).
         if ret \<noteq> Y_OK then (F_err (create_errno ret), s)
         else let (ret, st, s) = fuse_getattr (ye_x (en 1) 0) ino s
              in (if ret \<noteq> Y_OK then F_err ENOENT else F_entry \<lparr>fe_ino = ino, fe_attr = st\<rparr>, s))
       (yfs_mkdir (en 0) parent name 0 s)"

definition fuseserver_unlink :: "fenv \<Rightarrow> u64 \<Rightarrow> string \<Rightarrow> yfs \<Rightarrow> fuse_reply \<times> yfs" where
  "fuseserver_unlink en parent name s =
     (let (ret, s) = yfs_unlink (en 0) parent name s in (F_err (if ret \<noteq> Y_OK then ENOENT else NO_ERROR), s))"

definition fuseserver_open :: "yfs \<Rightarrow> fuse_reply \<times> yfs" where
  "fuseserver_open s = (F_open, s)"

definition fuseserver_statfs :: "yfs \<Rightarrow> fuse_reply \<times> yfs" where
  "fuseserver_statfs s = (F_statfs 255 512, s)"

section \<open>Reading a directory\<close>

record dirbuf =
  db_p :: string
  db_size :: nat

definition c_str :: "string \<Rightarrow> string" where
  "c_str s = takeWhile (\<lambda>c. c \<noteq> NUL) s"

definition dirbuf_add ::
    "(nat \<Rightarrow> nat) \<Rightarrow> (string \<Rightarrow> u64 \<Rightarrow> nat \<Rightarrow> string) \<Rightarrow> string \<Rightarrow> u64 \<Rightarrow> dirbuf \<Rightarrow> dirbuf" where
  "dirbuf_add dirent_size add_dirent name ino b =
     (let sz = db_size b + dirent_size (length name)
      in \<lparr>db_p = take (db_size b) (db_p b) @ add_dirent name ino sz, db_size = sz\<rparr>)"

definition reply_buf_limited :: "string \<Rightarrow> nat \<Rightarrow> nat \<Rightarrow> nat \<Rightarrow> fuse_reply" where
  "reply_buf_limited buf bufsize off maxsize =
     (if off < bufsize then F_buf (take (if bufsize - off < maxsize then bufsize - off else maxsize) (drop off buf)) else F_buf [])"

definition dir_records :: "(nat \<Rightarrow> nat) \<Rightarrow> (string \<Rightarrow> u64 \<Rightarrow> nat \<Rightarrow> string) \<Rightarrow> dir_map \<Rightarrow> dirbuf" where
  "dir_records dirent_size add_dirent d =
     foldl (\<lambda>b (name, ino). dirbuf_add dirent_size add_dirent (c_str name) ino b) \<lparr>db_p = [], db_size = 0\<rparr> d"

definition fuseserver_readdir ::
    "(nat \<Rightarrow> nat) \<Rightarrow> (string \<Rightarrow> u64 \<Rightarrow> nat \<Rightarrow> string) \<Rightarrow> fenv \<Rightarrow> u64 \<Rightarrow> nat \<Rightarrow> nat \<Rightarrow> yfs \<Rightarrow> fuse_reply \<times> yfs" where
  "fuseserver_readdir dirent_size add_dirent en ino sz off s =
     (if \<not> isdir ino then (F_err ENOTDIR, s)
      else let (ret, d, s) = yfs_readdir (en 0) dir_form_new ino s;
               b = dir_records dirent_size add_dirent (dir_block d)
           in (reply_buf_limited (db_p b) (db_size b) off sz, s))"

text \<open>The kernel reads a directory with successive requests, each continuing where the last reply ended.\<close>

fun read_pages ::
    "(nat \<Rightarrow> nat) \<Rightarrow> (string \<Rightarrow> u64 \<Rightarrow> nat \<Rightarrow> string) \<Rightarrow> nat \<Rightarrow> fenv \<Rightarrow> u64 \<Rightarrow> nat \<Rightarrow> nat \<Rightarrow> yfs \<Rightarrow> string option" where
  "read_pages ds ad 0 en ino sz off s = None"
| "read_pages ds ad (Suc n) en ino sz off s =
     (case fuseserver_readdir ds ad en ino sz off s of
        (F_buf b, s) \<Rightarrow> if b = [] then Some [] else map_option (append b) (read_pages ds ad n en ino sz (off + length b) s)
      | _ \<Rightarrow> None)"

definition example_ds :: "nat \<Rightarrow> nat" where
  "example_ds n = n + 24"

definition example_ad :: "string \<Rightarrow> u64 \<Rightarrow> nat \<Rightarrow> string" where
  "example_ad name ino off = replicate 24 NUL @ name"

section \<open>Paging\<close>

lemma dir_records_size:
  assumes "\<And>name ino n. length (ad name ino n) = ds (length name)"
  shows "length (db_p (dir_records ds ad d)) = db_size (dir_records ds ad d)"
proof -
  have "length (db_p b) = db_size b \<Longrightarrow>
      length (db_p (foldl (\<lambda>b (name, ino). dirbuf_add ds ad (c_str name) ino b) b d)) =
      db_size (foldl (\<lambda>b (name, ino). dirbuf_add ds ad (c_str name) ino b) b d)" for b
    by (induction d arbitrary: b) (auto simp: dirbuf_add_def assms Let_def)
  then show ?thesis
    by (simp add: dir_records_def)
qed

lemma reply_buf_limited_take: "length buf = n \<Longrightarrow> reply_buf_limited buf n off m = F_buf (take m (drop off buf))"
  by (auto simp: reply_buf_limited_def)

text \<open>Every readdir request sees the same directory, because reading leaves the contents alone.\<close>

lemma readdir_reply:
  assumes "yfs_inv s" and "delivered (en 0)" and "isdir ino" and "fs_abs s ino \<noteq> None"
    and "\<And>name ino n. length (ad name ino n) = ds (length name)"
  shows "\<exists>t. fuseserver_readdir ds ad en ino sz off s = (F_buf (take sz (drop off (db_p (dir_records ds ad (dir_at (fs_abs s) ino))))), t)
    \<and> yfs_inv t \<and> fs_abs t = fs_abs s"
proof -
  have al: "yfs_allowed (en 0, O_readdir ino) s"
    using assms(2-4) by (simp del: fs_abs_None)
  obtain st d t where r: "yfs_readdir (en 0) dir_form_new ino s = (st, d, t)"
    by (metis surj_pair)
  then have "st = Y_OK" "dir_block d = dir_at (fs_abs s) ino" "yfs_inv t" "fs_abs t = fs_abs s"
    using yfs_simulates [OF assms(1) al] by (auto simp: yfs_sim_def split: if_splits)
  then show ?thesis
    using assms(3) dir_records_size [of ad ds, OF assms(5)]
    by (simp add: fuseserver_readdir_def r reply_buf_limited_take Let_def)
qed

lemma read_pages_all:
  assumes "yfs_inv s" and "delivered (en 0)" and "isdir ino" and "fs_abs s ino \<noteq> None" and "0 < sz"
    and "\<And>name ino n. length (ad name ino n) = ds (length name)"
    and "length (drop off (db_p (dir_records ds ad (dir_at (fs_abs s) ino)))) < n"
  shows "read_pages ds ad n en ino sz off s = Some (drop off (db_p (dir_records ds ad (dir_at (fs_abs s) ino))))"
  using assms(1,4,7)
proof (induction n arbitrary: off s)
  case (Suc n)
  let ?w = "db_p (dir_records ds ad (dir_at (fs_abs s) ino))"
  obtain t where t: "fuseserver_readdir ds ad en ino sz off s = (F_buf (take sz (drop off ?w)), t)" "yfs_inv t" "fs_abs t = fs_abs s"
    using readdir_reply [where ds = ds and ad = ad and en = en, OF Suc.prems(1) assms(2,3) Suc.prems(2) assms(6)] by blast
  show ?case
  proof (cases "drop off ?w = []")
    case False
    define k where "k = length (take sz (drop off ?w))"
    have k: "0 < k" "k \<le> length ?w - off"
      using False assms(5) by (simp_all add: k_def)
    then have "length (drop (off + k) ?w) < n"
      using Suc.prems(3) by simp
    then have "read_pages ds ad n en ino sz (off + k) t = Some (drop (off + k) ?w)"
      using Suc.IH [OF t(2), of "off + k"] Suc.prems(2) t(3) by simp
    moreover have "take sz (drop off ?w) @ drop (off + k) ?w = drop off ?w"
      using append_take_drop_id [of sz "drop off ?w"] by (simp add: k_def min_def add.commute)
    ultimately show ?thesis
      using t(1) False assms(5) k_def by (simp del: length_take)
  qed (use t in auto)
qed simp

section \<open>A new file\<close>

lemma add_entry_cached:
  assumes "add_entry en b p nm f ino s = (Y_OK, t)"
  shows "\<exists>fd. ec_cache (y_ec t) ino = Some fd \<and> fd_present fd \<and> at_size (fd_attr fd) = 0"
proof -
  let ?f = "f\<lparr>dir_block := om_put nm ino (dir_block f)\<rparr>"
  obtain t1 where t1: "putdata (ye_x en 1) p (fst (DirFormToString ?f)) s = (Y_OK, t1)"
    using putdata_ok by blast
  obtain t2 fd where t2: "putdata (ye_x en 2) ino [] t1 = (Y_OK, t2)" "ec_cache (y_ec t2) ino = Some fd" "fd_present fd"
    using putdata_ok by blast
  then have "at_size (fd_attr fd) = 0"
    by (auto simp: putdata_def cc_put_def Let_def)
  moreover obtain info t' where "getfile (ye_x en 3) ino \<lparr>fi_size = 0, fi_atime = 0, fi_mtime = 0, fi_ctime = 0\<rparr> t2 = (Y_OK, info, t')"
    "y_ec t' = y_ec t2"
    using getfile_ok [OF t2(2,3)] by blast
  ultimately show ?thesis
    using assms t1 t2 by (simp add: add_entry_def Let_def)
qed

lemma make_node_cached:
  assumes "make_node en b p name i0 s = Some (Y_OK, ino, t)"
  shows "\<exists>fd. ec_cache (y_ec t) ino = Some fd \<and> fd_present fd \<and> at_size (fd_attr fd) = 0"
  using assms
  by (auto simp: make_node_def Let_def dest!: add_entry_cached split: prod.splits if_splits option.splits)

lemma fuse_getattr_cached:
  assumes "isfile ino" and "ec_cache (y_ec s) ino = Some fd" and "fd_present fd" and "at_size (fd_attr fd) = 0"
  shows "\<exists>st t. fuse_getattr e ino s = (Y_OK, st, t) \<and> st_ino st = ino \<and> st_mode st = Mode_file \<and> st_size st = 0 \<and> y_ec t = y_ec s"
proof -
  have "cc_getattr e ino a (y_ec s) = (ext_OK, fd_attr fd, y_ec s)" for a
    using assms(2,3) by (simp add: cc_getattr_def cc_item_def cc_set_def fun_upd_idem)
  then show ?thesis
    using assms(1,4) by (simp add: fuse_getattr_def getfile_def y_getattr_def fstat_zero_def Let_def)
qed

section \<open>Properties\<close>



text \<open>A file that FUSE creates can be looked up: the reply to the creation and the reply to a lookup of
  the same name carry the same new inode, a regular file of size 0.\<close>

theorem fuse_create_lookup:
  assumes "yfs_inv s" and "make_allowed (en 0) True p ino s" and "ino \<noteq> 0" and "p \<noteq> ino" and "delivered (en' 0)"
    and "map_of (dir_at (fs_abs s) p) (str_resize MAX_ITEM_NAME_LEN name) = None"
  shows "\<exists>e t e' u. fuseserver_create en p name s = Some (F_create e, t) \<and> fuseserver_lookup en' p name t = (F_entry e', u)
    \<and> fe_ino e = ino \<and> fe_ino e' = ino \<and> st_mode (fe_attr e) = Mode_file \<and> st_mode (fe_attr e') = Mode_file
    \<and> st_size (fe_attr e) = 0 \<and> st_size (fe_attr e') = 0"
proof -
  let ?nm = "str_resize MAX_ITEM_NAME_LEN name"
  obtain st i t where t: "make_node (en 0) True p name 0 s = Some (st, i, t)" "yfs_inv t" "srv_has t = srv_has s"
    "fs_make (File []) p ?nm ino (fs_abs s) = (if st = Y_OK then R_made i else R_status st, fs_abs t)"
    using sim_make [OF assms(1,2), of name] by auto
  then have t': "st = Y_OK" "i = ino" "fs_abs t = (fs_abs s)(p \<mapsto> Dir (om_put ?nm ino (dir_at (fs_abs s) p)), ino \<mapsto> File [])"
    using assms(3,6) by (auto simp: fs_make_def split: if_splits)
  obtain fd where fd: "ec_cache (y_ec t) ino = Some fd" "fd_present fd" "at_size (fd_attr fd) = 0"
    using make_node_cached t t' by blast
  have k: "isfile ino" "isdir p" "srv_has s 1" "GetAvailInum (en 0) True s = Some ino"
    using assms(1-3) GetAvailInum_kind by (auto simp: yfs_inv_alt make_allowed_def)
  obtain a t1 where t1: "fuse_getattr (ye_x (en 1) 0) ino t = (Y_OK, a, t1)" "st_mode a = Mode_file" "st_size a = 0" "y_ec t1 = y_ec t"
    using fuse_getattr_cached [OF k(1) fd] by blast
  have inv1: "yfs_inv t1" "fs_abs t1 = fs_abs t"
    using t(2) t1(4) by (simp_all add: yfs_inv_def fs_abs_def)
  have d1: "dir_at (fs_abs t1) p = om_put ?nm ino (dir_at (fs_abs s) p)" "fs_abs t1 p \<noteq> None"
    using inv1(2) t'(3) assms(4) by (simp_all add: dir_at_def del: fs_abs_None)
  obtain c u where u: "getdata (ye_x (en' 0) 0) p [] (YfsLock p t1) = (Y_OK, c, u)"
    "dir_block (StringToDirForm (ye_mem (en' 0)) c dir_form_new) = dir_at (fs_abs t1) p"
    "\<And>j. j \<noteq> p \<Longrightarrow> ec_cache (y_ec u) j = ec_cache (y_ec t1) j"
    using read_dir_ok [OF inv1(1) assms(5) k(2) d1(2)] by metis
  have "ec_cache (y_ec (YfsLock_delete p u)) ino = Some fd"
    using u(3) [of ino] assms(4) t1(4) fd by simp
  then obtain a' v where v: "fuse_getattr (ye_x (en' 1) 0) ino (YfsLock_delete p u) = (Y_OK, a', v)" "st_mode a' = Mode_file" "st_size a' = 0"
    using fuse_getattr_cached [OF k(1) _ fd(2,3)] by blast
  have "fuseserver_create en p name s = Some (F_create \<lparr>fe_ino = ino, fe_attr = a\<rparr>, t1)"
    using t t' t1 by (simp add: fuseserver_create_def fuseserver_createhelper_def yfs_create_def)
  moreover have "fuseserver_lookup en' p name t1 = (F_entry \<lparr>fe_ino = ino, fe_attr = a'\<rparr>, v)"
    using u d1 v by (simp add: fuseserver_lookup_def yfs_lookup_def Let_def)
  ultimately show ?thesis
    using t1 v by auto
qed

theorem fuse_create_lookup_witness:
  "\<exists>e t e' u. fuseserver_create (\<lambda>_. calm_en [5]) 1 ''a'' (yfs_new 5) = Some (F_create e, t)
     \<and> fuseserver_lookup (\<lambda>_. calm_en []) 1 ''a'' t = (F_entry e', u) \<and> fe_ino e = 0x80000005 \<and> fe_ino e' = 0x80000005"
proof -
  have "delivered (calm_en [])"
    by (simp add: delivered_def calm_en_def calm_def)
  then show ?thesis
    using fuse_create_lookup [OF yfs_new_inv, of "\<lambda>_. calm_en [5]" 1 "0x80000005" 5 "\<lambda>_. calm_en []" "''a''"] example_make
    by (fastforce simp: yfs_new_abs dir_at_def)
qed

end
