(* ===== verification/Paxos_Protocol.thy ===== *)
theory Paxos_Protocol
  imports Rpc_Client "HOL-Library.Product_Lexorder"
begin

text \<open>
  The messages of Paxos and of the replicated state machine (paxos\_protocol.h, rsm\_protocol.h) and
  the comparison operators of proposal numbers and viewstamps. Each pair of \<open><<\<close> and \<open>>>\<close> operators is
  shown to be a \<open>codec\<close>, which is what \<open>Rpc_Client\<close> asks of argument and result types. Proposal
  numbers and viewstamps are linearly ordered by their operators.
\<close>

section \<open>Proposal numbers\<close>

record prop_t =
  pt_n :: u32
  pt_m :: string

definition prop_gt :: "prop_t \<Rightarrow> prop_t \<Rightarrow> bool" where
  "prop_gt a b = (pt_n a > pt_n b \<or> (pt_n a = pt_n b \<and> pt_m a > pt_m b))"

definition prop_ge :: "prop_t \<Rightarrow> prop_t \<Rightarrow> bool" where
  "prop_ge a b = (pt_n a > pt_n b \<or> (pt_n a = pt_n b \<and> pt_m a \<ge> pt_m b))"

definition get_prop :: "unmarshall \<Rightarrow> prop_t \<times> unmarshall" where
  "get_prop u = (let (n, u) = get_uint u; (m, u) = get_string u in (\<lparr>pt_n = n, pt_m = m\<rparr>, u))"

definition put_prop :: "marshall \<Rightarrow> prop_t \<Rightarrow> marshall" where
  "put_prop m a = put_string (put_uint m (pt_n a)) (pt_m a)"

definition enc_prop :: "prop_t \<Rightarrow> string" where
  "enc_prop a = be32 (pt_n a) @ enc_string (pt_m a)"

section \<open>Paxos messages\<close>

definition paxos_OK :: u32 where "paxos_OK = 0"
definition paxos_ERR :: u32 where "paxos_ERR = 1"

record preparearg =
  pa_instance :: u32
  pa_n :: prop_t

record prepareres =
  pr_oldinstance :: bool
  pr_accept :: bool
  pr_n_a :: prop_t
  pr_v_a :: string

record acceptarg =
  aa_instance :: u32
  aa_n :: prop_t
  aa_v :: string

record decidearg =
  da_instance :: u32
  da_v :: string

definition get_preparearg :: "unmarshall \<Rightarrow> preparearg \<times> unmarshall" where
  "get_preparearg u = (let (i, u) = get_uint u; (n, u) = get_prop u in (\<lparr>pa_instance = i, pa_n = n\<rparr>, u))"

definition put_preparearg :: "marshall \<Rightarrow> preparearg \<Rightarrow> marshall" where
  "put_preparearg m a = put_prop (put_uint m (pa_instance a)) (pa_n a)"

definition get_prepareres :: "unmarshall \<Rightarrow> prepareres \<times> unmarshall" where
  "get_prepareres u =
     (let (o', u) = get_bool u; (a, u) = get_bool u; (n, u) = get_prop u; (v, u) = get_string u
      in (\<lparr>pr_oldinstance = o', pr_accept = a, pr_n_a = n, pr_v_a = v\<rparr>, u))"

definition put_prepareres :: "marshall \<Rightarrow> prepareres \<Rightarrow> marshall" where
  "put_prepareres m r =
     put_string (put_prop (put_bool (put_bool m (pr_oldinstance r)) (pr_accept r)) (pr_n_a r)) (pr_v_a r)"

definition get_acceptarg :: "unmarshall \<Rightarrow> acceptarg \<times> unmarshall" where
  "get_acceptarg u =
     (let (i, u) = get_uint u; (n, u) = get_prop u; (v, u) = get_string u
      in (\<lparr>aa_instance = i, aa_n = n, aa_v = v\<rparr>, u))"

definition put_acceptarg :: "marshall \<Rightarrow> acceptarg \<Rightarrow> marshall" where
  "put_acceptarg m a = put_string (put_prop (put_uint m (aa_instance a)) (aa_n a)) (aa_v a)"

definition get_decidearg :: "unmarshall \<Rightarrow> decidearg \<times> unmarshall" where
  "get_decidearg u = (let (i, u) = get_uint u; (v, u) = get_string u in (\<lparr>da_instance = i, da_v = v\<rparr>, u))"

definition put_decidearg :: "marshall \<Rightarrow> decidearg \<Rightarrow> marshall" where
  "put_decidearg m a = put_string (put_uint m (da_instance a)) (da_v a)"

section \<open>Messages of the replicated state machine\<close>

datatype rsm_client_status = RC_OK | RC_ERR | RC_NOTPRIMARY | RC_BUSY

datatype rsm_status = RSM_OK | RSM_ERR | RSM_BUSY

record viewstamp =
  vs_vid :: u32
  vs_seqno :: u32

record transferres =
  tr_state :: string
  tr_last :: viewstamp

record joinres =
  jr_log :: string

definition vs_eq :: "viewstamp \<Rightarrow> viewstamp \<Rightarrow> bool" where
  "vs_eq a b = (vs_vid a = vs_vid b \<and> vs_seqno a = vs_seqno b)"

definition vs_gt :: "viewstamp \<Rightarrow> viewstamp \<Rightarrow> bool" where
  "vs_gt a b = (vs_vid a > vs_vid b \<or> (vs_vid a = vs_vid b \<and> vs_seqno a > vs_seqno b))"

definition vs_neq :: "viewstamp \<Rightarrow> viewstamp \<Rightarrow> bool" where
  "vs_neq a b = (vs_vid a \<noteq> vs_vid b \<or> vs_seqno a \<noteq> vs_seqno b)"

definition put_viewstamp :: "marshall \<Rightarrow> viewstamp \<Rightarrow> marshall" where
  "put_viewstamp m v = put_uint (put_uint m (vs_vid v)) (vs_seqno v)"

definition get_viewstamp :: "unmarshall \<Rightarrow> viewstamp \<times> unmarshall" where
  "get_viewstamp u = (let (i, u) = get_uint u; (s, u) = get_uint u in (\<lparr>vs_vid = i, vs_seqno = s\<rparr>, u))"

definition enc_viewstamp :: "viewstamp \<Rightarrow> string" where
  "enc_viewstamp v = be32 (vs_vid v) @ be32 (vs_seqno v)"

definition put_transferres :: "marshall \<Rightarrow> transferres \<Rightarrow> marshall" where
  "put_transferres m r = put_viewstamp (put_string m (tr_state r)) (tr_last r)"

definition get_transferres :: "unmarshall \<Rightarrow> transferres \<times> unmarshall" where
  "get_transferres u = (let (s, u) = get_string u; (v, u) = get_viewstamp u in (\<lparr>tr_state = s, tr_last = v\<rparr>, u))"

definition put_joinres :: "marshall \<Rightarrow> joinres \<Rightarrow> marshall" where
  "put_joinres m r = put_string m (jr_log r)"

definition get_joinres :: "unmarshall \<Rightarrow> joinres \<times> unmarshall" where
  "get_joinres u = (let (l, u) = get_string u in (\<lparr>jr_log = l\<rparr>, u))"

section \<open>Orders\<close>

definition prop_key :: "('a::linorder) prop_t_scheme \<Rightarrow> u32 \<times> string \<times> 'a" where
  "prop_key a = (pt_n a, pt_m a, prop_t.more a)"

lemma prop_key_inject [simp]: "prop_key a = prop_key b \<longleftrightarrow> a = b"
  by (cases a, cases b) (auto simp: prop_key_def)

instantiation prop_t_ext :: (linorder) linorder
begin

definition less_eq_prop_t_ext :: "'a prop_t_ext \<Rightarrow> 'a prop_t_ext \<Rightarrow> bool" where
  "less_eq_prop_t_ext a b = (prop_key a \<le> prop_key b)"

definition less_prop_t_ext :: "'a prop_t_ext \<Rightarrow> 'a prop_t_ext \<Rightarrow> bool" where
  "less_prop_t_ext a b = (prop_key a < prop_key b)"

instance
  by standard (auto simp: less_eq_prop_t_ext_def less_prop_t_ext_def order.strict_iff_order)

end

lemma prop_gt_less: "prop_gt a b \<longleftrightarrow> b < a"
  by (auto simp: prop_gt_def less_prop_t_ext_def prop_key_def less_prod_def)

lemma prop_ge_less_eq: "prop_ge a b \<longleftrightarrow> b \<le> a"
  by (auto simp: prop_ge_def less_eq_prop_t_ext_def prop_key_def less_eq_prod_def)

lemma prop_less_n: "pt_n (a :: prop_t) < pt_n b \<Longrightarrow> a < b"
  by (simp add: less_prop_t_ext_def prop_key_def)

lemma prop_le_n: "(a :: prop_t) \<le> b \<Longrightarrow> pt_n a \<le> pt_n b"
  by (auto simp: less_eq_prop_t_ext_def prop_key_def less_eq_prod_def)

section \<open>Codecs\<close>

lemmas struct_defs = put_pair_def get_pair_def split_beta Let_def

interpretation prop_c: codec put_prop get_prop enc_prop
  by (rule codec_structI [OF codec_pairI [OF uint_c.codec_axioms string_c.codec_axioms],
      where tup = "\<lambda>a. (pt_n a, pt_m a)" and of_tup = "\<lambda>(n, m). \<lparr>pt_n = n, pt_m = m\<rparr>"])
    (simp_all add: put_prop_def get_prop_def enc_prop_def struct_defs)

interpretation preparearg_c: codec put_preparearg get_preparearg "\<lambda>a. be32 (pa_instance a) @ enc_prop (pa_n a)"
  by (rule codec_structI [OF codec_pairI [OF uint_c.codec_axioms prop_c.codec_axioms],
      where tup = "\<lambda>a. (pa_instance a, pa_n a)" and of_tup = "\<lambda>(i, n). \<lparr>pa_instance = i, pa_n = n\<rparr>"])
    (simp_all add: put_preparearg_def get_preparearg_def struct_defs)

interpretation prepareres_c: codec put_prepareres get_prepareres
    "\<lambda>r. [char_of_byte (of_bool (pr_oldinstance r))] @ [char_of_byte (of_bool (pr_accept r))] @ enc_prop (pr_n_a r) @ enc_string (pr_v_a r)"
  by (rule codec_structI [OF codec_pairI [OF bool_c.codec_axioms codec_pairI [OF bool_c.codec_axioms
        codec_pairI [OF prop_c.codec_axioms string_c.codec_axioms]]],
      where tup = "\<lambda>r. (pr_oldinstance r, pr_accept r, pr_n_a r, pr_v_a r)"
        and of_tup = "\<lambda>(o', a, n, v). \<lparr>pr_oldinstance = o', pr_accept = a, pr_n_a = n, pr_v_a = v\<rparr>"])
    (simp_all add: put_prepareres_def get_prepareres_def struct_defs)

interpretation acceptarg_c: codec put_acceptarg get_acceptarg "\<lambda>a. be32 (aa_instance a) @ enc_prop (aa_n a) @ enc_string (aa_v a)"
  by (rule codec_structI [OF codec_pairI [OF uint_c.codec_axioms codec_pairI [OF prop_c.codec_axioms string_c.codec_axioms]],
      where tup = "\<lambda>a. (aa_instance a, aa_n a, aa_v a)"
        and of_tup = "\<lambda>(i, n, v). \<lparr>aa_instance = i, aa_n = n, aa_v = v\<rparr>"])
    (simp_all add: put_acceptarg_def get_acceptarg_def struct_defs)

interpretation decidearg_c: codec put_decidearg get_decidearg "\<lambda>a. be32 (da_instance a) @ enc_string (da_v a)"
  by (rule codec_structI [OF codec_pairI [OF uint_c.codec_axioms string_c.codec_axioms],
      where tup = "\<lambda>a. (da_instance a, da_v a)" and of_tup = "\<lambda>(i, v). \<lparr>da_instance = i, da_v = v\<rparr>"])
    (simp_all add: put_decidearg_def get_decidearg_def struct_defs)

interpretation viewstamp_c: codec put_viewstamp get_viewstamp enc_viewstamp
  by (rule codec_structI [OF uint_pair.pair_codec,
      where tup = "\<lambda>v. (vs_vid v, vs_seqno v)" and of_tup = "\<lambda>(i, s). \<lparr>vs_vid = i, vs_seqno = s\<rparr>"])
    (simp_all add: put_viewstamp_def get_viewstamp_def enc_viewstamp_def struct_defs)

interpretation transferres_c: codec put_transferres get_transferres "\<lambda>r. enc_string (tr_state r) @ enc_viewstamp (tr_last r)"
  by (rule codec_structI [OF codec_pairI [OF string_c.codec_axioms viewstamp_c.codec_axioms],
      where tup = "\<lambda>r. (tr_state r, tr_last r)" and of_tup = "\<lambda>(s, v). \<lparr>tr_state = s, tr_last = v\<rparr>"])
    (simp_all add: put_transferres_def get_transferres_def struct_defs)

interpretation joinres_c: codec put_joinres get_joinres "\<lambda>r. enc_string (jr_log r)"
  by (rule codec_structI [OF string_c.codec_axioms,
      where tup = jr_log and of_tup = "\<lambda>l. \<lparr>jr_log = l\<rparr>"])
    (simp_all add: put_joinres_def get_joinres_def split_beta Let_def prod_eq_iff)

end
