(* ===== verification/Paxos_Acceptor.thy ===== *)
theory Paxos_Acceptor
  imports Paxos_Protocol
begin

text \<open>
  The Paxos acceptor (class \<open>acceptor\<close> of paxos.cc) and its durable log (log.cc).

  \<^item> The log file is a string of the state, \<open>ac_log\<close>; the \<open>log\<dots>\<close> functions append to it. \<open>logread\<close>
    parses it the way \<open>std::ifstream\<close> does: \<open>ifs\<close> is a stream, its unread characters and whether it
    is still good; extraction skips white space, and leaves its variable alone when the stream has
    failed or ended.
  \<^item> \<open>commit_wo\<close> calls \<open>paxos_commit\<close> of the configuration layer after giving up the mutex. It returns
    the call that has to be made.
  \<^item> The last part describes a log as a list of records and what replaying them does.
\<close>

section \<open>State\<close>

record acceptor =
  ac_me :: string
  ac_n_h :: prop_t
  ac_n_a :: prop_t
  ac_v_a :: string
  ac_instance_h :: u32
  ac_values :: "u32 \<rightharpoonup> string"
  ac_log :: string

section \<open>Writing the log\<close>

definition newline :: char where "newline = CHR 0x0A"

fun show_nat :: "nat \<Rightarrow> string" where
  "show_nat n = (if n < 10 then [char_of (48 + n)] else show_nat (n div 10) @ [char_of (48 + n mod 10)])"

definition show_uint :: "u32 \<Rightarrow> string" where
  "show_uint x = show_nat (unat x)"

definition loginstance :: "u32 \<Rightarrow> string \<Rightarrow> acceptor \<Rightarrow> acceptor" where
  "loginstance i v x = x\<lparr>ac_log := ac_log x @ ''done'' @ '' '' @ show_uint i @ '' '' @ v @ [newline]\<rparr>"

definition logprop :: "prop_t \<Rightarrow> acceptor \<Rightarrow> acceptor" where
  "logprop n x = x\<lparr>ac_log := ac_log x @ ''propseen'' @ '' '' @ show_uint (pt_n n) @ '' '' @ pt_m n @ [newline]\<rparr>"

definition logaccept :: "prop_t \<Rightarrow> string \<Rightarrow> acceptor \<Rightarrow> acceptor" where
  "logaccept n v x =
     x\<lparr>ac_log := ac_log x @ ''accepted'' @ '' '' @ show_uint (pt_n n) @ '' '' @ pt_m n @ '' '' @ v @ [newline]\<rparr>"

section \<open>Reading the log\<close>

definition isspace :: "char \<Rightarrow> bool" where
  "isspace c = (c = CHR '' '' \<or> (9 \<le> (of_char c :: nat) \<and> (of_char c :: nat) \<le> 13))"

definition isdigit :: "char \<Rightarrow> bool" where
  "isdigit c = (48 \<le> (of_char c :: nat) \<and> (of_char c :: nat) \<le> 57)"

definition read_nat :: "string \<Rightarrow> nat" where
  "read_nat ds = foldl (\<lambda>n c. n * 10 + (of_char c - 48)) 0 ds"

record ifs =
  is_buf :: string
  is_good :: bool

definition ifs_open :: "string \<Rightarrow> ifs" where
  "ifs_open s = \<lparr>is_buf = s, is_good = True\<rparr>"

definition get_word :: "string \<Rightarrow> ifs \<Rightarrow> string \<times> ifs" where
  "get_word old st =
     (let s = dropWhile isspace (is_buf st)
      in if \<not> is_good st then (old, st)
         else if s = [] then (old, \<lparr>is_buf = [], is_good = False\<rparr>)
         else (takeWhile (\<lambda>c. \<not> isspace c) s, \<lparr>is_buf = dropWhile (\<lambda>c. \<not> isspace c) s, is_good = True\<rparr>))"

definition strip_sign :: "string \<Rightarrow> bool \<times> string" where
  "strip_sign s = (case s of [] \<Rightarrow> (False, []) | c # t \<Rightarrow> if c = CHR ''-'' then (True, t) else if c = CHR ''+'' then (False, t) else (False, s))"

definition get_unsigned :: "u32 \<Rightarrow> ifs \<Rightarrow> u32 \<times> ifs" where
  "get_unsigned old st =
     (let s = dropWhile isspace (is_buf st); (neg, t) = strip_sign s; ds = takeWhile isdigit t; rest = dropWhile isdigit t
      in if \<not> is_good st then (old, st)
         else if s = [] then (old, \<lparr>is_buf = [], is_good = False\<rparr>)
         else if ds = [] then (0, \<lparr>is_buf = rest, is_good = False\<rparr>)
         else if 2 ^ 32 \<le> read_nat ds then (-1, \<lparr>is_buf = rest, is_good = False\<rparr>)
         else (if neg then - of_nat (read_nat ds) else of_nat (read_nat ds), \<lparr>is_buf = rest, is_good = True\<rparr>))"

definition get_ch :: "ifs \<Rightarrow> ifs" where
  "get_ch st = (if \<not> is_good st then st else if is_buf st = [] then st\<lparr>is_good := False\<rparr> else st\<lparr>is_buf := tl (is_buf st)\<rparr>)"

definition getline :: "ifs \<Rightarrow> string \<times> ifs" where
  "getline st =
     (if \<not> is_good st then ([], st)
      else if is_buf st = [] then ([], st\<lparr>is_good := False\<rparr>)
      else (takeWhile (\<lambda>c. c \<noteq> newline) (is_buf st), st\<lparr>is_buf := tl (dropWhile (\<lambda>c. c \<noteq> newline) (is_buf st))\<rparr>))"

definition read_done :: "u32 \<Rightarrow> ifs \<Rightarrow> acceptor \<Rightarrow> u32 \<times> ifs \<times> acceptor" where
  "read_done inst st x =
     (let (inst, st) = get_unsigned inst st; (v, st) = getline (get_ch st)
      in (inst, st, x\<lparr>ac_values := (ac_values x)(inst \<mapsto> v), ac_instance_h := inst, ac_v_a := [],
                     ac_n_h := (ac_n_h x)\<lparr>pt_n := 0\<rparr>, ac_n_a := (ac_n_a x)\<lparr>pt_n := 0\<rparr>\<rparr>))"

definition read_propseen :: "ifs \<Rightarrow> acceptor \<Rightarrow> ifs \<times> acceptor" where
  "read_propseen st x =
     (let (n, st) = get_unsigned (pt_n (ac_n_h x)) st; (m, st) = get_word (pt_m (ac_n_h x)) st
      in (st, x\<lparr>ac_n_h := \<lparr>pt_n = n, pt_m = m\<rparr>\<rparr>))"

definition read_accepted :: "ifs \<Rightarrow> acceptor \<Rightarrow> ifs \<times> acceptor" where
  "read_accepted st x =
     (let (n, st) = get_unsigned (pt_n (ac_n_a x)) st; (m, st) = get_word (pt_m (ac_n_a x)) st; (v, st) = getline (get_ch st)
      in (st, x\<lparr>ac_n_a := \<lparr>pt_n = n, pt_m = m\<rparr>, ac_v_a := v\<rparr>))"

lemma get_word_shorter:
  assumes "get_word old st = (w, st')" and "is_good st'"
  shows "length (is_buf st') < length (is_buf st)"
proof -
  let ?s = "dropWhile isspace (is_buf st)"
  have g: "is_good st" "?s \<noteq> []" "st' = \<lparr>is_buf = dropWhile (\<lambda>c. \<not> isspace c) ?s, is_good = True\<rparr>"
    using assms by (auto simp: get_word_def Let_def split: if_splits)
  then have "\<not> isspace (hd ?s)"
    by (simp add: hd_dropWhile)
  then have "length (dropWhile (\<lambda>c. \<not> isspace c) ?s) < length ?s"
    using g(2) by (cases ?s) (auto simp: le_imp_less_Suc length_dropWhile_le)
  also have "\<dots> \<le> length (is_buf st)"
    by (rule length_dropWhile_le)
  finally show ?thesis
    using g(3) by simp
qed

lemma get_word_le: "length (is_buf (snd (get_word old st))) \<le> length (is_buf st)"
  by (auto simp: get_word_def Let_def intro: order_trans [OF length_dropWhile_le length_dropWhile_le])

lemma strip_sign_le: "length (snd (strip_sign s)) \<le> length s"
  by (auto simp: strip_sign_def split: list.splits)

lemma get_unsigned_le: "length (is_buf (snd (get_unsigned old st))) \<le> length (is_buf st)"
proof -
  have "length (dropWhile isdigit (snd (strip_sign (dropWhile isspace (is_buf st))))) \<le> length (is_buf st)"
    by (meson length_dropWhile_le strip_sign_le order_trans)
  then show ?thesis
    by (simp add: get_unsigned_def Let_def split_beta)
qed

lemma getline_le: "length (is_buf (snd (getline (get_ch st)))) \<le> length (is_buf st)"
proof -
  have "length (is_buf (snd (getline st))) \<le> length (is_buf st)" for st
    using length_dropWhile_le [of "\<lambda>c. c \<noteq> newline" "is_buf st"] by (auto simp: getline_def)
  moreover have "length (is_buf (get_ch st)) \<le> length (is_buf st)"
    by (simp add: get_ch_def)
  ultimately show ?thesis
    by (meson order_trans)
qed

text \<open>Each turn of the loop reads at least the type of a record.\<close>

lemma read_le:
  "length (is_buf (fst (snd (read_done inst st x)))) \<le> length (is_buf st)"
  "length (is_buf (fst (read_propseen st x))) \<le> length (is_buf st)"
  "length (is_buf (fst (read_accepted st x))) \<le> length (is_buf st)"
  using get_unsigned_le get_word_le getline_le
  by (simp_all add: read_done_def read_propseen_def read_accepted_def Let_def split_beta) (meson order_trans)+

function logread_loop :: "string \<Rightarrow> u32 \<Rightarrow> ifs \<Rightarrow> acceptor \<Rightarrow> acceptor outcome" where
  "logread_loop ty inst st x =
     (let (ty, st) = get_word ty st
      in if \<not> is_good st then Returns x
         else if ty = ''done'' then let (inst, st, x) = read_done inst st x in logread_loop ty inst st x
         else if ty = ''propseen'' then let (st, x) = read_propseen st x in logread_loop ty inst st x
         else if ty = ''accepted'' then let (st, x) = read_accepted st x in logread_loop ty inst st x
         else Aborts)"
  by pat_completeness auto
termination
proof (relation "measure (\<lambda>(ty, inst, st, x). length (is_buf st))", goal_cases)
  case (2 ty inst st x p ty' st' q i r st'' x')
  then show ?case
    using get_word_shorter [of ty st ty' st'] read_le(1) [of inst st' x] by (auto simp: split_beta)
next
  case (3 ty inst st x p ty' st' q st'' x')
  then show ?case
    using get_word_shorter [of ty st ty' st'] read_le(2) [of st' x] by (auto simp: split_beta)
next
  case (4 ty inst st x p ty' st' q st'' x')
  then show ?case
    using get_word_shorter [of ty st ty' st'] read_le(3) [of st' x] by (auto simp: split_beta)
qed simp

text \<open>\<open>instance\<close> is an uninitialised variable of \<open>logread\<close>.\<close>

definition logread :: "u32 \<Rightarrow> acceptor \<Rightarrow> acceptor outcome" where
  "logread junk x = logread_loop [] junk (ifs_open (ac_log x)) x"

function dump_loop :: "ifs \<Rightarrow> string" where
  "dump_loop st = (let (v, st') = getline st in if is_good st' then v @ [newline] @ dump_loop st' else [])"
  by pat_completeness auto
termination
proof (relation "measure (\<lambda>st. length (is_buf st))", goal_cases)
  case (2 st p v st')
  then have "0 < length (is_buf st)" "is_buf st' = tl (dropWhile (\<lambda>c. c \<noteq> newline) (is_buf st))"
    by (auto simp: getline_def split: if_splits)
  then show ?case
    using length_dropWhile_le [of "\<lambda>c. c \<noteq> newline" "is_buf st"] by (simp del: length_greater_0_conv)
qed simp

definition log_dump :: "acceptor \<Rightarrow> string" where
  "log_dump x = dump_loop (ifs_open (ac_log x))"

definition log_restore :: "string \<Rightarrow> acceptor \<Rightarrow> acceptor" where
  "log_restore s x = x\<lparr>ac_log := s\<rparr>"

section \<open>Acceptor\<close>

definition acceptor_new :: "u32 \<Rightarrow> bool \<Rightarrow> string \<Rightarrow> string \<Rightarrow> string \<Rightarrow> acceptor outcome" where
  "acceptor_new junk first me val file =
     obind (logread junk \<lparr>ac_me = me, ac_n_h = \<lparr>pt_n = 0, pt_m = me\<rparr>, ac_n_a = \<lparr>pt_n = 0, pt_m = me\<rparr>, ac_v_a = [],
              ac_instance_h = 0, ac_values = Map.empty, ac_log = file\<rparr>) (\<lambda>x.
       Returns (if ac_instance_h x = 0 \<and> first
                then (loginstance 1 val (x\<lparr>ac_values := (ac_values x)(1 \<mapsto> val)\<rparr>))\<lparr>ac_instance_h := 1\<rparr>
                else x))"

definition preparereq :: "preparearg \<Rightarrow> prepareres \<Rightarrow> acceptor \<Rightarrow> prepareres \<times> acceptor" where
  "preparereq a r x =
     (let r = r\<lparr>pr_accept := False, pr_oldinstance := False\<rparr>
      in if pa_instance a \<le> ac_instance_h x
         then let v = (case ac_values x (pa_instance a) of Some v \<Rightarrow> v | None \<Rightarrow> [])
              in (r\<lparr>pr_oldinstance := True, pr_v_a := v, pr_accept := False\<rparr>,
                  x\<lparr>ac_values := (ac_values x)(pa_instance a \<mapsto> v)\<rparr>)
         else let (r, x) = (if prop_gt (pa_n a) (ac_n_h x)
                            then (r\<lparr>pr_accept := True\<rparr>, logprop (pa_n a) (x\<lparr>ac_n_h := pa_n a\<rparr>))
                            else (r, x))
              in (r\<lparr>pr_n_a := ac_n_a x, pr_v_a := ac_v_a x\<rparr>, x))"

definition acceptreq :: "acceptarg \<Rightarrow> acceptor \<Rightarrow> bool \<times> acceptor" where
  "acceptreq a x =
     (if prop_ge (aa_n a) (ac_n_h x)
      then (True, logaccept (aa_n a) (aa_v a) (x\<lparr>ac_n_a := aa_n a, ac_v_a := aa_v a\<rparr>))
      else (False, x))"

definition commit_wo :: "u32 \<Rightarrow> string \<Rightarrow> acceptor \<Rightarrow> acceptor \<times> (u32 \<times> string) option" where
  "commit_wo inst v x =
     (if ac_instance_h x < inst
      then ((loginstance inst v (x\<lparr>ac_values := (ac_values x)(inst \<mapsto> v)\<rparr>))
              \<lparr>ac_instance_h := inst, ac_n_h := \<lparr>pt_n = 0, pt_m = ac_me x\<rparr>, ac_n_a := \<lparr>pt_n = 0, pt_m = ac_me x\<rparr>, ac_v_a := []\<rparr>,
            Some (inst, v))
      else (x, None))"

definition commit :: "u32 \<Rightarrow> string \<Rightarrow> acceptor \<Rightarrow> acceptor \<times> (u32 \<times> string) option" where
  "commit inst v x = commit_wo inst v x"

definition decidereq :: "decidearg \<Rightarrow> acceptor \<Rightarrow> (acceptor \<times> (u32 \<times> string) option) outcome" where
  "decidereq a x =
     (if da_instance a = ac_instance_h x + 1
      then VERIFY (ac_v_a x = da_v a) (Returns (commit_wo (da_instance a) (ac_v_a x) x))
      else if da_instance a \<le> ac_instance_h x then Returns (x, None)
      else Aborts)"

definition acceptor_restore :: "u32 \<Rightarrow> string \<Rightarrow> acceptor \<Rightarrow> acceptor outcome" where
  "acceptor_restore junk s x = logread junk (log_restore s x)"

definition acceptor_value :: "u32 \<Rightarrow> acceptor \<Rightarrow> string \<times> acceptor" where
  "acceptor_value inst x =
     (let v = (case ac_values x inst of Some v \<Rightarrow> v | None \<Rightarrow> []) in (v, x\<lparr>ac_values := (ac_values x)(inst \<mapsto> v)\<rparr>))"

section \<open>Records of the log\<close>

datatype log_rec = L_done u32 string | L_propseen prop_t | L_accepted prop_t string

fun show_rec :: "log_rec \<Rightarrow> string" where
  "show_rec (L_done i v) = ''done'' @ '' '' @ show_uint i @ '' '' @ v @ [newline]"
| "show_rec (L_propseen n) = ''propseen'' @ '' '' @ show_uint (pt_n n) @ '' '' @ pt_m n @ [newline]"
| "show_rec (L_accepted n v) = ''accepted'' @ '' '' @ show_uint (pt_n n) @ '' '' @ pt_m n @ '' '' @ v @ [newline]"

text \<open>A node name is one word, and a value is one line.\<close>

definition word_ok :: "string \<Rightarrow> bool" where
  "word_ok m = (m \<noteq> [] \<and> (\<forall>c \<in> set m. \<not> isspace c))"

definition line_ok :: "string \<Rightarrow> bool" where
  "line_ok v = (newline \<notin> set v)"

fun rec_ok :: "log_rec \<Rightarrow> bool" where
  "rec_ok (L_done i v) = line_ok v"
| "rec_ok (L_propseen n) = word_ok (pt_m n)"
| "rec_ok (L_accepted n v) = (word_ok (pt_m n) \<and> line_ok v)"

fun apply_rec :: "acceptor \<Rightarrow> log_rec \<Rightarrow> acceptor" where
  "apply_rec x (L_done i v) = x\<lparr>ac_values := (ac_values x)(i \<mapsto> v), ac_instance_h := i, ac_v_a := [],
     ac_n_h := (ac_n_h x)\<lparr>pt_n := 0\<rparr>, ac_n_a := (ac_n_a x)\<lparr>pt_n := 0\<rparr>\<rparr>"
| "apply_rec x (L_propseen n) = x\<lparr>ac_n_h := n\<rparr>"
| "apply_rec x (L_accepted n v) = x\<lparr>ac_n_a := n, ac_v_a := v\<rparr>"

definition blank_acceptor :: "string \<Rightarrow> string \<Rightarrow> acceptor" where
  "blank_acceptor me file = \<lparr>ac_me = me, ac_n_h = \<lparr>pt_n = 0, pt_m = me\<rparr>, ac_n_a = \<lparr>pt_n = 0, pt_m = me\<rparr>, ac_v_a = [],
     ac_instance_h = 0, ac_values = Map.empty, ac_log = file\<rparr>"

text \<open>
  Two acceptors that no request can tell apart: a proposal number 0 stands for none, whatever its
  node name, and a missing value reads as the empty string.
\<close>

definition same_prop :: "prop_t \<Rightarrow> prop_t \<Rightarrow> bool" where
  "same_prop p q = (pt_n p = pt_n q \<and> (pt_n p = 0 \<or> p = q))"

definition val_of :: "acceptor \<Rightarrow> u32 \<Rightarrow> string" where
  "val_of x i = (case ac_values x i of Some v \<Rightarrow> v | None \<Rightarrow> [])"

definition same_acceptor :: "acceptor \<Rightarrow> acceptor \<Rightarrow> bool" where
  "same_acceptor x y = (same_prop (ac_n_h x) (ac_n_h y) \<and> same_prop (ac_n_a x) (ac_n_a y) \<and> ac_v_a x = ac_v_a y
     \<and> ac_instance_h x = ac_instance_h y \<and> val_of x = val_of y)"

definition logged :: "acceptor \<Rightarrow> bool" where
  "logged x = (\<exists>recs. list_all rec_ok recs \<and> ac_log x = concat (map show_rec recs)
     \<and> same_acceptor x (foldl apply_rec (blank_acceptor (ac_me x) []) recs))"

text \<open>The requests an acceptor serves, and the commits of its own proposer.\<close>

datatype acc_op = A_prepare preparearg prepareres | A_accept acceptarg | A_decide decidearg | A_commit u32 string

fun acc_exec :: "acc_op \<Rightarrow> acceptor \<Rightarrow> acceptor outcome" where
  "acc_exec (A_prepare a r) x = Returns (snd (preparereq a r x))"
| "acc_exec (A_accept a) x = Returns (snd (acceptreq a x))"
| "acc_exec (A_decide a) x = obind (decidereq a x) (\<lambda>p. Returns (fst p))"
| "acc_exec (A_commit i v) x = Returns (fst (commit i v x))"

fun acc_op_ok :: "acc_op \<Rightarrow> bool" where
  "acc_op_ok (A_prepare a r) = word_ok (pt_m (pa_n a))"
| "acc_op_ok (A_accept a) = (word_ok (pt_m (aa_n a)) \<and> line_ok (aa_v a))"
| "acc_op_ok (A_decide a) = line_ok (da_v a)"
| "acc_op_ok (A_commit i v) = line_ok v"

fun acc_run :: "acc_op list \<Rightarrow> acceptor \<Rightarrow> acceptor outcome" where
  "acc_run [] x = Returns x"
| "acc_run (a # as) x = obind (acc_exec a x) (acc_run as)"

section \<open>Numbers\<close>

declare show_nat.simps [simp del]
declare logread_loop.simps [simp del]
declare dump_loop.simps [simp del]

lemma digit_char: "n < 10 \<Longrightarrow> isdigit (char_of (48 + n)) \<and> of_char (char_of (48 + n :: nat)) = 48 + n"
  by (simp add: isdigit_def)

lemma show_nat_digits: "\<forall>c \<in> set (show_nat n). isdigit c"
  using digit_char by (induction n rule: show_nat.induct) (subst show_nat.simps, auto)

lemma show_nat_nonempty: "show_nat n \<noteq> []"
  by (subst show_nat.simps) simp

lemma read_show_nat: "read_nat (show_nat n) = n"
proof (induction n rule: show_nat.induct)
  case (1 n)
  show ?case
  proof (cases "n < 10")
    case True
    then show ?thesis
      using digit_char [of n] by (subst show_nat.simps) (simp add: read_nat_def)
  next
    case False
    then show ?thesis
      using 1 digit_char [of "n mod 10"] by (subst show_nat.simps) (simp add: read_nat_def)
  qed
qed

lemma digit_not_space: "isdigit c \<Longrightarrow> \<not> isspace c \<and> c \<noteq> CHR ''-'' \<and> c \<noteq> CHR ''+''"
  by (auto simp: isdigit_def isspace_def)

lemma space_not_digit: "\<not> isdigit (CHR '' '')" "isspace (CHR '' '')" "isspace newline" "CHR '' '' \<noteq> newline"
  by (simp_all add: isdigit_def isspace_def newline_def)

lemma takeWhile_all: "\<forall>c \<in> set xs. P c \<Longrightarrow> \<not> P y \<Longrightarrow> takeWhile P (xs @ y # ys) = xs \<and> dropWhile P (xs @ y # ys) = y # ys"
  by (induction xs) auto

lemma get_unsigned_show:
  "get_unsigned old \<lparr>is_buf = CHR '' '' # show_uint n @ CHR '' '' # r, is_good = True\<rparr> = (n, \<lparr>is_buf = CHR '' '' # r, is_good = True\<rparr>)"
proof -
  obtain c cs where sn: "show_nat (unat n) = c # cs"
    using show_nat_nonempty [of "unat n"] by (cases "show_nat (unat n)") auto
  then have c: "isdigit c" "\<forall>d \<in> set (c # cs). isdigit d"
    using show_nat_digits [of "unat n"] by auto
  have "unat n < 2 ^ 32"
    using unsigned_less [of n, where ?'a = nat] by simp
  moreover have "strip_sign (c # cs @ CHR '' '' # r) = (False, c # cs @ CHR '' '' # r)"
    using digit_not_space [OF c(1)] by (simp add: strip_sign_def)
  ultimately show ?thesis
    using c takeWhile_all [OF c(2) space_not_digit(1), of r] digit_not_space [OF c(1)] space_not_digit read_show_nat [of "unat n"]
    by (simp add: get_unsigned_def show_uint_def sn Let_def)
qed

lemma get_word_show:
  assumes "word_ok m" and "isspace c"
  shows "get_word old \<lparr>is_buf = CHR '' '' # m @ c # r, is_good = True\<rparr> = (m, \<lparr>is_buf = c # r, is_good = True\<rparr>)"
    and "get_word old \<lparr>is_buf = m @ c # r, is_good = True\<rparr> = (m, \<lparr>is_buf = c # r, is_good = True\<rparr>)"
    and "get_word old \<lparr>is_buf = newline # m @ c # r, is_good = True\<rparr> = (m, \<lparr>is_buf = c # r, is_good = True\<rparr>)"
proof -
  obtain d ds where m: "m = d # ds" "\<not> isspace d"
    using assms(1) by (cases m) (auto simp: word_ok_def)
  have tw: "takeWhile (\<lambda>c. \<not> isspace c) (m @ c # r) = m" "dropWhile (\<lambda>c. \<not> isspace c) (m @ c # r) = c # r"
    using takeWhile_all [of m "\<lambda>c. \<not> isspace c" c r] assms by (auto simp: word_ok_def)
  have dw: "dropWhile isspace (m @ c # r) = m @ c # r"
    using m by simp
  show "get_word old \<lparr>is_buf = CHR '' '' # m @ c # r, is_good = True\<rparr> = (m, \<lparr>is_buf = c # r, is_good = True\<rparr>)"
    "get_word old \<lparr>is_buf = m @ c # r, is_good = True\<rparr> = (m, \<lparr>is_buf = c # r, is_good = True\<rparr>)"
    "get_word old \<lparr>is_buf = newline # m @ c # r, is_good = True\<rparr> = (m, \<lparr>is_buf = c # r, is_good = True\<rparr>)"
    using tw dw by (simp_all add: get_word_def space_not_digit Let_def)
qed

lemma getline_show:
  assumes "line_ok v"
  shows "getline (get_ch \<lparr>is_buf = CHR '' '' # v @ newline # r, is_good = True\<rparr>) = (v, \<lparr>is_buf = r, is_good = True\<rparr>)"
proof -
  have "takeWhile (\<lambda>c. c \<noteq> newline) (v @ newline # r) = v \<and> dropWhile (\<lambda>c. c \<noteq> newline) (v @ newline # r) = newline # r"
    by (rule takeWhile_all) (use assms in \<open>auto simp: line_ok_def\<close>)
  then show ?thesis
    by (simp add: getline_def get_ch_def)
qed

section \<open>Replaying a log\<close>

lemma tag_ok: "word_ok ''done''" "word_ok ''propseen''" "word_ok ''accepted''"
  by (simp_all add: word_ok_def isspace_def)

lemma logread_recs:
  assumes "list_all rec_ok recs" and "ws = [] \<or> ws = [newline]"
  shows "logread_loop ty inst \<lparr>is_buf = ws @ concat (map show_rec recs), is_good = True\<rparr> x = Returns (foldl apply_rec x recs)"
  using assms
proof (induction recs arbitrary: ws ty inst x)
  case Nil
  then show ?case
    by (subst logread_loop.simps) (auto simp: get_word_def space_not_digit Let_def)
next
  case (Cons rec recs)
  let ?r = "concat (map show_rec recs)"
  have w: "get_word ty \<lparr>is_buf = ws @ tag @ CHR '' '' # q, is_good = True\<rparr> = (tag, \<lparr>is_buf = CHR '' '' # q, is_good = True\<rparr>)"
    if "word_ok tag" for tag q
    using Cons.prems(2) get_word_show(2,3) [OF that space_not_digit(2), of ty q] by auto
  show ?case
  proof (cases rec)
    case (L_done i v)
    have "read_done inst \<lparr>is_buf = CHR '' '' # show_uint i @ CHR '' '' # v @ newline # ?r, is_good = True\<rparr> x =
        (i, \<lparr>is_buf = ?r, is_good = True\<rparr>, apply_rec x rec)"
      using Cons.prems(1) L_done by (simp add: read_done_def get_unsigned_show getline_show Let_def)
    then show ?thesis
      using w [OF tag_ok(1), of "show_uint i @ CHR '' '' # v @ newline # ?r"] Cons.IH [of "[]" "''done''" i "apply_rec x rec"] Cons.prems(1) L_done
      by (subst logread_loop.simps) simp
  next
    case (L_propseen n)
    have "read_propseen \<lparr>is_buf = CHR '' '' # show_uint (pt_n n) @ CHR '' '' # pt_m n @ newline # ?r, is_good = True\<rparr> x =
        (\<lparr>is_buf = newline # ?r, is_good = True\<rparr>, apply_rec x rec)"
      using Cons.prems(1) L_propseen by (simp add: read_propseen_def get_unsigned_show get_word_show space_not_digit Let_def)
    then show ?thesis
      using w [OF tag_ok(2), of "show_uint (pt_n n) @ CHR '' '' # pt_m n @ newline # ?r"]
        Cons.IH [of "[newline]" "''propseen''" inst "apply_rec x rec"] Cons.prems(1) L_propseen
      by (subst logread_loop.simps) simp
  next
    case (L_accepted n v)
    have "read_accepted \<lparr>is_buf = CHR '' '' # show_uint (pt_n n) @ CHR '' '' # pt_m n @ CHR '' '' # v @ newline # ?r, is_good = True\<rparr> x =
        (\<lparr>is_buf = ?r, is_good = True\<rparr>, apply_rec x rec)"
      using Cons.prems(1) L_accepted
      by (simp add: read_accepted_def get_unsigned_show get_word_show getline_show space_not_digit Let_def)
    then show ?thesis
      using w [OF tag_ok(3), of "show_uint (pt_n n) @ CHR '' '' # pt_m n @ CHR '' '' # v @ newline # ?r"]
        Cons.IH [of "[]" "''accepted''" inst "apply_rec x rec"] Cons.prems(1) L_accepted
      by (subst logread_loop.simps) simp
  qed
qed

text \<open>Logging a record keeps the log in step with the state.\<close>

lemma same_prop_refl [simp]: "same_prop p p"
  by (simp add: same_prop_def)

lemma logged_append:
  assumes "logged x" and "rec_ok r" and "ac_log y = ac_log x @ show_rec r" and "ac_me y = ac_me x"
    and "\<And>z. same_acceptor x z \<Longrightarrow> same_acceptor y (apply_rec z r)"
  shows "logged y"
proof -
  obtain recs where r: "list_all rec_ok recs" "ac_log x = concat (map show_rec recs)"
    "same_acceptor x (foldl apply_rec (blank_acceptor (ac_me x) []) recs)"
    using assms(1) by (auto simp: logged_def)
  then show ?thesis
    using assms(2-5) unfolding logged_def by (intro exI [of _ "recs @ [r]"]) simp
qed

lemma logged_same:
  assumes "logged x" and "ac_log y = ac_log x" and "ac_me y = ac_me x" and "\<And>z. same_acceptor x z \<Longrightarrow> same_acceptor y z"
  shows "logged y"
  using assms by (auto simp: logged_def)

lemma commit_logged:
  assumes "logged x" and "line_ok v"
  shows "logged (fst (commit_wo i v x))"
proof (cases "ac_instance_h x < i")
  case True
  show ?thesis
    by (rule logged_append [OF assms(1), of "L_done i v"])
      (use True assms(2) in \<open>auto simp: commit_wo_def loginstance_def same_acceptor_def same_prop_def val_of_def fun_eq_iff\<close>)
qed (use assms in \<open>simp add: commit_wo_def\<close>)

lemma prepare_logged:
  assumes "logged x" and "word_ok (pt_m (pa_n a))"
  shows "logged (snd (preparereq a r x))"
proof -
  consider "pa_instance a \<le> ac_instance_h x" | "\<not> pa_instance a \<le> ac_instance_h x" "prop_gt (pa_n a) (ac_n_h x)"
    | "\<not> pa_instance a \<le> ac_instance_h x" "\<not> prop_gt (pa_n a) (ac_n_h x)"
    by blast
  then show ?thesis
  proof cases
    case 1
    show ?thesis
      by (rule logged_same [OF assms(1)])
        (use 1 in \<open>auto simp: preparereq_def same_acceptor_def val_of_def fun_eq_iff Let_def\<close>)
  next
    case 2
    show ?thesis
      by (rule logged_append [OF assms(1), of "L_propseen (pa_n a)"])
        (use 2 assms(2) in \<open>auto simp: preparereq_def logprop_def same_acceptor_def val_of_def fun_eq_iff Let_def\<close>)
  qed (use assms in \<open>simp add: preparereq_def Let_def\<close>)
qed

lemma accept_logged:
  assumes "logged x" and "word_ok (pt_m (aa_n a))" and "line_ok (aa_v a)"
  shows "logged (snd (acceptreq a x))"
proof (cases "prop_ge (aa_n a) (ac_n_h x)")
  case True
  show ?thesis
    by (rule logged_append [OF assms(1), of "L_accepted (aa_n a) (aa_v a)"])
      (use True assms(2,3) in \<open>auto simp: acceptreq_def logaccept_def same_acceptor_def val_of_def fun_eq_iff\<close>)
qed (use assms in \<open>simp add: acceptreq_def\<close>)

lemma exec_logged: "logged x \<Longrightarrow> acc_op_ok a \<Longrightarrow> acc_exec a x = Returns y \<Longrightarrow> logged y"
  by (cases a) (auto simp: commit_logged prepare_logged accept_logged commit_def decidereq_def obind_Returns_iff split: if_splits
      dest: commit_logged [of x "ac_v_a x" "ac_instance_h x + 1"])

lemma run_logged: "logged x \<Longrightarrow> list_all acc_op_ok as \<Longrightarrow> acc_run as x = Returns y \<Longrightarrow> logged y"
  using exec_logged by (induction as arbitrary: x) (auto simp: obind_Returns_iff)

text \<open>The instance number only grows, and the name stays.\<close>

lemma exec_instance:
  assumes "acc_exec a x = Returns y"
  shows "ac_instance_h x \<le> ac_instance_h y" "ac_me y = ac_me x"
  using assms
  by (cases a; auto simp: commit_def commit_wo_def decidereq_def preparereq_def acceptreq_def loginstance_def logprop_def
      logaccept_def obind_Returns_iff Let_def split: if_splits)+

lemma run_instance: "acc_run as x = Returns y \<Longrightarrow> ac_instance_h x \<le> ac_instance_h y \<and> ac_me y = ac_me x"
proof (induction as arbitrary: x)
  case (Cons a as)
  then obtain z where "acc_exec a x = Returns z" "acc_run as z = Returns y"
    by (auto simp: obind_Returns_iff)
  then show ?case
    using exec_instance Cons.IH [of z] by force
qed simp

lemma acceptor_new_fresh:
  "acceptor_new junk first me val [] = Returns
     (if first then (loginstance 1 val ((blank_acceptor me [])\<lparr>ac_values := [1 \<mapsto> val]\<rparr>))\<lparr>ac_instance_h := 1\<rparr> else blank_acceptor me [])"
  by (subst acceptor_new_def) (simp add: logread_def ifs_open_def blank_acceptor_def loginstance_def
      logread_recs [where recs = "[]" and ws = "[]", simplified])

lemma acceptor_new_logged:
  assumes "acceptor_new junk first me val [] = Returns x" and "line_ok val"
  shows "logged x" "ac_me x = me" "first \<Longrightarrow> ac_instance_h x \<noteq> 0"
proof -
  have b: "logged (blank_acceptor me [])"
    unfolding logged_def by (rule exI [of _ "[]"]) (simp add: same_acceptor_def blank_acceptor_def)
  have "logged ((loginstance 1 val ((blank_acceptor me [])\<lparr>ac_values := [1 \<mapsto> val]\<rparr>))\<lparr>ac_instance_h := 1\<rparr>)"
    by (rule logged_append [OF b, of "L_done 1 val"])
      (use assms(2) in \<open>auto simp: loginstance_def blank_acceptor_def same_acceptor_def same_prop_def val_of_def fun_eq_iff\<close>)
  then show "logged x" "ac_me x = me" "first \<Longrightarrow> ac_instance_h x \<noteq> 0"
    using b assms(1) by (auto simp: acceptor_new_fresh loginstance_def blank_acceptor_def split: if_splits)
qed

lemma recover_logged:
  assumes "logged x" and "ac_me x = me" and "first \<longrightarrow> ac_instance_h x \<noteq> 0"
  shows "\<exists>y. acceptor_new junk first me val (ac_log x) = Returns y \<and> same_acceptor x y"
proof -
  obtain recs where r: "list_all rec_ok recs" "ac_log x = concat (map show_rec recs)"
    "same_acceptor x (foldl apply_rec (blank_acceptor me []) recs)"
    using assms(1,2) by (auto simp: logged_def)
  let ?y = "foldl apply_rec (blank_acceptor me (ac_log x)) recs"
  have "logread junk (blank_acceptor me (ac_log x)) = Returns ?y"
    using logread_recs [OF r(1), of "[]" "[]" junk] r(2) by (simp add: logread_def ifs_open_def blank_acceptor_def)
  moreover have ap: "apply_rec (z\<lparr>ac_log := f\<rparr>) r = (apply_rec z r)\<lparr>ac_log := f\<rparr>" for z f r
    by (cases r) simp_all
  have fl: "foldl apply_rec (z\<lparr>ac_log := f\<rparr>) recs = (foldl apply_rec z recs)\<lparr>ac_log := f\<rparr>" for z f recs
    by (induction recs arbitrary: z) (simp_all add: ap)
  have "?y = (foldl apply_rec (blank_acceptor me []) recs)\<lparr>ac_log := ac_log x\<rparr>"
    using fl [where z = "blank_acceptor me []" and f = "ac_log x" and recs = recs] by (simp add: blank_acceptor_def)
  then have "same_acceptor x ?y"
    using r(3) by (simp add: same_acceptor_def val_of_def fun_eq_iff)
  ultimately show ?thesis
    using assms(3) by (auto simp: acceptor_new_def same_acceptor_def simp flip: blank_acceptor_def)
qed

section \<open>Properties\<close>

text \<open>C36: The log recovers an acceptor: after any sequence of prepare, accept and decide requests and commits,
  an acceptor that is restarted on the log file behaves like the one that wrote it: the same
  promised and accepted proposals, decided instances and values. Node names are single words and
  values single lines, as the configuration layer makes them.\<close>

theorem log_recovers:
  assumes "acceptor_new junk first me val [] = Returns x" and "line_ok val" and "list_all acc_op_ok as" and "acc_run as x = Returns y"
  shows "\<exists>z. acceptor_new junk' first me val' (ac_log y) = Returns z \<and> same_acceptor y z"
proof -
  note n = acceptor_new_logged [OF assms(1,2)]
  have "logged y" "ac_me y = me" "ac_instance_h x \<le> ac_instance_h y"
    using run_logged [OF n(1) assms(3,4)] run_instance [OF assms(4)] n(2) by auto
  then show ?thesis
    using n(3) by (intro recover_logged) (auto simp: word_le_0_iff)
qed

theorem log_recovers_witness:
  "\<exists>y z. acc_run [A_prepare \<lparr>pa_instance = 2, pa_n = \<lparr>pt_n = 3, pt_m = ''n1''\<rparr>\<rparr> \<lparr>pr_oldinstance = False, pr_accept = False,
         pr_n_a = \<lparr>pt_n = 0, pt_m = []\<rparr>, pr_v_a = []\<rparr>, A_accept \<lparr>aa_instance = 2, aa_n = \<lparr>pt_n = 3, pt_m = ''n1''\<rparr>, aa_v = ''n1 n2''\<rparr>]
       (returned (acceptor_new 0 True ''n1'' ''n1'' [])) = Returns y
     \<and> ac_n_h y = \<lparr>pt_n = 3, pt_m = ''n1''\<rparr> \<and> acceptor_new 9 True ''n1'' [] (ac_log y) = Returns z \<and> same_acceptor y z"
proof -
  let ?ops = "[A_prepare \<lparr>pa_instance = 2, pa_n = \<lparr>pt_n = 3, pt_m = ''n1''\<rparr>\<rparr> \<lparr>pr_oldinstance = False, pr_accept = False,
         pr_n_a = \<lparr>pt_n = 0, pt_m = []\<rparr>, pr_v_a = []\<rparr>, A_accept \<lparr>aa_instance = 2, aa_n = \<lparr>pt_n = 3, pt_m = ''n1''\<rparr>, aa_v = ''n1 n2''\<rparr>]"
  obtain x where x: "acceptor_new 0 True ''n1'' ''n1'' [] = Returns x" "ac_instance_h x = 1" "ac_n_h x = \<lparr>pt_n = 0, pt_m = ''n1''\<rparr>"
    by (simp add: acceptor_new_fresh loginstance_def blank_acceptor_def)
  let ?n = "\<lparr>pt_n = 3, pt_m = ''n1''\<rparr>"
  have "snd (preparereq \<lparr>pa_instance = 2, pa_n = ?n\<rparr> r x) = logprop ?n (x\<lparr>ac_n_h := ?n\<rparr>)" for r
    using x(2,3) by (simp add: preparereq_def prop_gt_def word_le_nat_alt Let_def)
  moreover have "prop_ge ?n ?n"
    by (simp add: prop_ge_def)
  ultimately obtain y where y: "acc_run ?ops x = Returns y" "ac_n_h y = ?n"
    by (simp add: acceptreq_def logprop_def logaccept_def)
  have "list_all acc_op_ok ?ops" "line_ok ''n1''"
    by (simp_all add: word_ok_def line_ok_def isspace_def newline_def)
  then show ?thesis
    using log_recovers [OF x(1) _ _ y(1), of 9 "[]"] x y by auto
qed

end
