(* ===== verification/Paxos.thy ===== *)
theory Paxos
  imports Paxos_Acceptor
begin

text \<open>
  The Paxos proposer (class \<open>proposer\<close> of paxos.cc), and agreement.

  \<^item> \<open>proposer_run\<close> is one call of \<open>proposer::run\<close> with nothing else going on: a \<open>world\<close> holds the
    acceptor of every node, the nodes whose process has died, and the calls of \<open>paxos_commit\<close> that
    were made. The fate of every remote call is an argument; \<open>None\<close> is a failed \<open>safebind\<close>.
  \<^item> \<open>px_step\<close> is one Paxos instance with any number of concurrent proposers: its steps are the handlers
    of the acceptor and the loop bodies of the proposer, and requests and replies may be delayed
    arbitrarily. Its parameter \<open>strict\<close> tells whether an acceptor drops the accept requests of an
    instance it has already decided. The code does not: it never looks at \<open>a.instance\<close>.
  \<^item> \<open>px_inv\<close> is the invariant behind agreement. Votes are ghost state.
\<close>

section \<open>Members and majorities\<close>

fun print_members :: "string list \<Rightarrow> string" where
  "print_members [] = []"
| "print_members [s] = s"
| "print_members (s # ss) = s @ '','' @ print_members ss"

fun isamember :: "string \<Rightarrow> string list \<Rightarrow> bool" where
  "isamember m [] = False"
| "isamember m (s # ss) = (if s = m then True else isamember m ss)"

definition majority :: "string list \<Rightarrow> string list \<Rightarrow> bool" where
  "majority l1 l2 = (length (filter (\<lambda>s. isamember s l2) l1) \<ge> drop_bit 1 (length l1) + 1)"

section \<open>Proposer state\<close>

record proposer =
  po_me :: string
  po_break1 :: bool
  po_break2 :: bool
  po_stable :: bool
  po_my_n :: prop_t

definition proposer_new :: "string \<Rightarrow> proposer" where
  "proposer_new me = \<lparr>po_me = me, po_break1 = False, po_break2 = False, po_stable = True, po_my_n = \<lparr>pt_n = 0, pt_m = me\<rparr>\<rparr>"

definition isrunning :: "proposer \<Rightarrow> bool" where
  "isrunning p = (\<not> po_stable p)"

definition setn :: "prop_t \<Rightarrow> proposer \<Rightarrow> proposer" where
  "setn n_h p = p\<lparr>po_my_n := (po_my_n p)\<lparr>pt_n := if pt_n n_h + 1 > pt_n (po_my_n p) + 1 then pt_n n_h + 1 else pt_n (po_my_n p) + 1\<rparr>\<rparr>"

text \<open>The breakpoints end the process.\<close>

definition breakpoint1 :: "proposer \<Rightarrow> 'a outcome \<Rightarrow> 'a outcome" where
  "breakpoint1 p k = (if po_break1 p then Aborts else k)"

definition breakpoint2 :: "proposer \<Rightarrow> 'a outcome \<Rightarrow> 'a outcome" where
  "breakpoint2 p k = (if po_break2 p then Aborts else k)"

definition breakpoint :: "u32 \<Rightarrow> proposer \<Rightarrow> proposer" where
  "breakpoint b p = (if b = 3 then p\<lparr>po_break1 := True\<rparr> else if b = 4 then p\<lparr>po_break2 := True\<rparr> else p)"

section \<open>A run without interference\<close>

record world =
  w_acc :: "string \<Rightarrow> acceptor"
  w_down :: "string list"
  w_commits :: "(string \<times> u32 \<times> string) list"

definition upcall :: "string \<Rightarrow> (u32 \<times> string) option \<Rightarrow> (string \<times> u32 \<times> string) list" where
  "upcall s c = (case c of None \<Rightarrow> [] | Some (i, v) \<Rightarrow> [(s, i, v)])"

definition serve :: "string \<Rightarrow> (acceptor \<Rightarrow> ('r \<times> acceptor \<times> (u32 \<times> string) option) outcome) \<Rightarrow> world \<Rightarrow> 'r option \<times> world" where
  "serve s meth w =
     (if s \<in> set (w_down w) then (None, w)
      else case meth (w_acc w s) of
             Aborts \<Rightarrow> (None, w\<lparr>w_down := s # w_down w\<rparr>)
           | Returns (r, x, c) \<Rightarrow> (Some r, w\<lparr>w_acc := (w_acc w)(s := x), w_commits := w_commits w @ upcall s c\<rparr>))"

fun px_call :: "net \<Rightarrow> string \<Rightarrow> (acceptor \<Rightarrow> ('r \<times> acceptor \<times> (u32 \<times> string) option) outcome) \<Rightarrow> 'r \<Rightarrow> world \<Rightarrow> u32 \<times> 'r \<times> world" where
  "px_call Delivered s meth r w =
     (case serve s meth w of (Some r', w') \<Rightarrow> (paxos_OK, r', w') | (None, w') \<Rightarrow> (timeout_failure, r, w'))"
| "px_call (Lost e) s meth r w = (e, r, w)"
| "px_call (Late e) s meth r w = (e, r, snd (serve s meth w))"

text \<open>What \<open>prepare\<close> has gathered so far: \<open>accepts\<close>, \<open>v\<close> and \<open>max_n\<close>.\<close>

record tally =
  tl_accepts :: "string list"
  tl_v :: string
  tl_max :: prop_t

definition tally_new :: tally where
  "tally_new = \<lparr>tl_accepts = [], tl_v = [], tl_max = \<lparr>pt_n = 0, pt_m = []\<rparr>\<rparr>"

definition tally_add :: "string \<Rightarrow> prepareres \<Rightarrow> tally \<Rightarrow> tally" where
  "tally_add s r t =
     (let t = t\<lparr>tl_accepts := tl_accepts t @ [s]\<rparr>
      in if prop_gt (pr_n_a r) (tl_max t) then t\<lparr>tl_v := pr_v_a r, tl_max := pr_n_a r\<rparr> else t)"

definition commit_at :: "string \<Rightarrow> u32 \<Rightarrow> string \<Rightarrow> world \<Rightarrow> world" where
  "commit_at me i v w =
     (let (x, c) = commit i v (w_acc w me) in w\<lparr>w_acc := (w_acc w)(me := x), w_commits := w_commits w @ upcall me c\<rparr>)"

definition preparereq_m :: "preparearg \<Rightarrow> prepareres \<Rightarrow> acceptor \<Rightarrow> (prepareres \<times> acceptor \<times> (u32 \<times> string) option) outcome" where
  "preparereq_m a junk x = (let (r, x) = preparereq a junk x in Returns (r, x, None))"

definition acceptreq_m :: "acceptarg \<Rightarrow> acceptor \<Rightarrow> (bool \<times> acceptor \<times> (u32 \<times> string) option) outcome" where
  "acceptreq_m a x = (let (r, x) = acceptreq a x in Returns (r, x, None))"

definition decidereq_m :: "decidearg \<Rightarrow> acceptor \<Rightarrow> (u32 \<times> acceptor \<times> (u32 \<times> string) option) outcome" where
  "decidereq_m a x = obind (decidereq a x) (\<lambda>(x, c). Returns (0, x, c))"

fun proposer_prepare :: "(nat \<Rightarrow> net option) \<Rightarrow> prepareres \<Rightarrow> string \<Rightarrow> preparearg \<Rightarrow> prepareres \<Rightarrow> string list \<Rightarrow> tally \<Rightarrow> world \<Rightarrow> bool \<times> tally \<times> world" where
  "proposer_prepare nets junk me a r [] t w = (True, t, w)"
| "proposer_prepare nets junk me a r (s # nodes) t w =
     (case nets 0 of
        None \<Rightarrow> proposer_prepare (nets \<circ> Suc) junk me a r nodes t w
      | Some nt \<Rightarrow>
          let (ret, r, w) = px_call nt s (preparereq_m a junk) r w
          in if pr_oldinstance r \<and> ret = paxos_OK then (False, t, commit_at me (pa_instance a) (pr_v_a r) w)
             else proposer_prepare (nets \<circ> Suc) junk me a r nodes
                    (if pr_accept r \<and> ret = paxos_OK then tally_add s r t else t) w)"

fun proposer_accept :: "(nat \<Rightarrow> net option) \<Rightarrow> acceptarg \<Rightarrow> string list \<Rightarrow> string list \<Rightarrow> world \<Rightarrow> (string list \<times> world) outcome" where
  "proposer_accept nets a [] acks w = Returns (acks, w)"
| "proposer_accept nets a (s # nodes) acks w =
     (case nets 0 of
        None \<Rightarrow> Aborts
      | Some nt \<Rightarrow>
          let (ret, r, w) = px_call nt s (acceptreq_m a) False w
          in proposer_accept (nets \<circ> Suc) a nodes (if r \<and> ret = paxos_OK then acks @ [s] else acks) w)"

fun proposer_decide :: "(nat \<Rightarrow> net option) \<Rightarrow> decidearg \<Rightarrow> string list \<Rightarrow> world \<Rightarrow> world outcome" where
  "proposer_decide nets a [] w = Returns w"
| "proposer_decide nets a (s # nodes) w =
     (case nets 0 of
        None \<Rightarrow> Aborts
      | Some nt \<Rightarrow> let (ret, r, w) = px_call nt s (decidereq_m a) 0 w in proposer_decide (nets \<circ> Suc) a nodes w)"

text \<open>The \<open>instance\<close> field of the accept request is never set: \<open>garbage\<close>.\<close>

record px_env =
  pe_prepare :: "nat \<Rightarrow> net option"
  pe_accept :: "nat \<Rightarrow> net option"
  pe_decide :: "nat \<Rightarrow> net option"
  pe_junk :: prepareres
  pe_garbage :: u32

definition proposer_run :: "px_env \<Rightarrow> u32 \<Rightarrow> string list \<Rightarrow> string \<Rightarrow> proposer \<Rightarrow> world \<Rightarrow> (bool \<times> proposer \<times> world) outcome" where
  "proposer_run e i cur_nodes newv p w =
     (if \<not> po_stable p then Returns (False, p, w)
      else let p = setn (ac_n_h (w_acc w (po_me p))) (p\<lparr>po_stable := False\<rparr>);
               (ok, t, w) = proposer_prepare (pe_prepare e) (pe_junk e) (po_me p) \<lparr>pa_instance = i, pa_n = po_my_n p\<rparr>
                              (pe_junk e) cur_nodes tally_new w
           in if \<not> ok \<or> \<not> majority cur_nodes (tl_accepts t) then Returns (False, p\<lparr>po_stable := True\<rparr>, w)
              else let v = (if length (tl_v t) = 0 then newv else tl_v t)
                   in breakpoint1 p (obind
                        (proposer_accept (pe_accept e) \<lparr>aa_instance = pe_garbage e, aa_n = po_my_n p, aa_v = v\<rparr> (tl_accepts t) [] w)
                        (\<lambda>(acks, w). if \<not> majority cur_nodes acks then Returns (False, p\<lparr>po_stable := True\<rparr>, w)
                           else breakpoint2 p (obind (proposer_decide (pe_decide e) \<lparr>da_instance = i, da_v = v\<rparr> acks w)
                                  (\<lambda>w. Returns (True, p\<lparr>po_stable := True\<rparr>, w))))))"

section \<open>Concurrent proposers\<close>

text \<open>
  A round is one call of \<open>run\<close>, known by its proposal number: the value it would like, what
  \<open>prepare\<close> gathered, then the value it asks to accept, the nodes that accepted, and whether it has
  gone on to \<open>decide\<close>. Requests that were sent can arrive at any time, also when the round is over.
\<close>

datatype phase = Preparing | Accepting | Over

record round =
  rd_newv :: string
  rd_tally :: tally
  rd_phase :: phase
  rd_sent :: "string option"
  rd_acks :: "string list"
  rd_chosen :: bool

text \<open>
  \<open>px_replies\<close> are the replies to prepare requests, \<open>px_votes\<close> the positive replies to accept
  requests, which are also the votes of the acceptors.
\<close>

record px =
  px_acc :: "string \<Rightarrow> acceptor"
  px_prop :: "string \<Rightarrow> proposer"
  px_round :: "prop_t \<rightharpoonup> round"
  px_replies :: "(prop_t \<times> string \<times> prepareres) set"
  px_votes :: "(string \<times> prop_t) set"

definition set_acc :: "string \<Rightarrow> acceptor \<Rightarrow> px \<Rightarrow> px" where
  "set_acc x a s = s\<lparr>px_acc := (px_acc s)(x := a)\<rparr>"

definition set_round :: "prop_t \<Rightarrow> round \<Rightarrow> px \<Rightarrow> px" where
  "set_round b r s = s\<lparr>px_round := (px_round s)(b \<mapsto> r)\<rparr>"

definition set_stable :: "string \<Rightarrow> bool \<Rightarrow> px \<Rightarrow> px" where
  "set_stable m q s = s\<lparr>px_prop := (px_prop s)(m := (px_prop s m)\<lparr>po_stable := q\<rparr>)\<rparr>"

definition round_new :: "string \<Rightarrow> round" where
  "round_new newv = \<lparr>rd_newv = newv, rd_tally = tally_new, rd_phase = Preparing, rd_sent = None, rd_acks = [], rd_chosen = False\<rparr>"

definition round_value :: "round \<Rightarrow> string" where
  "round_value r = (if length (tl_v (rd_tally r)) = 0 then rd_newv r else tl_v (rd_tally r))"

inductive px_step :: "bool \<Rightarrow> string list \<Rightarrow> u32 \<Rightarrow> px \<Rightarrow> px \<Rightarrow> bool"
  for strict :: bool and nodes :: "string list" and i :: u32 where
  px_start: "\<lbrakk>po_stable (px_prop s m); newv \<noteq> [];
      pt_n (ac_n_h (px_acc s m)) \<noteq> - 1; pt_n (po_my_n (px_prop s m)) \<noteq> - 1;
      p = setn (ac_n_h (px_acc s m)) ((px_prop s m)\<lparr>po_stable := False\<rparr>)\<rbrakk>
    \<Longrightarrow> px_step strict nodes i s (set_round (po_my_n p) (round_new newv) (s\<lparr>px_prop := (px_prop s)(m := p)\<rparr>))"
| px_prepared: "\<lbrakk>px_round s b = Some r; preparereq \<lparr>pa_instance = i, pa_n = b\<rparr> junk (px_acc s x) = (res, a)\<rbrakk>
    \<Longrightarrow> px_step strict nodes i s (set_acc x a (s\<lparr>px_replies := insert (b, x, res) (px_replies s)\<rparr>))"
| px_promised: "\<lbrakk>px_round s b = Some r; rd_phase r = Preparing; (b, x, res) \<in> px_replies s; \<not> pr_oldinstance res; pr_accept res\<rbrakk>
    \<Longrightarrow> px_step strict nodes i s (set_round b (r\<lparr>rd_tally := tally_add x res (rd_tally r)\<rparr>) s)"
| px_old: "\<lbrakk>px_round s b = Some r; rd_phase r = Preparing; (b, x, res) \<in> px_replies s; pr_oldinstance res;
      commit i (pr_v_a res) (px_acc s (pt_m b)) = (a, c)\<rbrakk>
    \<Longrightarrow> px_step strict nodes i s (set_stable (pt_m b) True (set_round b (r\<lparr>rd_phase := Over\<rparr>) (set_acc (pt_m b) a s)))"
| px_propose: "\<lbrakk>px_round s b = Some r; rd_phase r = Preparing; majority nodes (tl_accepts (rd_tally r))\<rbrakk>
    \<Longrightarrow> px_step strict nodes i s (set_round b (r\<lparr>rd_phase := Accepting, rd_sent := Some (round_value r)\<rparr>) s)"
| px_accepted: "\<lbrakk>px_round s b = Some r; rd_sent r = Some v; isamember x (tl_accepts (rd_tally r));
      strict \<longrightarrow> ac_instance_h (px_acc s x) < i;
      acceptreq \<lparr>aa_instance = garbage, aa_n = b, aa_v = v\<rparr> (px_acc s x) = (ok, a)\<rbrakk>
    \<Longrightarrow> px_step strict nodes i s (set_acc x a (s\<lparr>px_votes := (if ok then insert (x, b) (px_votes s) else px_votes s)\<rparr>))"
| px_acked: "\<lbrakk>px_round s b = Some r; rd_phase r = Accepting; \<not> rd_chosen r; (x, b) \<in> px_votes s\<rbrakk>
    \<Longrightarrow> px_step strict nodes i s (set_round b (r\<lparr>rd_acks := rd_acks r @ [x]\<rparr>) s)"
| px_choose: "\<lbrakk>px_round s b = Some r; rd_phase r = Accepting; majority nodes (rd_acks r)\<rbrakk>
    \<Longrightarrow> px_step strict nodes i s (set_round b (r\<lparr>rd_chosen := True\<rparr>) s)"
| px_decided: "\<lbrakk>px_round s b = Some r; rd_chosen r; rd_sent r = Some v; isamember x (rd_acks r);
      decidereq \<lparr>da_instance = i, da_v = v\<rparr> (px_acc s x) = Returns (a, c)\<rbrakk>
    \<Longrightarrow> px_step strict nodes i s (set_acc x a s)"
| px_over: "\<lbrakk>px_round s b = Some r; rd_phase r \<noteq> Over\<rbrakk>
    \<Longrightarrow> px_step strict nodes i s (set_stable (pt_m b) True (set_round b (r\<lparr>rd_phase := Over\<rparr>) s))"

text \<open>The steps as an executable function of an action, for running examples.\<close>

datatype px_act = Start string string | Prepare prop_t string prepareres | Promise prop_t string prepareres
  | Old prop_t string prepareres | Propose prop_t | Accept prop_t string u32 | Ack prop_t string | Choose prop_t
  | Decide prop_t string | Finish prop_t

fun px_do :: "bool \<Rightarrow> string list \<Rightarrow> u32 \<Rightarrow> px_act \<Rightarrow> px \<Rightarrow> px option" where
  "px_do strict nodes i (Start m newv) s =
     (if po_stable (px_prop s m) \<and> newv \<noteq> [] \<and> pt_n (ac_n_h (px_acc s m)) \<noteq> - 1 \<and> pt_n (po_my_n (px_prop s m)) \<noteq> - 1
      then let p = setn (ac_n_h (px_acc s m)) ((px_prop s m)\<lparr>po_stable := False\<rparr>)
           in Some (set_round (po_my_n p) (round_new newv) (s\<lparr>px_prop := (px_prop s)(m := p)\<rparr>))
      else None)"
| "px_do strict nodes i (Prepare b x junk) s =
     (case px_round s b of None \<Rightarrow> None
      | Some r \<Rightarrow> let (res, a) = preparereq \<lparr>pa_instance = i, pa_n = b\<rparr> junk (px_acc s x)
                  in Some (set_acc x a (s\<lparr>px_replies := insert (b, x, res) (px_replies s)\<rparr>)))"
| "px_do strict nodes i (Promise b x res) s =
     (case px_round s b of None \<Rightarrow> None
      | Some r \<Rightarrow> if rd_phase r = Preparing \<and> (b, x, res) \<in> px_replies s \<and> \<not> pr_oldinstance res \<and> pr_accept res
                  then Some (set_round b (r\<lparr>rd_tally := tally_add x res (rd_tally r)\<rparr>) s) else None)"
| "px_do strict nodes i (Old b x res) s =
     (case px_round s b of None \<Rightarrow> None
      | Some r \<Rightarrow> if rd_phase r = Preparing \<and> (b, x, res) \<in> px_replies s \<and> pr_oldinstance res
                  then let (a, c) = commit i (pr_v_a res) (px_acc s (pt_m b))
                       in Some (set_stable (pt_m b) True (set_round b (r\<lparr>rd_phase := Over\<rparr>) (set_acc (pt_m b) a s)))
                  else None)"
| "px_do strict nodes i (Propose b) s =
     (case px_round s b of None \<Rightarrow> None
      | Some r \<Rightarrow> if rd_phase r = Preparing \<and> majority nodes (tl_accepts (rd_tally r))
                  then Some (set_round b (r\<lparr>rd_phase := Accepting, rd_sent := Some (round_value r)\<rparr>) s) else None)"
| "px_do strict nodes i (Accept b x garbage) s =
     (case px_round s b of None \<Rightarrow> None
      | Some r \<Rightarrow> (case rd_sent r of None \<Rightarrow> None
         | Some v \<Rightarrow> if isamember x (tl_accepts (rd_tally r)) \<and> (strict \<longrightarrow> ac_instance_h (px_acc s x) < i)
             then let (ok, a) = acceptreq \<lparr>aa_instance = garbage, aa_n = b, aa_v = v\<rparr> (px_acc s x)
                  in Some (set_acc x a (s\<lparr>px_votes := (if ok then insert (x, b) (px_votes s) else px_votes s)\<rparr>))
             else None))"
| "px_do strict nodes i (Ack b x) s =
     (case px_round s b of None \<Rightarrow> None
      | Some r \<Rightarrow> if rd_phase r = Accepting \<and> \<not> rd_chosen r \<and> (x, b) \<in> px_votes s
                  then Some (set_round b (r\<lparr>rd_acks := rd_acks r @ [x]\<rparr>) s) else None)"
| "px_do strict nodes i (Choose b) s =
     (case px_round s b of None \<Rightarrow> None
      | Some r \<Rightarrow> if rd_phase r = Accepting \<and> majority nodes (rd_acks r)
                  then Some (set_round b (r\<lparr>rd_chosen := True\<rparr>) s) else None)"
| "px_do strict nodes i (Decide b x) s =
     (case px_round s b of None \<Rightarrow> None
      | Some r \<Rightarrow> (case rd_sent r of None \<Rightarrow> None
         | Some v \<Rightarrow> if rd_chosen r \<and> isamember x (rd_acks r)
             then (case decidereq \<lparr>da_instance = i, da_v = v\<rparr> (px_acc s x) of Returns (a, c) \<Rightarrow> Some (set_acc x a s) | Aborts \<Rightarrow> None)
             else None))"
| "px_do strict nodes i (Finish b) s =
     (case px_round s b of None \<Rightarrow> None
      | Some r \<Rightarrow> if rd_phase r \<noteq> Over then Some (set_stable (pt_m b) True (set_round b (r\<lparr>rd_phase := Over\<rparr>) s)) else None)"

fun px_run :: "bool \<Rightarrow> string list \<Rightarrow> u32 \<Rightarrow> px_act list \<Rightarrow> px \<Rightarrow> px option" where
  "px_run strict nodes i [] s = Some s"
| "px_run strict nodes i (a # as) s = (case px_do strict nodes i a s of None \<Rightarrow> None | Some t \<Rightarrow> px_run strict nodes i as t)"

definition px_init :: "u32 \<Rightarrow> px \<Rightarrow> bool" where
  "px_init i s =
     (i \<noteq> 0 \<and> (\<forall>x. ac_instance_h (px_acc s x) = i - 1 \<and> pt_n (ac_n_a (px_acc s x)) = 0 \<and> ac_v_a (px_acc s x) = [])
      \<and> (\<forall>m. pt_m (po_my_n (px_prop s m)) = m) \<and> px_round s = Map.empty \<and> px_replies s = {} \<and> px_votes s = {})"

section \<open>Invariant\<close>

definition undecided :: "u32 \<Rightarrow> px \<Rightarrow> string \<Rightarrow> bool" where
  "undecided i s x = (ac_instance_h (px_acc s x) < i)"

definition px_val :: "px \<Rightarrow> prop_t \<Rightarrow> string" where
  "px_val s b = (case px_round s b of Some r \<Rightarrow> (case rd_sent r of Some v \<Rightarrow> v | None \<Rightarrow> []) | None \<Rightarrow> [])"

text \<open>A proposal is chosen when a majority has voted for it.\<close>

definition chosen :: "string list \<Rightarrow> px \<Rightarrow> prop_t \<Rightarrow> bool" where
  "chosen nodes s b = (\<exists>q. majority nodes q \<and> (\<forall>x \<in> set q. (x, b) \<in> px_votes s))"

text \<open>\<open>x\<close> has promised not to vote below \<open>b\<close> any more, and all its votes below \<open>b\<close> are at most \<open>n\<close>.\<close>

definition promise :: "u32 \<Rightarrow> px \<Rightarrow> string \<Rightarrow> prop_t \<Rightarrow> prop_t \<Rightarrow> bool" where
  "promise i s x b n = ((undecided i s x \<longrightarrow> b \<le> ac_n_h (px_acc s x)) \<and> (\<forall>c. (x, c) \<in> px_votes s \<longrightarrow> c < b \<longrightarrow> c \<le> n))"

text \<open>\<open>v\<close> is the value of proposal \<open>n\<close>, for which somebody voted; or there is no such value.\<close>

definition backed :: "px \<Rightarrow> prop_t \<Rightarrow> prop_t \<Rightarrow> string \<Rightarrow> bool" where
  "backed s b n v = (pt_n n = 0 \<and> v = [] \<or> (\<exists>y. (y, n) \<in> px_votes s) \<and> n < b \<and> v = px_val s n)"

definition acc_inv :: "string list \<Rightarrow> u32 \<Rightarrow> px \<Rightarrow> string \<Rightarrow> bool" where
  "acc_inv nodes i s x = (let a = px_acc s x in
     if undecided i s x
     then ac_instance_h a = i - 1 \<and> (\<forall>c. (x, c) \<in> px_votes s \<longrightarrow> c \<le> ac_n_a a \<and> c \<le> ac_n_h a)
          \<and> (pt_n (ac_n_a a) = 0 \<and> ac_v_a a = [] \<or> (x, ac_n_a a) \<in> px_votes s \<and> ac_v_a a = px_val s (ac_n_a a))
     else ac_instance_h a = i \<and> (\<exists>b. chosen nodes s b \<and> ac_values a i = Some (px_val s b)))"

definition round_inv :: "string list \<Rightarrow> u32 \<Rightarrow> px \<Rightarrow> prop_t \<Rightarrow> round \<Rightarrow> bool" where
  "round_inv nodes i s b r =
     (pt_n b \<noteq> 0 \<and> pt_n b \<le> pt_n (po_my_n (px_prop s (pt_m b))) \<and> rd_newv r \<noteq> []
      \<and> (\<forall>x \<in> set (tl_accepts (rd_tally r)). promise i s x b (tl_max (rd_tally r)))
      \<and> backed s b (tl_max (rd_tally r)) (tl_v (rd_tally r))
      \<and> (rd_phase r = Preparing \<longrightarrow> rd_sent r = None) \<and> (rd_phase r = Accepting \<longrightarrow> rd_sent r \<noteq> None)
      \<and> (\<forall>v. rd_sent r = Some v \<longrightarrow> v = round_value r \<and> majority nodes (tl_accepts (rd_tally r)))
      \<and> (\<forall>x \<in> set (rd_acks r). (x, b) \<in> px_votes s) \<and> (rd_chosen r \<longrightarrow> majority nodes (rd_acks r)))"

definition reply_inv :: "string list \<Rightarrow> u32 \<Rightarrow> px \<Rightarrow> prop_t \<Rightarrow> string \<Rightarrow> prepareres \<Rightarrow> bool" where
  "reply_inv nodes i s b x res =
     (if pr_oldinstance res then \<exists>c. chosen nodes s c \<and> pr_v_a res = px_val s c
      else pr_accept res \<longrightarrow> promise i s x b (pr_n_a res) \<and> backed s b (pr_n_a res) (pr_v_a res))"

definition vote_inv :: "px \<Rightarrow> string \<Rightarrow> prop_t \<Rightarrow> bool" where
  "vote_inv s x c = (\<exists>r. px_round s c = Some r \<and> rd_sent r \<noteq> None \<and> x \<in> set (tl_accepts (rd_tally r)))"

definition px_inv :: "string list \<Rightarrow> u32 \<Rightarrow> px \<Rightarrow> bool" where
  "px_inv nodes i s =
     ((\<forall>x. acc_inv nodes i s x) \<and> (\<forall>b r. px_round s b = Some r \<longrightarrow> round_inv nodes i s b r)
      \<and> (\<forall>b x res. (b, x, res) \<in> px_replies s \<longrightarrow> reply_inv nodes i s b x res)
      \<and> (\<forall>x c. (x, c) \<in> px_votes s \<longrightarrow> vote_inv s x c) \<and> finite (dom (px_round s))
      \<and> (\<forall>m. pt_m (po_my_n (px_prop s m)) = m) \<and> i \<noteq> 0)"

text \<open>What every step respects.\<close>

definition round_le :: "round \<Rightarrow> round \<Rightarrow> bool" where
  "round_le r r' = ((rd_sent r \<noteq> None \<longrightarrow> rd_sent r' = rd_sent r) \<and> set (tl_accepts (rd_tally r)) \<subseteq> set (tl_accepts (rd_tally r')))"

definition evolves :: "u32 \<Rightarrow> px \<Rightarrow> px \<Rightarrow> bool" where
  "evolves i s t =
     (px_votes s \<subseteq> px_votes t
      \<and> (\<forall>c r. px_round s c = Some r \<longrightarrow> (\<exists>r'. px_round t c = Some r' \<and> round_le r r'))
      \<and> (\<forall>x. undecided i t x \<longrightarrow> undecided i s x \<and> ac_n_h (px_acc s x) \<le> ac_n_h (px_acc t x))
      \<and> (\<forall>x c. (x, c) \<in> px_votes t \<longrightarrow> (x, c) \<notin> px_votes s \<longrightarrow> undecided i s x \<and> ac_n_h (px_acc s x) \<le> c)
      \<and> (\<forall>m. pt_n (po_my_n (px_prop s m)) \<le> pt_n (po_my_n (px_prop t m))))"

section \<open>Majorities intersect\<close>

lemma isamember_iff [simp]: "isamember m ss \<longleftrightarrow> m \<in> set ss"
  by (induction ss) auto

locale quorum =
  fixes quorate :: "'q \<Rightarrow> bool" and member :: "'n \<Rightarrow> 'q \<Rightarrow> bool"
  assumes intersect: "quorate p \<Longrightarrow> quorate q \<Longrightarrow> \<exists>x. member x p \<and> member x q"
begin

text \<open>Facts that two quorums know, and on which no member can disagree, are the same.\<close>

lemma quorum_agree:
  assumes "quorate p" and "quorate q" and "\<And>x. member x p \<Longrightarrow> member x q \<Longrightarrow> P"
  shows P
  using intersect [OF assms(1,2)] assms(3) by blast

end

lemma majority_intersect:
  assumes "majority nodes p" and "majority nodes q"
  shows "\<exists>x. x \<in> set p \<and> x \<in> set q"
proof (rule ccontr)
  assume "\<not> ?thesis"
  then have d: "x \<in> set p \<Longrightarrow> x \<notin> set q" for x
    by blast
  have "length (filter (\<lambda>s. s \<in> set p) nodes) + length (filter (\<lambda>s. s \<in> set q) nodes) \<le> length nodes"
    using d by (induction nodes) auto
  then show False
    using assms by (simp add: majority_def drop_bit_eq_div)
qed

interpretation mj: quorum "majority nodes" "\<lambda>x q. x \<in> set q"
  using majority_intersect by unfold_locales blast

section \<open>Evolution of the state\<close>

lemma evolvesD:
  assumes "evolves i s t"
  shows "(x, c) \<in> px_votes s \<Longrightarrow> (x, c) \<in> px_votes t"
    and "px_round s b = Some r \<Longrightarrow> \<exists>r'. px_round t b = Some r' \<and> round_le r r'"
    and "undecided i t x \<Longrightarrow> undecided i s x"
    and "undecided i t x \<Longrightarrow> ac_n_h (px_acc s x) \<le> ac_n_h (px_acc t x)"
    and "(x, c) \<in> px_votes t \<Longrightarrow> (x, c) \<notin> px_votes s \<Longrightarrow> undecided i s x \<and> ac_n_h (px_acc s x) \<le> c"
    and "pt_n (po_my_n (px_prop s m)) \<le> pt_n (po_my_n (px_prop t m))"
  using assms unfolding evolves_def by simp_all (simp add: subset_iff)+

lemma vote_round:
  assumes "px_inv nodes i s" and "(x, c) \<in> px_votes s"
  shows "\<exists>r. px_round s c = Some r \<and> rd_sent r = Some (px_val s c) \<and> round_inv nodes i s c r \<and> x \<in> set (tl_accepts (rd_tally r))"
  using assms unfolding px_inv_def vote_inv_def by (fastforce simp: px_val_def)

lemma sent_nonempty: "round_inv nodes i s b r \<Longrightarrow> rd_sent r = Some v \<Longrightarrow> v \<noteq> []"
  by (auto simp: round_inv_def round_value_def)

lemma vote_nonempty: "px_inv nodes i s \<Longrightarrow> (x, c) \<in> px_votes s \<Longrightarrow> px_val s c \<noteq> [] \<and> pt_n c \<noteq> 0"
  using vote_round sent_nonempty by (metis round_inv_def)

lemma px_val_evolves:
  assumes "px_inv nodes i s" and "evolves i s t" and "(x, c) \<in> px_votes s"
  shows "px_val t c = px_val s c"
proof -
  obtain r where r: "px_round s c = Some r" "rd_sent r = Some (px_val s c)"
    using vote_round [OF assms(1,3)] by auto
  then obtain r' where r': "px_round t c = Some r'" "round_le r r'"
    using evolvesD(2) [OF assms(2) r(1)] by auto
  then have "rd_sent r' = Some (px_val s c)"
    using r(2) by (simp add: round_le_def)
  then show ?thesis
    using r'(1) by (simp add: px_val_def [of t])
qed

lemma promise_evolves:
  assumes "promise i s x b n" and "evolves i s t"
  shows "promise i t x b n"
proof -
  have "c \<le> n" if "(x, c) \<in> px_votes t" "c < b" for c
  proof (cases "(x, c) \<in> px_votes s")
    case True
    then show ?thesis
      using assms(1) that(2) by (simp add: promise_def)
  next
    case False
    then have "undecided i s x" "ac_n_h (px_acc s x) \<le> c"
      using evolvesD(5) [OF assms(2) that(1)] by auto
    then have "b \<le> c"
      using assms(1) by (auto simp: promise_def intro: order_trans)
    then show ?thesis
      using that(2) by simp
  qed
  moreover have "b \<le> ac_n_h (px_acc t x)" if "undecided i t x"
    using assms(1) evolvesD(3,4) [OF assms(2) that] by (auto simp: promise_def intro: order_trans)
  ultimately show ?thesis
    by (simp add: promise_def)
qed

lemma backed_evolves:
  assumes "backed s b n v" and "px_inv nodes i s" and "evolves i s t"
  shows "backed t b n v"
proof (cases "pt_n n = 0 \<and> v = []")
  case False
  then obtain y where y: "(y, n) \<in> px_votes s" "n < b" "v = px_val s n"
    using assms(1) by (auto simp: backed_def)
  then show ?thesis
    using px_val_evolves [OF assms(2,3) y(1)] evolvesD(1) [OF assms(3) y(1)] by (auto simp: backed_def)
qed (simp add: backed_def)

lemma chosen_evolves: "chosen nodes s b \<Longrightarrow> evolves i s t \<Longrightarrow> chosen nodes t b"
  unfolding chosen_def using evolvesD(1) by blast

lemma majority_nonempty: "majority nodes q \<Longrightarrow> q \<noteq> []"
  by (auto simp: majority_def)

lemma chosen_vote: "chosen nodes s b \<Longrightarrow> \<exists>x. (x, b) \<in> px_votes s"
  unfolding chosen_def using majority_nonempty by (meson list.set_sel(1))

lemma chosen_val: "chosen nodes s b \<Longrightarrow> px_inv nodes i s \<Longrightarrow> evolves i s t \<Longrightarrow> px_val t b = px_val s b"
  using chosen_vote px_val_evolves by blast

lemma acc_inv_evolves:
  assumes "px_inv nodes i s" and "evolves i s t" and "px_acc t x = px_acc s x"
    and "\<And>c. (x, c) \<in> px_votes t \<Longrightarrow> (x, c) \<in> px_votes s"
  shows "acc_inv nodes i t x"
proof -
  have a: "acc_inv nodes i s x"
    using assms(1) by (simp add: px_inv_def)
  have u: "undecided i t x = undecided i s x"
    using assms(3) by (simp add: undecided_def)
  have v: "px_votes s \<subseteq> px_votes t"
    using evolvesD(1) [OF assms(2)] by auto
  show ?thesis
  proof (cases "undecided i s x")
    case True
    then show ?thesis
      using a assms(3,4) u v px_val_evolves [OF assms(1,2)] unfolding acc_inv_def Let_def by (auto dest: subsetD)
  next
    case False
    then show ?thesis
      using a assms(3) u chosen_evolves [OF _ assms(2)] chosen_val [OF _ assms(1,2)] unfolding acc_inv_def Let_def by metis
  qed
qed

lemma round_inv_evolves:
  assumes "px_inv nodes i s" and "evolves i s t" and "round_inv nodes i s b r"
  shows "round_inv nodes i t b r"
  using assms(3) promise_evolves [OF _ assms(2)] backed_evolves [OF _ assms(1,2)] evolvesD(1) [OF assms(2)]
    order_trans [OF _ evolvesD(6) [OF assms(2)]] unfolding round_inv_def by simp

lemma reply_inv_evolves:
  assumes "px_inv nodes i s" and "evolves i s t" and "reply_inv nodes i s b x res"
  shows "reply_inv nodes i t b x res"
proof (cases "pr_oldinstance res")
  case True
  then obtain c where c: "chosen nodes s c" "pr_v_a res = px_val s c"
    using assms(3) by (auto simp: reply_inv_def)
  then show ?thesis
    using True chosen_evolves [OF c(1) assms(2)] chosen_val [OF c(1) assms(1,2)] unfolding reply_inv_def
    by (simp only: if_True) metis
next
  case False
  then show ?thesis
    using assms(3) promise_evolves [OF _ assms(2)] backed_evolves [OF _ assms(1,2)] by (simp add: reply_inv_def)
qed

lemma vote_inv_evolves:
  assumes "vote_inv s x c" and "evolves i s t"
  shows "vote_inv t x c"
proof -
  obtain r where r: "px_round s c = Some r" "rd_sent r \<noteq> None" "x \<in> set (tl_accepts (rd_tally r))"
    using assms(1) by (auto simp: vote_inv_def)
  then obtain r' where "px_round t c = Some r'" "round_le r r'"
    using evolvesD(2) [OF assms(2) r(1)] by auto
  then show ?thesis
    using r by (auto simp: vote_inv_def round_le_def)
qed

text \<open>It is enough to look at what a step changes.\<close>

lemma px_invI:
  assumes "px_inv nodes i s" and "evolves i s t"
    and "\<And>x. px_acc t x \<noteq> px_acc s x \<or> (\<exists>c. (x, c) \<in> px_votes t - px_votes s) \<Longrightarrow> acc_inv nodes i t x"
    and "\<And>b r. px_round t b = Some r \<Longrightarrow> px_round s b \<noteq> Some r \<Longrightarrow> round_inv nodes i t b r"
    and "\<And>b x res. (b, x, res) \<in> px_replies t - px_replies s \<Longrightarrow> reply_inv nodes i t b x res"
    and "\<And>x c. (x, c) \<in> px_votes t - px_votes s \<Longrightarrow> vote_inv t x c"
    and "finite (dom (px_round t))" and "\<And>m. pt_m (po_my_n (px_prop t m)) = m"
  shows "px_inv nodes i t"
proof -
  have "acc_inv nodes i t x" for x
    using acc_inv_evolves [OF assms(1,2), of x] assms(3) [of x] by blast
  moreover have "round_inv nodes i t b r" if "px_round t b = Some r" for b r
  proof (cases "px_round s b = Some r")
    case True
    then have "round_inv nodes i s b r"
      using assms(1) by (simp add: px_inv_def)
    then show ?thesis
      by (rule round_inv_evolves [OF assms(1,2)])
  qed (rule assms(4) [OF that])
  moreover have "reply_inv nodes i t b x res" if "(b, x, res) \<in> px_replies t" for b x res
  proof (cases "(b, x, res) \<in> px_replies s")
    case True
    then have "reply_inv nodes i s b x res"
      using assms(1) by (simp add: px_inv_def)
    then show ?thesis
      by (rule reply_inv_evolves [OF assms(1,2)])
  qed (use that assms(5) in simp)
  moreover have "vote_inv t x c" if "(x, c) \<in> px_votes t" for x c
  proof (cases "(x, c) \<in> px_votes s")
    case True
    then have "vote_inv s x c"
      using assms(1) by (simp add: px_inv_def)
    then show ?thesis
      by (rule vote_inv_evolves [OF _ assms(2)])
  qed (use that assms(6) in simp)
  ultimately show ?thesis
    using assms(1,7,8) by (simp add: px_inv_def)
qed

section \<open>Agreement from the invariant\<close>

text \<open>Every value sent after a proposal was chosen is the value of that proposal.\<close>

lemma chosen_later:
  assumes inv: "px_inv nodes i s" and ch: "chosen nodes s b" and "b \<le> c" and "px_round s c = Some r" and "rd_sent r \<noteq> None"
  shows "px_val s c = px_val s b"
proof (rule ccontr)
  assume neq: "\<not> ?thesis"
  let ?S = "{c. b \<le> c \<and> (\<exists>r. px_round s c = Some r \<and> rd_sent r \<noteq> None) \<and> px_val s c \<noteq> px_val s b}"
  have "?S \<subseteq> dom (px_round s)"
    by auto
  then have fin: "finite ?S"
    using inv by (meson px_inv_def finite_subset)
  define d where "d = Min ?S"
  have "?S \<noteq> {}"
    using assms neq by auto
  then have d: "d \<in> ?S"
    unfolding d_def by (rule Min_in [OF fin])
  have least: "d \<le> e" if "e \<in> ?S" for e
    unfolding d_def by (rule Min_le [OF fin that])
  obtain r where r: "px_round s d = Some r" "rd_sent r \<noteq> None" "b \<le> d" "px_val s d \<noteq> px_val s b"
    using d by auto
  then have ri: "round_inv nodes i s d r"
    using inv by (simp add: px_inv_def)
  let ?t = "rd_tally r"
  obtain q where q: "majority nodes q" "\<forall>x \<in> set q. (x, b) \<in> px_votes s"
    using ch by (auto simp: chosen_def)
  have maj: "majority nodes (tl_accepts ?t)" and vd: "px_val s d = round_value r"
    using ri r(1,2) by (auto simp: round_inv_def px_val_def)
  obtain x where x: "x \<in> set q" "x \<in> set (tl_accepts ?t)"
    using mj.intersect [OF q(1) maj] by auto
  have "b < d"
    using r(3,4) by (cases "b = d") auto
  then have bm: "b \<le> tl_max ?t"
    using x q(2) ri by (auto simp: round_inv_def promise_def)
  have "pt_n b \<noteq> 0"
    using vote_nonempty [OF inv] q(2) x(1) by auto
  then have "pt_n (tl_max ?t) \<noteq> 0"
    using prop_le_n [OF bm] by (auto simp: word_le_0_iff)
  then obtain y where y: "(y, tl_max ?t) \<in> px_votes s" "tl_max ?t < d" "tl_v ?t = px_val s (tl_max ?t)"
    using ri by (auto simp: round_inv_def backed_def)
  have "px_val s d = px_val s (tl_max ?t)"
    using vd y(3) vote_nonempty [OF inv y(1)] by (simp add: round_value_def)
  moreover have "\<exists>r. px_round s (tl_max ?t) = Some r \<and> rd_sent r \<noteq> None"
    using vote_round [OF inv y(1)] by auto
  ultimately have "tl_max ?t \<in> ?S"
    using bm r(4) by simp
  then show False
    using least [of "tl_max ?t"] y(2) by simp
qed

lemma chosen_round: "px_inv nodes i s \<Longrightarrow> chosen nodes s b \<Longrightarrow> \<exists>r. px_round s b = Some r \<and> rd_sent r \<noteq> None"
  using chosen_vote vote_round by (metis option.distinct(1))

lemma chosen_agree:
  assumes "px_inv nodes i s" and "chosen nodes s b" and "chosen nodes s c"
  shows "px_val s b = px_val s c"
proof (cases "b \<le> c")
  case True
  then show ?thesis
    using chosen_later [OF assms(1,2) True] chosen_round [OF assms(1,3)] by auto
next
  case False
  then show ?thesis
    using chosen_later [OF assms(1,3), of b] chosen_round [OF assms(1,2)] by auto
qed

text \<open>A node that is asked to decide has accepted the value that is decided.\<close>

lemma decide_matches:
  assumes "px_inv nodes i s" and "px_round s b = Some r" and "rd_chosen r" and "rd_sent r = Some v"
    and "x \<in> set (rd_acks r)" and "undecided i s x"
  shows "ac_v_a (px_acc s x) = v \<and> i = ac_instance_h (px_acc s x) + 1 \<and> v = px_val s b \<and> chosen nodes s b"
proof -
  let ?a = "px_acc s x"
  have ri: "round_inv nodes i s b r"
    using assms(1,2) by (simp add: px_inv_def)
  then have ch: "chosen nodes s b" and xv: "(x, b) \<in> px_votes s"
    using assms(3,5) by (auto simp: round_inv_def chosen_def)
  have a: "ac_instance_h ?a = i - 1" "b \<le> ac_n_a ?a" and
    d: "pt_n (ac_n_a ?a) = 0 \<and> ac_v_a ?a = [] \<or> (x, ac_n_a ?a) \<in> px_votes s \<and> ac_v_a ?a = px_val s (ac_n_a ?a)"
    using assms(1,6) xv by (auto simp: px_inv_def acc_inv_def Let_def)
  have "pt_n (ac_n_a ?a) \<noteq> 0"
    using prop_le_n [OF a(2)] vote_nonempty [OF assms(1) xv] by (auto simp: word_le_0_iff)
  then have va: "(x, ac_n_a ?a) \<in> px_votes s" "ac_v_a ?a = px_val s (ac_n_a ?a)"
    using d by auto
  have "px_val s (ac_n_a ?a) = px_val s b"
    using chosen_later [OF assms(1) ch a(2)] vote_round [OF assms(1) va(1)] by auto
  then show ?thesis
    using va(2) a(1) ch assms(2,4) by (simp add: px_val_def)
qed

section \<open>Every step keeps the invariant\<close>

lemmas px_sets = set_acc_def set_round_def set_stable_def

lemma evolves_acc:
  assumes "px_acc t = (px_acc s)(x := a)" and "px_votes t = px_votes s" and "px_round t = px_round s" and "px_prop t = px_prop s"
    and "ac_instance_h a < i \<Longrightarrow> undecided i s x \<and> ac_n_h (px_acc s x) \<le> ac_n_h a"
  shows "evolves i s t"
  using assms by (auto simp: evolves_def round_le_def undecided_def)

lemma evolves_round:
  assumes "px_acc t = px_acc s" and "px_votes t = px_votes s" and "px_round t = (px_round s)(b \<mapsto> r')"
    and "px_round s b = Some r" and "round_le r r'" and "\<And>m. po_my_n (px_prop t m) = po_my_n (px_prop s m)"
  shows "evolves i s t"
  using assms by (auto simp: evolves_def round_le_def undecided_def)

lemma setn_bigger:
  assumes "pt_n n_h \<noteq> - 1" and "pt_n (po_my_n p) \<noteq> - 1"
  shows "pt_n (po_my_n p) < pt_n (po_my_n (setn n_h p))"
proof -
  have "x < x + 1" if "x \<noteq> - 1" for x :: u32
    using unatSuc [of x] that by (simp add: word_less_nat_alt add.commute add_eq_0_iff)
  then show ?thesis
    using assms by (auto simp: setn_def intro: less_trans)
qed

lemma setn_fields [simp]: "pt_m (po_my_n (setn n_h p)) = pt_m (po_my_n p)" "po_me (setn n_h p) = po_me p" "po_stable (setn n_h p) = po_stable p"
  by (simp_all add: setn_def)

lemma start_inv:
  assumes "px_inv nodes i s" and "newv \<noteq> []" and "pt_n (ac_n_h (px_acc s m)) \<noteq> - 1" and "pt_n (po_my_n (px_prop s m)) \<noteq> - 1"
    and "p = setn (ac_n_h (px_acc s m)) ((px_prop s m)\<lparr>po_stable := False\<rparr>)"
    and t: "t = set_round (po_my_n p) (round_new newv) (s\<lparr>px_prop := (px_prop s)(m := p)\<rparr>)"
  shows "px_inv nodes i t"
proof -
  let ?b = "po_my_n p"
  have big: "pt_n (po_my_n (px_prop s m)) < pt_n ?b" and pm: "pt_m ?b = m"
    using setn_bigger [OF assms(3), of "(px_prop s m)\<lparr>po_stable := False\<rparr>"] assms(1,4,5) by (simp_all add: px_inv_def)
  have "px_round s ?b = None"
  proof (rule ccontr)
    assume "px_round s ?b \<noteq> None"
    then obtain r where "px_round s ?b = Some r"
      by auto
    then have "round_inv nodes i s ?b r"
      using assms(1) by (simp add: px_inv_def)
    then show False
      using big pm by (auto simp: round_inv_def)
  qed
  then have ev: "evolves i s t"
    using big unfolding t by (auto simp: evolves_def round_le_def undecided_def set_round_def order.strict_implies_order)
  have "round_inv nodes i t ?b (round_new newv)"
    using assms(2) big pm unfolding t
    by (simp add: round_inv_def round_new_def tally_new_def backed_def set_round_def round_value_def) (auto simp: word_less_nat_alt)
  then show ?thesis
    using pm assms(1) unfolding t
    by (intro px_invI [OF assms(1) ev [unfolded t]]) (auto simp: set_round_def px_inv_def split: if_splits)
qed

lemma prepared_inv:
  assumes inv: "px_inv nodes i s" and "px_round s b = Some r"
    and req: "preparereq \<lparr>pa_instance = i, pa_n = b\<rparr> junk (px_acc s x) = (res, a)"
    and t: "t = set_acc x a (s\<lparr>px_replies := insert (b, x, res) (px_replies s)\<rparr>)"
  shows "px_inv nodes i t"
proof -
  let ?x = "px_acc s x"
  have ai: "acc_inv nodes i s x"
    using inv by (simp add: px_inv_def)
  have same: "px_val t = px_val s" "px_votes t = px_votes s" "\<And>c. chosen nodes t c = chosen nodes s c"
    by (simp_all add: t set_acc_def px_val_def chosen_def fun_eq_iff)
  have at: "px_acc t x = a"
    by (simp add: t set_acc_def)
  have main: "(ac_instance_h a < i \<longrightarrow> undecided i s x \<and> ac_n_h ?x \<le> ac_n_h a) \<and> acc_inv nodes i t x \<and> reply_inv nodes i t b x res"
  proof (cases "undecided i s x")
    case True
    then have ni: "\<not> i \<le> ac_instance_h ?x"
      by (simp add: undecided_def)
    show ?thesis
    proof (cases "prop_gt b (ac_n_h ?x)")
      case g: True
      then have ra: "\<not> pr_oldinstance res" "pr_n_a res = ac_n_a ?x" "pr_v_a res = ac_v_a ?x" "a = logprop b (?x\<lparr>ac_n_h := b\<rparr>)"
        using req ni by (auto simp: preparereq_def Let_def logprop_def)
      then have fa: "ac_instance_h a = ac_instance_h ?x" "ac_n_h a = b" "ac_n_a a = ac_n_a ?x" "ac_v_a a = ac_v_a ?x"
        by (simp_all add: logprop_def)
      have "ac_n_h ?x < b"
        using g by (simp add: prop_gt_less)
      then show ?thesis
        using True ai fa at same ra
        by (auto simp: acc_inv_def reply_inv_def promise_def backed_def undecided_def Let_def intro: order_trans)
    next
      case False
      then have "a = ?x" "\<not> pr_oldinstance res" "\<not> pr_accept res"
        using req ni by (auto simp: preparereq_def Let_def)
      then show ?thesis
        using ai True at same by (simp add: acc_inv_def reply_inv_def undecided_def Let_def)
    qed
  next
    case False
    then obtain c where c: "ac_instance_h ?x = i" "chosen nodes s c" "ac_values ?x i = Some (px_val s c)"
      using ai by (auto simp: acc_inv_def Let_def)
    then have "pr_oldinstance res" "pr_v_a res = px_val s c" "ac_values a = ac_values ?x" "ac_instance_h a = i"
      using req by (auto simp: preparereq_def Let_def)
    then show ?thesis
      using c at same by (auto simp: acc_inv_def reply_inv_def undecided_def Let_def)
  qed
  then have ev: "evolves i s t"
    by (intro evolves_acc [of t s x a]) (simp_all add: t set_acc_def)
  show ?thesis
    using main inv by (intro px_invI [OF inv ev]) (auto simp: t set_acc_def px_inv_def split: if_splits)
qed

lemma promise_mono: "promise i s x b n \<Longrightarrow> n \<le> n' \<Longrightarrow> promise i s x b n'"
  unfolding promise_def by (meson order_trans)

lemma tally_add_fields:
  "set (tl_accepts (tally_add x res t)) = insert x (set (tl_accepts t))"
  "tl_max t \<le> tl_max (tally_add x res t)" "pr_n_a res \<le> tl_max (tally_add x res t)"
  "tl_max (tally_add x res t) = tl_max t \<and> tl_v (tally_add x res t) = tl_v t \<or>
     tl_max (tally_add x res t) = pr_n_a res \<and> tl_v (tally_add x res t) = pr_v_a res"
  by (auto simp: tally_add_def Let_def prop_gt_less)

text \<open>A step that only changes a round: the new round has to satisfy its part of the invariant.\<close>

lemma round_step_inv:
  assumes inv: "px_inv nodes i s" and r: "px_round s b = Some r" and "round_le r r'"
    and "round_inv nodes i s b r \<Longrightarrow> round_inv nodes i s b r'"
    and t: "px_acc t = px_acc s" "px_votes t = px_votes s" "px_round t = (px_round s)(b \<mapsto> r')" "px_replies t = px_replies s"
      "\<And>m. po_my_n (px_prop t m) = po_my_n (px_prop s m)"
  shows "px_inv nodes i t"
proof -
  have ev: "evolves i s t"
    using evolves_round [OF t(1-3) r assms(3) t(5)] .
  have "round_inv nodes i t b r'"
    using assms(4) inv r round_inv_evolves [OF inv ev] by (simp add: px_inv_def)
  then show ?thesis
    using inv by (intro px_invI [OF inv ev]) (auto simp: t px_inv_def split: if_splits)
qed

lemma promised_inv:
  assumes inv: "px_inv nodes i s" and "px_round s b = Some r" and "rd_phase r = Preparing"
    and rep: "(b, x, res) \<in> px_replies s" "\<not> pr_oldinstance res" "pr_accept res"
  shows "px_inv nodes i (set_round b (r\<lparr>rd_tally := tally_add x res (rd_tally r)\<rparr>) s)"
proof (rule round_step_inv [OF assms(1,2)])
  have "reply_inv nodes i s b x res"
    using inv rep(1) by (simp add: px_inv_def)
  then have re: "promise i s x b (pr_n_a res)" "backed s b (pr_n_a res) (pr_v_a res)"
    using rep(2,3) by (simp_all add: reply_inv_def)
  assume ri: "round_inv nodes i s b r"
  let ?t = "tally_add x res (rd_tally r)"
  have "promise i s y b (tl_max ?t)" if "y \<in> set (tl_accepts ?t)" for y
  proof (cases "y = x")
    case True
    then show ?thesis
      using promise_mono [OF re(1) tally_add_fields(3)] by simp
  next
    case False
    then have "promise i s y b (tl_max (rd_tally r))"
      using that ri by (simp add: tally_add_fields(1) round_inv_def)
    then show ?thesis
      using tally_add_fields(2) by (rule promise_mono)
  qed
  moreover have "backed s b (tl_max ?t) (tl_v ?t)"
    using ri re(2) tally_add_fields(4) [where x = x and res = res and t = "rd_tally r"] by (auto simp: round_inv_def)
  ultimately show "round_inv nodes i s b (r\<lparr>rd_tally := ?t\<rparr>)"
    using ri assms(3) by (simp add: round_inv_def)
qed (auto simp: round_le_def tally_add_fields(1) set_round_def)

lemma propose_inv:
  assumes "px_inv nodes i s" and "px_round s b = Some r" and "rd_phase r = Preparing"
    and "majority nodes (tl_accepts (rd_tally r))"
  shows "px_inv nodes i (set_round b (r\<lparr>rd_phase := Accepting, rd_sent := Some (round_value r)\<rparr>) s)"
proof (rule round_step_inv [OF assms(1,2)])
  show "round_le r (r\<lparr>rd_phase := Accepting, rd_sent := Some (round_value r)\<rparr>)"
    using assms(1-3) by (simp add: round_le_def px_inv_def round_inv_def)
qed (use assms(4) in \<open>auto simp: round_inv_def round_value_def set_round_def\<close>)

lemma acked_inv:
  assumes "px_inv nodes i s" and "px_round s b = Some r" and "rd_phase r = Accepting" and "(x, b) \<in> px_votes s"
    and "\<not> rd_chosen r"
  shows "px_inv nodes i (set_round b (r\<lparr>rd_acks := rd_acks r @ [x]\<rparr>) s)"
  by (rule round_step_inv [OF assms(1,2)]) (use assms(4,5) in \<open>auto simp: round_le_def round_inv_def round_value_def set_round_def\<close>)

lemma choose_inv:
  assumes "px_inv nodes i s" and "px_round s b = Some r" and "rd_phase r = Accepting" and "majority nodes (rd_acks r)"
  shows "px_inv nodes i (set_round b (r\<lparr>rd_chosen := True\<rparr>) s)"
  by (rule round_step_inv [OF assms(1,2)]) (use assms(4) in \<open>auto simp: round_le_def round_inv_def round_value_def set_round_def\<close>)

lemma over_inv:
  assumes "px_inv nodes i s" and "px_round s b = Some r"
  shows "px_inv nodes i (set_stable m q (set_round b (r\<lparr>rd_phase := Over\<rparr>) s))"
  by (rule round_step_inv [OF assms])
    (auto simp: round_le_def round_inv_def round_value_def set_round_def set_stable_def)

text \<open>Committing a chosen value.\<close>

lemma commit_inv:
  assumes inv: "px_inv nodes i s" and "undecided i s x \<Longrightarrow> chosen nodes s c \<and> v = px_val s c"
    and co: "commit i v (px_acc s x) = (a, u)"
  shows "px_inv nodes i (set_acc x a s)"
proof (cases "undecided i s x")
  case True
  let ?t = "set_acc x a s"
  have ch: "chosen nodes s c" "v = px_val s c"
    using assms(2) [OF True] by auto
  have a: "ac_instance_h a = i" "ac_values a i = Some v"
    using True co by (auto simp: commit_def commit_wo_def undecided_def loginstance_def)
  have ev: "evolves i s ?t"
    using a by (intro evolves_acc [of _ _ x a]) (auto simp: set_acc_def)
  have "chosen nodes ?t c"
    using ch(1) ev by (rule chosen_evolves)
  then have "acc_inv nodes i ?t x"
    using a ch chosen_val [OF ch(1) inv ev] by (auto simp: acc_inv_def undecided_def set_acc_def)
  then show ?thesis
    using inv by (intro px_invI [OF inv ev]) (auto simp: set_acc_def px_inv_def split: if_splits)
next
  case False
  then have "a = px_acc s x"
    using co by (auto simp: commit_def commit_wo_def undecided_def)
  then show ?thesis
    using inv by (simp add: set_acc_def)
qed

lemma old_inv:
  assumes "px_inv nodes i s" and "px_round s b = Some r" and "(b, x, res) \<in> px_replies s" and "pr_oldinstance res"
    and co: "commit i (pr_v_a res) (px_acc s m) = (a, u)"
  shows "px_inv nodes i (set_stable m True (set_round b (r\<lparr>rd_phase := Over\<rparr>) (set_acc m a s)))"
proof -
  have "reply_inv nodes i s b x res"
    using assms(1,3) by (simp add: px_inv_def)
  then obtain c where c: "chosen nodes s c" "pr_v_a res = px_val s c"
    using assms(4) by (auto simp: reply_inv_def)
  have "px_inv nodes i (set_acc m a s)"
    using assms(1) _ co by (rule commit_inv [where c = c]) (use c in simp)
  then show ?thesis
    using assms(2) by (intro over_inv) (simp_all add: set_acc_def)
qed

lemma decided_inv:
  assumes "px_inv nodes i s" and "px_round s b = Some r" and "rd_chosen r" and "rd_sent r = Some v" and "x \<in> set (rd_acks r)"
    and de: "decidereq \<lparr>da_instance = i, da_v = v\<rparr> (px_acc s x) = Returns (a, u)"
  shows "px_inv nodes i (set_acc x a s)"
proof (cases "undecided i s x")
  case True
  note m = decide_matches [OF assms(1-5) True]
  then have "commit i v (px_acc s x) = (a, u)"
    using de by (auto simp: decidereq_def commit_def)
  then show ?thesis
    using m by (intro commit_inv [OF assms(1), where c = b]) auto
next
  case False
  then have "ac_instance_h (px_acc s x) = i"
    using assms(1) by (auto simp: px_inv_def acc_inv_def Let_def)
  then have "a = px_acc s x"
    using de by (auto simp: decidereq_def split: if_splits)
  then show ?thesis
    using assms(1) by (simp add: set_acc_def)
qed

lemma accepted_inv:
  assumes inv: "px_inv nodes i s" and r: "px_round s b = Some r" "rd_sent r = Some v" and x: "x \<in> set (tl_accepts (rd_tally r))"
    and u: "undecided i s x"
    and acc: "acceptreq \<lparr>aa_instance = g, aa_n = b, aa_v = v\<rparr> (px_acc s x) = (ok, a)"
    and t: "t = set_acc x a (s\<lparr>px_votes := (if ok then insert (x, b) (px_votes s) else px_votes s)\<rparr>)"
  shows "px_inv nodes i t"
proof (cases ok)
  case True
  let ?x = "px_acc s x"
  have h: "ac_n_h ?x \<le> b" and a: "ac_instance_h a = ac_instance_h ?x" "ac_n_h a = ac_n_h ?x" "ac_n_a a = b" "ac_v_a a = v"
    using acc True by (auto simp: acceptreq_def prop_ge_less_eq logaccept_def split: if_splits)
  have "round_inv nodes i s b r"
    using inv r(1) by (simp add: px_inv_def)
  then have "promise i s x b (tl_max (rd_tally r))"
    using x by (simp add: round_inv_def)
  then have eq: "ac_n_h ?x = b"
    using h u by (simp add: promise_def)
  have ev: "evolves i s t"
    using a eq u unfolding t by (auto simp: evolves_def round_le_def undecided_def set_acc_def True split: if_splits)
  have val: "px_val t b = v"
    using r by (simp add: t px_val_def set_acc_def)
  have "acc_inv nodes i s x"
    using inv by (simp add: px_inv_def)
  then have "acc_inv nodes i t x"
    using a eq u val True by (auto simp: acc_inv_def undecided_def t set_acc_def Let_def)
  moreover have "vote_inv t x b"
    using r x by (simp add: vote_inv_def t set_acc_def)
  ultimately show ?thesis
    using inv True by (intro px_invI [OF inv ev]) (auto simp: t set_acc_def px_inv_def split: if_splits)
next
  case False
  then have "a = px_acc s x"
    using acc by (auto simp: acceptreq_def split: if_splits)
  then show ?thesis
    using inv False by (simp add: t set_acc_def)
qed

lemma px_inv_step: "px_step True nodes i s t \<Longrightarrow> px_inv nodes i s \<Longrightarrow> px_inv nodes i t"
proof (induction rule: px_step.induct)
  case (px_start s m newv p)
  then show ?case
    by (intro start_inv [OF _ _ _ _ _ refl])
next
  case (px_prepared s b r junk x res a)
  then show ?case
    by (intro prepared_inv [OF _ _ _ refl])
next
  case (px_promised s b r x res)
  then show ?case
    by (intro promised_inv)
next
  case (px_old s b r x res a c)
  then show ?case
    by (intro old_inv)
next
  case (px_propose s b r)
  then show ?case
    by (intro propose_inv)
next
  case (px_accepted s b r v x g ok a)
  then show ?case
    by (intro accepted_inv [OF _ _ _ _ _ _ refl]) (simp_all add: undecided_def)
next
  case (px_acked s b r x)
  then show ?case
    by (intro acked_inv)
next
  case (px_choose s b r)
  then show ?case
    by (intro choose_inv)
next
  case (px_decided s b r v x a c)
  then show ?case
    by (intro decided_inv) simp_all
next
  case (px_over s b r)
  then show ?case
    by (intro over_inv)
qed

lemma px_inv_init: "px_init i s \<Longrightarrow> px_inv nodes i s"
  by (auto simp: px_init_def px_inv_def acc_inv_def undecided_def word_less_nat_alt Let_def unat_sub_if' unat_gt_0 linorder_not_le intro!: unat_gt_0)

interpretation px: invariant_system "px_init i" "px_step True nodes i" "px_inv nodes i"
  using px_inv_init px_inv_step by unfold_locales blast+

text \<open>Every value sent is one that some proposer wanted.\<close>

lemma sent_proposed:
  assumes inv: "px_inv nodes i s" and "px_round s b = Some r" and "rd_sent r \<noteq> None"
  shows "\<exists>c r. px_round s c = Some r \<and> rd_newv r = px_val s b"
proof (rule ccontr)
  assume neq: "\<not> ?thesis"
  let ?bad = "\<lambda>b. (\<exists>r. px_round s b = Some r \<and> rd_sent r \<noteq> None) \<and> \<not> (\<exists>c r. px_round s c = Some r \<and> rd_newv r = px_val s b)"
  have "Collect ?bad \<subseteq> dom (px_round s)"
    by auto
  then have fin: "finite (Collect ?bad)"
    using inv by (meson px_inv_def finite_subset)
  define d where "d = Min (Collect ?bad)"
  have "Collect ?bad \<noteq> {}"
    using assms neq by auto
  then have bad: "?bad d"
    using Min_in [OF fin] unfolding d_def by blast
  have least: "d \<le> e" if "?bad e" for e
    unfolding d_def by (rule Min_le [OF fin]) (use that in simp)
  obtain r where r: "px_round s d = Some r" "rd_sent r \<noteq> None"
    using bad by blast
  have ri: "round_inv nodes i s d r"
    using inv r(1) by (simp add: px_inv_def)
  then have vd: "px_val s d = round_value r"
    using r by (auto simp: round_inv_def px_val_def)
  let ?t = "rd_tally r"
  have "px_val s d \<noteq> rd_newv r"
    using bad r(1) by metis
  then have "tl_v ?t \<noteq> []" "px_val s d = tl_v ?t"
    using vd by (auto simp: round_value_def split: if_splits)
  then obtain y where y: "(y, tl_max ?t) \<in> px_votes s" "tl_max ?t < d" "px_val s d = px_val s (tl_max ?t)"
    using ri by (auto simp: round_inv_def backed_def)
  moreover have "\<exists>r. px_round s (tl_max ?t) = Some r \<and> rd_sent r \<noteq> None"
    using vote_round [OF inv y(1)] by auto
  ultimately have "?bad (tl_max ?t)"
    using bad by simp
  then show False
    using least y(2) by (simp add: leD)
qed

section \<open>Runs of the executable steps\<close>

lemma px_do_step: "px_do strict nodes i a s = Some t \<Longrightarrow> px_step strict nodes i s t"
proof (cases a)
  case (Accept b x g)
  assume "px_do strict nodes i a s = Some t"
  then obtain r v ok c where "px_round s b = Some r" "rd_sent r = Some v" "isamember x (tl_accepts (rd_tally r))"
      "strict \<longrightarrow> ac_instance_h (px_acc s x) < i" "acceptreq \<lparr>aa_instance = g, aa_n = b, aa_v = v\<rparr> (px_acc s x) = (ok, c)"
      "t = set_acc x c (s\<lparr>px_votes := (if ok then insert (x, b) (px_votes s) else px_votes s)\<rparr>)"
    unfolding Accept by (simp add: Let_def split: option.splits if_split_asm prod.splits)
  then show ?thesis
    using px_accepted by blast
qed (auto simp: Let_def split: option.splits if_splits outcome.splits prod.splits intro: px_step.intros)

lemma px_run_steps: "px_run strict nodes i as s = Some t \<Longrightarrow> (px_step strict nodes i)\<^sup>*\<^sup>* s t"
  by (induction as arbitrary: s) (auto split: option.splits intro: px_do_step converse_rtranclp_into_rtranclp)

lemma log_fields [simp]:
  "ac_n_h (logprop n x) = ac_n_h x" "ac_n_a (logprop n x) = ac_n_a x" "ac_v_a (logprop n x) = ac_v_a x"
  "ac_instance_h (logprop n x) = ac_instance_h x" "ac_values (logprop n x) = ac_values x" "ac_me (logprop n x) = ac_me x"
  "ac_n_h (logaccept n v x) = ac_n_h x" "ac_n_a (logaccept n v x) = ac_n_a x" "ac_v_a (logaccept n v x) = ac_v_a x"
  "ac_instance_h (logaccept n v x) = ac_instance_h x" "ac_values (logaccept n v x) = ac_values x" "ac_me (logaccept n v x) = ac_me x"
  "ac_n_h (loginstance i v x) = ac_n_h x" "ac_n_a (loginstance i v x) = ac_n_a x" "ac_v_a (loginstance i v x) = ac_v_a x"
  "ac_instance_h (loginstance i v x) = ac_instance_h x" "ac_values (loginstance i v x) = ac_values x" "ac_me (loginstance i v x) = ac_me x"
  by (simp_all add: logprop_def logaccept_def loginstance_def)

definition px_example :: px where
  "px_example = \<lparr>px_acc = (\<lambda>x. \<lparr>ac_me = x, ac_n_h = \<lparr>pt_n = 0, pt_m = x\<rparr>, ac_n_a = \<lparr>pt_n = 0, pt_m = x\<rparr>, ac_v_a = [],
       ac_instance_h = 1, ac_values = [1 \<mapsto> ''A B C''], ac_log = ''done 1 A B C'' @ [newline]\<rparr>),
     px_prop = proposer_new, px_round = Map.empty, px_replies = {}, px_votes = {}\<rparr>"

definition ex_junk :: prepareres where
  "ex_junk = \<lparr>pr_oldinstance = False, pr_accept = False, pr_n_a = \<lparr>pt_n = 0, pt_m = []\<rparr>, pr_v_a = []\<rparr>"

definition ex_promise :: "string \<Rightarrow> prepareres" where
  "ex_promise x = \<lparr>pr_oldinstance = False, pr_accept = True, pr_n_a = \<lparr>pt_n = 0, pt_m = x\<rparr>, pr_v_a = []\<rparr>"

definition ex_nodes :: "string list" where
  "ex_nodes = [''A'', ''B'', ''C'']"

definition bA :: prop_t where "bA = \<lparr>pt_n = 1, pt_m = ''A''\<rparr>"
definition bB :: prop_t where "bB = \<lparr>pt_n = 2, pt_m = ''B''\<rparr>"

definition ex_split :: "px_act list" where
  "ex_split =
     [Start ''A'' ''A B'', Prepare bA ''A'' ex_junk, Promise bA ''A'' (ex_promise ''A''),
      Prepare bA ''B'' ex_junk, Promise bA ''B'' (ex_promise ''B''), Propose bA, Accept bA ''A'' 0, Ack bA ''A'',
      Start ''B'' ''B C'', Prepare bB ''B'' ex_junk, Promise bB ''B'' (ex_promise ''B''),
      Prepare bB ''C'' ex_junk, Promise bB ''C'' (ex_promise ''C''), Propose bB,
      Accept bB ''B'' 0, Ack bB ''B'', Accept bB ''C'' 0, Ack bB ''C'', Choose bB, Decide bB ''B'', Decide bB ''C'', Finish bB,
      Accept bA ''B'' 0, Ack bA ''B'', Choose bA, Decide bA ''A'', Finish bA]"

lemmas px_eval = setn_def proposer_new_def round_new_def tally_new_def tally_add_def preparereq_def acceptreq_def decidereq_def
  commit_wo_def commit_def prop_gt_def prop_ge_def majority_def round_value_def set_acc_def set_round_def set_stable_def Let_def
  drop_bit_Suc ex_junk_def ex_promise_def word_le_nat_alt word_less_nat_alt

definition ex_agree :: "px_act list" where
  "ex_agree =
     [Start ''A'' ''A B'', Prepare bA ''A'' ex_junk, Promise bA ''A'' (ex_promise ''A''),
      Prepare bA ''B'' ex_junk, Promise bA ''B'' (ex_promise ''B''), Propose bA, Accept bA ''A'' 0, Ack bA ''A'',
      Accept bA ''B'' 0, Ack bA ''B'', Choose bA, Decide bA ''A'', Decide bA ''B'']"

lemma px_example_init: "px_init 2 px_example"
  by (simp add: px_init_def px_example_def proposer_new_def)

lemma ex_agree_run:
  "\<exists>t r. px_run True ex_nodes 2 ex_agree px_example = Some t \<and> ac_instance_h (px_acc t ''A'') = 2 \<and> ac_instance_h (px_acc t ''B'') = 2
    \<and> ac_values (px_acc t ''A'') 2 = Some ''A B'' \<and> px_round t bA = Some r \<and> rd_chosen r \<and> rd_sent r = Some ''A B'' \<and> ''A'' \<in> set (rd_acks r)"
  by (simp add: ex_agree_def px_example_def px_eval ex_nodes_def bA_def)

lemma ex_split_run:
  "\<exists>t. px_run False ex_nodes 2 ex_split px_example = Some t \<and> ac_instance_h (px_acc t ''A'') = 2 \<and> ac_instance_h (px_acc t ''B'') = 2
    \<and> ac_values (px_acc t ''A'') 2 = Some ''A B'' \<and> ac_values (px_acc t ''B'') 2 = Some ''B C''"
  by (simp add: ex_split_def px_example_def px_eval ex_nodes_def bA_def bB_def)

section \<open>A lone proposer\<close>

text \<open>\<open>w_ready w s\<close>: the process of node \<open>s\<close> lives, its acceptor is about to decide instance \<open>i\<close> and has not accepted anything for it.\<close>

definition w_ready :: "u32 \<Rightarrow> prop_t \<Rightarrow> world \<Rightarrow> string \<Rightarrow> bool" where
  "w_ready i b w s =
     (s \<notin> set (w_down w) \<and> ac_instance_h (w_acc w s) + 1 = i \<and> \<not> i \<le> ac_instance_h (w_acc w s) \<and> prop_gt b (ac_n_h (w_acc w s))
      \<and> ac_v_a (w_acc w s) = [])"

definition w_promised :: "u32 \<Rightarrow> prop_t \<Rightarrow> world \<Rightarrow> string \<Rightarrow> bool" where
  "w_promised i b w s =
     (s \<notin> set (w_down w) \<and> ac_instance_h (w_acc w s) + 1 = i \<and> ac_n_h (w_acc w s) = b \<and> ac_instance_h (w_acc w s) < i)"

definition w_accepted :: "u32 \<Rightarrow> string \<Rightarrow> world \<Rightarrow> string \<Rightarrow> bool" where
  "w_accepted i v w s =
     (s \<notin> set (w_down w) \<and> ac_instance_h (w_acc w s) + 1 = i \<and> ac_v_a (w_acc w s) = v \<and> ac_instance_h (w_acc w s) < i)"

definition w_decided :: "u32 \<Rightarrow> string \<Rightarrow> world \<Rightarrow> string \<Rightarrow> bool" where
  "w_decided i v w s = (ac_instance_h (w_acc w s) = i \<and> ac_values (w_acc w s) i = Some v)"

lemma tally_add_empty:
  assumes "tl_v t = []" and "pr_v_a res = []"
  shows "tl_v (tally_add s res t) = []" and "tl_accepts (tally_add s res t) = tl_accepts t @ [s]"
  using assms by (simp_all add: tally_add_def Let_def)

definition all_up :: "nat \<Rightarrow> net option" where
  "all_up k = Some Delivered"

lemma all_up_Suc [simp]: "all_up \<circ> Suc = all_up" "all_up 0 = Some Delivered"
  by (simp_all add: all_up_def fun_eq_iff)

lemma lone_prepare:
  assumes "distinct nodes" and "\<forall>s \<in> set nodes. w_ready i b w s" and "tl_v t = []"
  shows "\<exists>t' w'. proposer_prepare all_up junk me \<lparr>pa_instance = i, pa_n = b\<rparr> r nodes t w = (True, t', w')
    \<and> tl_accepts t' = tl_accepts t @ nodes \<and> tl_v t' = [] \<and> (\<forall>s \<in> set nodes. w_promised i b w' s)
    \<and> (\<forall>s. s \<notin> set nodes \<longrightarrow> w_acc w' s = w_acc w s) \<and> w_down w' = w_down w \<and> w_commits w' = w_commits w"
  using assms
proof (induction nodes arbitrary: r t w)
  case (Cons s nodes)
  let ?a = "\<lparr>pa_instance = i, pa_n = b\<rparr>" and ?x = "w_acc w s"
  obtain res x where px: "preparereq ?a junk ?x = (res, x)"
    by fastforce
  have rs: "w_ready i b w s"
    using Cons.prems(2) by simp
  then have res: "\<not> pr_oldinstance res" "pr_accept res" "pr_v_a res = []" and x: "ac_n_h x = b" "ac_instance_h x = ac_instance_h ?x"
    using px by (auto simp: w_ready_def preparereq_def Let_def)
  define w1 where "w1 = w\<lparr>w_acc := (w_acc w)(s := x)\<rparr>"
  have call: "px_call Delivered s (preparereq_m ?a junk) r w = (paxos_OK, res, w1)"
    using rs px by (simp add: serve_def preparereq_m_def w_ready_def upcall_def w1_def)
  have "\<forall>s \<in> set nodes. w_ready i b w1 s"
    using Cons.prems(1,2) by (auto simp: w_ready_def w1_def)
  then obtain t' w' where ih: "proposer_prepare all_up junk me ?a res nodes (tally_add s res t) w1 = (True, t', w')"
      "tl_accepts t' = tl_accepts t @ s # nodes" "tl_v t' = []" "\<forall>s \<in> set nodes. w_promised i b w' s"
      "\<forall>s. s \<notin> set nodes \<longrightarrow> w_acc w' s = w_acc w1 s" "w_down w' = w_down w1" "w_commits w' = w_commits w1"
    using Cons.IH [of w1 "tally_add s res t" res] Cons.prems(1,3) tally_add_empty [OF Cons.prems(3) res(3), of s]
    by auto
  have "w_promised i b w' s"
    using ih(5,6) Cons.prems(1) rs x by (auto simp: w_promised_def w_ready_def w1_def not_le)
  then show ?case
    using ih call res by (auto simp: w1_def)
qed simp

lemma lone_accept:
  assumes "distinct nodes" and "\<forall>s \<in> set nodes. w_promised i b w s"
  shows "\<exists>w'. proposer_accept all_up \<lparr>aa_instance = g, aa_n = b, aa_v = v\<rparr> nodes acks w = Returns (acks @ nodes, w')
    \<and> (\<forall>s \<in> set nodes. w_accepted i v w' s) \<and> (\<forall>s. s \<notin> set nodes \<longrightarrow> w_acc w' s = w_acc w s) \<and> w_down w' = w_down w \<and> w_commits w' = w_commits w"
  using assms
proof (induction nodes arbitrary: acks w)
  case (Cons s nodes)
  let ?a = "\<lparr>aa_instance = g, aa_n = b, aa_v = v\<rparr>" and ?x = "w_acc w s"
  have ps: "w_promised i b w s"
    using Cons.prems(2) by simp
  then obtain x where x: "acceptreq ?a ?x = (True, x)" "ac_v_a x = v" "ac_instance_h x = ac_instance_h ?x"
    by (auto simp: w_promised_def acceptreq_def prop_ge_less_eq)
  define w1 where "w1 = w\<lparr>w_acc := (w_acc w)(s := x)\<rparr>"
  have call: "px_call Delivered s (acceptreq_m ?a) False w = (paxos_OK, True, w1)"
    using ps x by (simp add: serve_def acceptreq_m_def w_promised_def upcall_def w1_def)
  have "\<forall>s \<in> set nodes. w_promised i b w1 s"
    using Cons.prems(1,2) by (auto simp: w_promised_def w1_def)
  then obtain w' where ih: "proposer_accept all_up ?a nodes (acks @ [s]) w1 = Returns ((acks @ [s]) @ nodes, w')"
      "\<forall>s \<in> set nodes. w_accepted i v w' s" "\<forall>s. s \<notin> set nodes \<longrightarrow> w_acc w' s = w_acc w1 s" "w_down w' = w_down w1" "w_commits w' = w_commits w1"
    using Cons.IH [of w1 "acks @ [s]"] Cons.prems(1) by auto
  have "w_accepted i v w' s"
    using ih(3,4) Cons.prems(1) ps x by (auto simp: w_promised_def w_accepted_def w1_def)
  then show ?case
    using ih call by (auto simp: w1_def)
qed simp

lemma lone_decide:
  assumes "distinct nodes" and "\<forall>s \<in> set nodes. w_accepted i v w s"
  shows "\<exists>w'. proposer_decide all_up \<lparr>da_instance = i, da_v = v\<rparr> nodes w = Returns w'
    \<and> (\<forall>s \<in> set nodes. w_decided i v w' s) \<and> (\<forall>s. s \<notin> set nodes \<longrightarrow> w_acc w' s = w_acc w s)
    \<and> w_commits w' = w_commits w @ map (\<lambda>s. (s, i, v)) nodes \<and> w_down w' = w_down w"
  using assms
proof (induction nodes arbitrary: w)
  case (Cons s nodes)
  let ?a = "\<lparr>da_instance = i, da_v = v\<rparr>" and ?x = "w_acc w s"
  have as: "w_accepted i v w s"
    using Cons.prems(2) by simp
  then obtain x where x: "decidereq ?a ?x = Returns (x, Some (i, v))" "ac_instance_h x = i" "ac_values x i = Some v"
    by (auto simp: w_accepted_def decidereq_def commit_wo_def)
  define w1 where "w1 = w\<lparr>w_acc := (w_acc w)(s := x), w_commits := w_commits w @ [(s, i, v)]\<rparr>"
  have call: "px_call Delivered s (decidereq_m ?a) 0 w = (paxos_OK, 0, w1)"
    using as x by (simp add: serve_def decidereq_m_def w_accepted_def upcall_def w1_def)
  have "\<forall>s \<in> set nodes. w_accepted i v w1 s"
    using Cons.prems(1,2) by (auto simp: w_accepted_def w1_def)
  then obtain w' where ih: "proposer_decide all_up ?a nodes w1 = Returns w'"
      "\<forall>s \<in> set nodes. w_decided i v w' s" "\<forall>s. s \<notin> set nodes \<longrightarrow> w_acc w' s = w_acc w1 s"
      "w_commits w' = w_commits w1 @ map (\<lambda>s. (s, i, v)) nodes" "w_down w' = w_down w1"
    using Cons.IH [of w1] Cons.prems(1) by auto
  have "w_decided i v w' s"
    using ih(3) Cons.prems(1) x by (auto simp: w_decided_def w1_def)
  then show ?case
    using ih call by (auto simp: w1_def)
qed simp

lemma majority_all: "nodes \<noteq> [] \<Longrightarrow> majority nodes nodes"
  by (cases nodes) (simp_all add: majority_def drop_bit_eq_div filter_id_conv cong: filter_cong)

lemma lone_run:
  assumes "po_stable p" and "\<not> po_break1 p" and "\<not> po_break2 p" and "nodes \<noteq> []" and "distinct nodes"
    and "\<forall>s \<in> set nodes. w_ready i (po_my_n (setn (ac_n_h (w_acc w (po_me p))) p)) w s"
    and "pe_prepare e = all_up" and "pe_accept e = all_up" and "pe_decide e = all_up"
  shows "\<exists>p' w'. proposer_run e i nodes newv p w = Returns (True, p', w') \<and> po_stable p'
    \<and> (\<forall>s \<in> set nodes. w_decided i newv w' s) \<and> w_commits w' = w_commits w @ map (\<lambda>s. (s, i, newv)) nodes
    \<and> w_down w' = w_down w"
proof -
  define q where "q = setn (ac_n_h (w_acc w (po_me p))) (p\<lparr>po_stable := False\<rparr>)"
  have n: "po_my_n q = po_my_n (setn (ac_n_h (w_acc w (po_me p))) p)" and q: "po_me q = po_me p" "\<not> po_break1 q" "\<not> po_break2 q"
    using assms(2,3) by (simp_all add: q_def setn_def)
  let ?b = "po_my_n q"
  obtain t w1 where t: "proposer_prepare all_up (pe_junk e) (po_me p) \<lparr>pa_instance = i, pa_n = ?b\<rparr> (pe_junk e) nodes tally_new w = (True, t, w1)"
      "tl_accepts t = nodes" "tl_v t = []" "\<forall>s \<in> set nodes. w_promised i ?b w1 s" and c1: "w_commits w1 = w_commits w" "w_down w1 = w_down w"
    using lone_prepare [OF assms(5), of i ?b w tally_new "pe_junk e" "po_me p" "pe_junk e"] assms(6) by (auto simp: n tally_new_def)
  obtain w2 where w2: "proposer_accept all_up \<lparr>aa_instance = pe_garbage e, aa_n = ?b, aa_v = newv\<rparr> nodes [] w1 = Returns (nodes, w2)"
      "\<forall>s \<in> set nodes. w_accepted i newv w2 s" and c2: "w_commits w2 = w_commits w1" "w_down w2 = w_down w1"
    using lone_accept [OF assms(5) t(4), of "pe_garbage e" newv "[]"] by auto
  obtain w3 where w3: "proposer_decide all_up \<lparr>da_instance = i, da_v = newv\<rparr> nodes w2 = Returns w3"
      "\<forall>s \<in> set nodes. w_decided i newv w3 s" "w_commits w3 = w_commits w2 @ map (\<lambda>s. (s, i, newv)) nodes" "w_down w3 = w_down w2"
    using lone_decide [OF assms(5) w2(2)] by auto
  have "proposer_run e i nodes newv p w = Returns (True, q\<lparr>po_stable := True\<rparr>, w3)"
    using assms(1,7-9) t w2(1) w3(1) q majority_all [OF assms(4)]
    by (simp add: proposer_run_def q_def [symmetric] breakpoint1_def breakpoint2_def)
  then show ?thesis
    using w3 c1 c2 by auto
qed

section \<open>Properties\<close>

text \<open>C18: A proposer that runs alone succeeds: when every node answers, is about to decide the instance and has
  accepted nothing for it, and the new proposal number exceeds what they have promised, \<open>run\<close> returns
  true, and every node has decided the proposed value and made its \<open>paxos_commit\<close> call exactly once.\<close>

theorem lone_proposer_decides:
  assumes "po_stable p" and "\<not> po_break1 p" and "\<not> po_break2 p" and "nodes \<noteq> []" and "distinct nodes"
    and "\<forall>s \<in> set nodes. w_ready i (po_my_n (setn (ac_n_h (w_acc w (po_me p))) p)) w s"
    and "pe_prepare e = all_up" and "pe_accept e = all_up" and "pe_decide e = all_up"
  shows "\<exists>p' w'. proposer_run e i nodes newv p w = Returns (True, p', w') \<and> po_stable p'
    \<and> (\<forall>s \<in> set nodes. w_decided i newv w' s) \<and> w_commits w' = w_commits w @ map (\<lambda>s. (s, i, newv)) nodes"
  using lone_run [OF assms] by blast

theorem lone_proposer_decides_witness:
  "\<exists>p' w'. proposer_run \<lparr>pe_prepare = all_up, pe_accept = all_up, pe_decide = all_up, pe_junk = ex_junk, pe_garbage = 0\<rparr> 2 ex_nodes ''B C''
       (proposer_new ''A'') \<lparr>w_acc = px_acc px_example, w_down = [], w_commits = []\<rparr> = Returns (True, p', w')
     \<and> w_commits w' = [(''A'', 2, ''B C''), (''B'', 2, ''B C''), (''C'', 2, ''B C'')]"
  using lone_proposer_decides [of "proposer_new ''A''" ex_nodes 2 "\<lparr>w_acc = px_acc px_example, w_down = [], w_commits = []\<rparr>"
      "\<lparr>pe_prepare = all_up, pe_accept = all_up, pe_decide = all_up, pe_junk = ex_junk, pe_garbage = 0\<rparr>" "''B C''"]
  by (auto simp: proposer_new_def ex_nodes_def w_ready_def px_example_def setn_def prop_gt_def word_le_nat_alt word_less_nat_alt)

text \<open>C16: Paxos agrees, as long as no accept request reaches an acceptor that has already decided the instance:
  whatever proposers run concurrently, whatever requests and replies are lost, delayed or reordered,
  two nodes that have decided the instance have decided the same value, and it is the value that
  one of the proposers was started with.\<close>

theorem paxos_agreement:
  assumes "px_init i s" and "(px_step True nodes i)\<^sup>*\<^sup>* s t"
    and "i \<le> ac_instance_h (px_acc t x)" and "i \<le> ac_instance_h (px_acc t y)"
  shows "\<exists>v b r. ac_values (px_acc t x) i = Some v \<and> ac_values (px_acc t y) i = Some v \<and> px_round t b = Some r \<and> rd_newv r = v"
proof -
  have inv: "px_inv nodes i t"
    by (rule px.inv_reachable [OF assms(1,2)])
  have "\<exists>b. chosen nodes t b \<and> ac_values (px_acc t z) i = Some (px_val t b)" if "i \<le> ac_instance_h (px_acc t z)" for z
    using inv that by (auto simp: px_inv_def acc_inv_def undecided_def Let_def)
  then obtain b c where "chosen nodes t b" "ac_values (px_acc t x) i = Some (px_val t b)"
      "chosen nodes t c" "ac_values (px_acc t y) i = Some (px_val t c)"
    using assms(3,4) by blast
  then show ?thesis
    using chosen_agree [OF inv, of b c] chosen_round [OF inv, of b] sent_proposed [OF inv, of b] by auto
qed

theorem paxos_agreement_witness:
  "\<exists>t. px_run True ex_nodes 2 ex_agree px_example = Some t
    \<and> ac_values (px_acc t ''A'') 2 = Some ''A B'' \<and> ac_values (px_acc t ''B'') 2 = Some ''A B''"
proof -
  obtain t where t: "px_run True ex_nodes 2 ex_agree px_example = Some t" "ac_instance_h (px_acc t ''A'') = 2"
      "ac_instance_h (px_acc t ''B'') = 2" "ac_values (px_acc t ''A'') 2 = Some ''A B''"
    using ex_agree_run by auto
  then show ?thesis
    using paxos_agreement [OF px_example_init px_run_steps [OF t(1)], of "''A''" "''B''"] by auto
qed



text \<open>C19: Paxos as written does not agree. \<open>acceptreq\<close> ignores the instance of the request, which the proposer
  does not even set, and a commit sets \<open>n_h\<close> back to 0; so an accept request that was delayed until
  after the commit is accepted, counts for the majority of its proposer, and makes three nodes decide
  two values for one instance.\<close>

theorem paxos_split:
  "\<exists>s t. px_init 2 s \<and> (px_step False ex_nodes 2)\<^sup>*\<^sup>* s t \<and> 2 \<le> ac_instance_h (px_acc t ''A'') \<and> 2 \<le> ac_instance_h (px_acc t ''B'')
    \<and> ac_values (px_acc t ''A'') 2 = Some ''A B'' \<and> ac_values (px_acc t ''B'') 2 = Some ''B C''"
proof -
  obtain t where "px_run False ex_nodes 2 ex_split px_example = Some t" "ac_instance_h (px_acc t ''A'') = 2"
      "ac_instance_h (px_acc t ''B'') = 2" "ac_values (px_acc t ''A'') 2 = Some ''A B''" "ac_values (px_acc t ''B'') 2 = Some ''B C''"
    using ex_split_run by auto
  then show ?thesis
    using px_example_init px_run_steps by (intro exI [of _ px_example] exI [of _ t]) auto
qed

end
