(* ===== verification/Handle.thy ===== *)
theory Handle
  imports Prelude
begin

text \<open>
  The cache of RPC connections (handle.cc, handle.h).

  \<^item> A \<open>hinfo\<close> lives in a heap of addresses, because several \<open>handle\<close> objects share it and the manager
    frees it. An access through a pointer whose object was freed is the outcome \<open>Aborts\<close>. The
    address that \<open>new\<close> returns is an argument. An \<open>rpcc\<close> is known by a number, and the outcome of
    \<open>bind\<close> is an argument too.
  \<^item> \<open>h_step\<close> is a process in which any number of handles are created, bound and destroyed while
    others delete connections by name.
\<close>

section \<open>Manager\<close>

record hinfo =
  hi_cl :: "nat option"
  hi_refcnt :: int
  hi_del :: bool
  hi_m :: string

record handle_mgr =
  hm_hmap :: "string \<rightharpoonup> nat"
  hm_heap :: "nat \<rightharpoonup> hinfo"

definition handle_mgr_new :: handle_mgr where
  "handle_mgr_new = \<lparr>hm_hmap = Map.empty, hm_heap = Map.empty\<rparr>"

definition deref :: "nat \<Rightarrow> handle_mgr \<Rightarrow> hinfo outcome" where
  "deref p s = (case hm_heap s p of Some h \<Rightarrow> Returns h | None \<Rightarrow> Aborts)"

definition store :: "nat \<Rightarrow> hinfo \<Rightarrow> handle_mgr \<Rightarrow> handle_mgr" where
  "store p h s = s\<lparr>hm_heap := (hm_heap s)(p \<mapsto> h)\<rparr>"

definition get_handle :: "nat \<Rightarrow> string \<Rightarrow> handle_mgr \<Rightarrow> (nat option \<times> handle_mgr) outcome" where
  "get_handle new m s =
     (case hm_hmap s m of
        None \<Rightarrow> Returns (Some new, (store new \<lparr>hi_cl = None, hi_refcnt = 1, hi_del = False, hi_m = m\<rparr> s)\<lparr>hm_hmap := (hm_hmap s)(m \<mapsto> new)\<rparr>)
      | Some p \<Rightarrow> obind (deref p s) (\<lambda>h.
          if \<not> hi_del h then Returns (Some p, store p (h\<lparr>hi_refcnt := hi_refcnt h + 1\<rparr>) s) else Returns (None, s)))"

definition delete_handle_wo :: "string \<Rightarrow> handle_mgr \<Rightarrow> handle_mgr outcome" where
  "delete_handle_wo m s =
     (case hm_hmap s m of
        None \<Rightarrow> Returns s
      | Some p \<Rightarrow> obind (deref p s) (\<lambda>h.
          if hi_refcnt h = 0 then Returns (s\<lparr>hm_hmap := (hm_hmap s)(m := None), hm_heap := (hm_heap s)(p := None)\<rparr>)
          else Returns (store p (h\<lparr>hi_del := True\<rparr>) s)))"

definition delete_handle :: "string \<Rightarrow> handle_mgr \<Rightarrow> handle_mgr outcome" where
  "delete_handle m s = delete_handle_wo m s"

definition done_handle :: "nat \<Rightarrow> handle_mgr \<Rightarrow> handle_mgr outcome" where
  "done_handle p s =
     obind (deref p s) (\<lambda>h.
       let h = h\<lparr>hi_refcnt := hi_refcnt h - 1\<rparr>; s = store p h s
       in if hi_refcnt h = 0 \<and> hi_del h then delete_handle_wo (hi_m h) s else Returns s)"

section \<open>Handles\<close>

definition handle_new :: "nat \<Rightarrow> string \<Rightarrow> handle_mgr \<Rightarrow> (nat option \<times> handle_mgr) outcome" where
  "handle_new new m s = get_handle new m s"

text \<open>\<open>bound\<close> is the new connection, or \<open>None\<close> when \<open>bind\<close> fails.\<close>

definition safebind :: "nat option \<Rightarrow> nat option \<Rightarrow> handle_mgr \<Rightarrow> (nat option \<times> handle_mgr) outcome" where
  "safebind bound hp s =
     (case hp of
        None \<Rightarrow> Returns (None, s)
      | Some p \<Rightarrow> obind (deref p s) (\<lambda>h.
          if hi_del h then Returns (None, s)
          else case hi_cl h of
                 Some c \<Rightarrow> Returns (Some c, s)
               | None \<Rightarrow> (case bound of
                    None \<Rightarrow> Returns (None, store p (h\<lparr>hi_del := True\<rparr>) s)
                  | Some c \<Rightarrow> Returns (Some c, store p (h\<lparr>hi_cl := Some c\<rparr>) s))))"

definition handle_delete :: "nat option \<Rightarrow> handle_mgr \<Rightarrow> handle_mgr outcome" where
  "handle_delete hp s = (case hp of None \<Rightarrow> Returns s | Some p \<Rightarrow> done_handle p s)"

section \<open>A process that uses handles\<close>

text \<open>\<open>hs_live\<close> maps the handle objects that exist to the pointers they hold.\<close>

record hstate =
  hs_mgr :: handle_mgr
  hs_live :: "nat \<rightharpoonup> nat option"

datatype h_act = H_new nat nat string | H_bind nat "nat option" | H_end nat | H_delete string

definition h_enabled :: "h_act \<Rightarrow> hstate \<Rightarrow> bool" where
  "h_enabled a s =
     (case a of
        H_new k new m \<Rightarrow> hs_live s k = None \<and> hm_heap (hs_mgr s) new = None
      | H_bind k bound \<Rightarrow> hs_live s k \<noteq> None
      | H_end k \<Rightarrow> hs_live s k \<noteq> None
      | H_delete m \<Rightarrow> True)"

fun h_exec :: "h_act \<Rightarrow> hstate \<Rightarrow> hstate outcome" where
  "h_exec (H_new k new m) s =
     obind (handle_new new m (hs_mgr s)) (\<lambda>(p, g). Returns \<lparr>hs_mgr = g, hs_live = (hs_live s)(k \<mapsto> p)\<rparr>)"
| "h_exec (H_bind k bound) s = obind (safebind bound (the (hs_live s k)) (hs_mgr s)) (\<lambda>(c, g). Returns (s\<lparr>hs_mgr := g\<rparr>))"
| "h_exec (H_end k) s =
     obind (handle_delete (the (hs_live s k)) (hs_mgr s)) (\<lambda>g. Returns \<lparr>hs_mgr = g, hs_live = (hs_live s)(k := None)\<rparr>)"
| "h_exec (H_delete m) s = obind (delete_handle m (hs_mgr s)) (\<lambda>g. Returns (s\<lparr>hs_mgr := g\<rparr>))"

inductive h_step :: "hstate \<Rightarrow> hstate \<Rightarrow> bool" where
  "h_enabled a s \<Longrightarrow> h_exec a s = Returns t \<Longrightarrow> h_step s t"

definition h_init :: "hstate \<Rightarrow> bool" where
  "h_init s = (s = \<lparr>hs_mgr = handle_mgr_new, hs_live = Map.empty\<rparr>)"

section \<open>Invariant\<close>

definition holders :: "hstate \<Rightarrow> nat \<Rightarrow> nat set" where
  "holders s p = {k. hs_live s k = Some (Some p)}"

text \<open>
  The map and the heap agree, the count of an object is the number of handles that hold it, and an
  object that is marked for deletion is still held.
\<close>

definition h_inv :: "hstate \<Rightarrow> bool" where
  "h_inv s =
     ((\<forall>m p. hm_hmap (hs_mgr s) m = Some p \<longleftrightarrow> (\<exists>h. hm_heap (hs_mgr s) p = Some h \<and> hi_m h = m))
      \<and> (\<forall>p h. hm_heap (hs_mgr s) p = Some h \<longrightarrow> hi_refcnt h = int (card (holders s p)) \<and> (hi_del h \<longrightarrow> hi_refcnt h \<noteq> 0))
      \<and> (\<forall>k p. hs_live s k = Some (Some p) \<longrightarrow> hm_heap (hs_mgr s) p \<noteq> None) \<and> finite (dom (hs_live s)))"

lemma h_invD:
  assumes "h_inv s"
  shows "hm_hmap (hs_mgr s) m = Some p \<Longrightarrow> \<exists>h. hm_heap (hs_mgr s) p = Some h \<and> hi_m h = m"
    and "hm_heap (hs_mgr s) p = Some h \<Longrightarrow> hm_hmap (hs_mgr s) (hi_m h) = Some p"
    and "hm_heap (hs_mgr s) p = Some h \<Longrightarrow> hi_refcnt h = int (card (holders s p))"
    and "hm_heap (hs_mgr s) p = Some h \<Longrightarrow> hi_del h \<Longrightarrow> hi_refcnt h \<noteq> 0"
    and "hs_live s k = Some (Some p) \<Longrightarrow> \<exists>h. hm_heap (hs_mgr s) p = Some h"
    and "finite (dom (hs_live s))"
  using assms unfolding h_inv_def by blast+

lemma h_inv_map: "h_inv s \<Longrightarrow> hm_hmap (hs_mgr s) m = Some p \<longleftrightarrow> (\<exists>h. hm_heap (hs_mgr s) p = Some h \<and> hi_m h = m)"
  by (simp add: h_inv_def)

lemma h_inv_live:
  assumes "h_inv s" and "hs_mgr t = hs_mgr s" and "holders t = holders s" and "finite (dom (hs_live t))"
  shows "h_inv t"
proof -
  have "hm_heap (hs_mgr t) p \<noteq> None" if "hs_live t k = Some (Some p)" for k p
  proof -
    have "k \<in> holders s p"
      using that unfolding assms(3) [symmetric] by (simp add: holders_def)
    then show ?thesis
      using h_invD(5) [OF assms(1), of k p] assms(2) by (auto simp: holders_def)
  qed
  then show ?thesis
    using assms h_invD(3,4) [OF assms(1)] h_inv_map [OF assms(1)] unfolding h_inv_def by auto
qed

lemma finite_holders: "finite (dom (hs_live s)) \<Longrightarrow> finite (holders s p)"
  by (rule finite_subset [of _ "dom (hs_live s)"]) (auto simp: holders_def)

text \<open>Changing an object in place, with the count that goes with the handles of the new state.\<close>

lemma h_inv_store:
  assumes inv: "h_inv s" and p: "hm_heap (hs_mgr s) p = Some h" and "hi_m h' = hi_m h"
    and "hi_refcnt h' = int (card (holders t p))" and "hi_del h' \<Longrightarrow> hi_refcnt h' \<noteq> 0"
    and t: "hs_mgr t = store p h' (hs_mgr s)" and "\<And>q. q \<noteq> p \<Longrightarrow> holders t q = holders s q"
    and "finite (dom (hs_live t))"
  shows "h_inv t"
proof -
  have heap: "hm_heap (hs_mgr t) = (hm_heap (hs_mgr s))(p \<mapsto> h')" and hmap: "hm_hmap (hs_mgr t) = hm_hmap (hs_mgr s)"
    using t by (simp_all add: store_def)
  have "hm_hmap (hs_mgr t) m = Some q \<longleftrightarrow> (\<exists>g. hm_heap (hs_mgr t) q = Some g \<and> hi_m g = m)" for m q
    using h_invD(1,2) [OF inv] p assms(3) unfolding heap hmap by (cases "q = p") fastforce+
  moreover have "hi_refcnt g = int (card (holders t q)) \<and> (hi_del g \<longrightarrow> hi_refcnt g \<noteq> 0)" if "hm_heap (hs_mgr t) q = Some g" for q g
    using that assms(4,5,7) h_invD(3,4) [OF inv, of q g] unfolding heap by (auto split: if_splits)
  moreover have "hm_heap (hs_mgr t) q \<noteq> None" if "hs_live t k = Some (Some q)" for k q
  proof (cases "q = p")
    case False
    have "k \<in> holders s q"
      using that assms(7) [OF False] by (auto simp: holders_def)
    then show ?thesis
      using h_invD(5) [OF inv, of k q] False by (auto simp: holders_def heap)
  qed (simp add: heap)
  ultimately show ?thesis
    using assms(8) unfolding h_inv_def by blast
qed

text \<open>Freeing an object that no handle holds.\<close>

lemma h_inv_free:
  assumes inv: "h_inv s" and p: "hm_heap (hs_mgr s) p = Some h" and "holders s p = {}"
  shows "h_inv (s\<lparr>hs_mgr := (hs_mgr s)\<lparr>hm_hmap := (hm_hmap (hs_mgr s))(hi_m h := None), hm_heap := (hm_heap (hs_mgr s))(p := None)\<rparr>\<rparr>)"
    (is "h_inv ?t")
proof -
  have "hm_hmap (hs_mgr ?t) m = Some q \<longleftrightarrow> (\<exists>g. hm_heap (hs_mgr ?t) q = Some g \<and> hi_m g = m)" for m q
  proof (cases "q = p")
    case True
    then show ?thesis
      using h_invD(1) [OF inv, of m p] p by auto
  next
    case False
    have "hi_m g \<noteq> hi_m h" if "hm_heap (hs_mgr s) q = Some g" for g
      using that False p h_invD(2) [OF inv, of q g] h_invD(2) [OF inv, of p h] by auto
    then show ?thesis
      using False h_inv_map [OF inv, of m q] by auto
  qed
  moreover have "holders ?t = holders s"
    by (simp add: holders_def fun_eq_iff)
  moreover have "q \<noteq> p" if "hs_live s k = Some (Some q)" for k q
    using that assms(3) by (auto simp: holders_def)
  ultimately show ?thesis
    using h_invD(3-6) [OF inv] unfolding h_inv_def by (auto split: if_splits)
qed

lemma delete_handle_wo_inv:
  assumes "h_inv s"
  shows "\<exists>g. delete_handle_wo m (hs_mgr s) = Returns g \<and> h_inv (s\<lparr>hs_mgr := g\<rparr>)"
proof (cases "hm_hmap (hs_mgr s) m")
  case None
  then show ?thesis
    using assms by (simp add: delete_handle_wo_def)
next
  case (Some p)
  obtain h where h: "hm_heap (hs_mgr s) p = Some h" "hi_m h = m"
    using h_invD(1) [OF assms Some] by auto
  show ?thesis
  proof (cases "hi_refcnt h = 0")
    case True
    then have "holders s p = {}"
      using h_invD(3) [OF assms h(1)] finite_holders [OF h_invD(6) [OF assms]] by simp
    then show ?thesis
      using h_inv_free [OF assms h(1)] True Some h by (simp add: delete_handle_wo_def deref_def)
  next
    case False
    then have "h_inv (s\<lparr>hs_mgr := store p (h\<lparr>hi_del := True\<rparr>) (hs_mgr s)\<rparr>)"
      using h_invD(3,6) [OF assms] h by (intro h_inv_store [OF assms h(1)]) (simp_all add: holders_def)
    then show ?thesis
      using False Some h by (simp add: delete_handle_wo_def deref_def)
  qed
qed

lemma h_new_inv:
  assumes inv: "h_inv s" and k: "hs_live s k = None" and new: "hm_heap (hs_mgr s) new = None"
  shows "\<exists>t. h_exec (H_new k new m) s = Returns t \<and> h_inv t"
proof (cases "hm_hmap (hs_mgr s) m")
  case None
  let ?h = "\<lparr>hi_cl = None, hi_refcnt = 1, hi_del = False, hi_m = m\<rparr>"
  let ?t = "\<lparr>hs_mgr = (store new ?h (hs_mgr s))\<lparr>hm_hmap := (hm_hmap (hs_mgr s))(m \<mapsto> new)\<rparr>, hs_live = (hs_live s)(k \<mapsto> Some new)\<rparr>"
  have hs: "holders ?t q = (if q = new then {k} else holders s q)" for q
    using k h_invD(5) [OF inv, of _ new] new by (auto simp: holders_def split: if_splits)
  have "hm_hmap (hs_mgr ?t) m' = Some q \<longleftrightarrow> (\<exists>g. hm_heap (hs_mgr ?t) q = Some g \<and> hi_m g = m')" for m' q
    using h_inv_map [OF inv, of m' q] h_inv_map [OF inv, of m q] h_invD(1) [OF inv, of m' new] None new
    by (cases "q = new") (auto simp: store_def)
  moreover have "hm_heap (hs_mgr ?t) q = Some g \<Longrightarrow> hi_refcnt g = int (card (holders ?t q)) \<and> (hi_del g \<longrightarrow> hi_refcnt g \<noteq> 0)" for q g
    using h_invD(3,4) [OF inv] unfolding hs by (auto simp: store_def split: if_splits)
  moreover have "hs_live ?t j = Some (Some q) \<Longrightarrow> hm_heap (hs_mgr ?t) q \<noteq> None" for j q
    using h_invD(5) [OF inv, of j q] by (auto simp: store_def split: if_splits)
  moreover have "finite (dom (hs_live ?t))"
    using h_invD(6) [OF inv] by simp
  ultimately have "h_inv ?t"
    unfolding h_inv_def by blast
  then show ?thesis
    using None by (simp add: handle_new_def get_handle_def)
next
  case (Some p)
  obtain h where h: "hm_heap (hs_mgr s) p = Some h" "hi_m h = m"
    using h_invD(1) [OF inv Some] by auto
  show ?thesis
  proof (cases "hi_del h")
    case True
    let ?t = "\<lparr>hs_mgr = hs_mgr s, hs_live = (hs_live s)(k \<mapsto> None)\<rparr>"
    have "holders ?t = holders s"
      using k by (auto simp: holders_def fun_eq_iff)
    then have "h_inv ?t"
      using h_invD(6) [OF inv] by (intro h_inv_live [OF inv]) simp_all
    then show ?thesis
      using True Some h by (simp add: handle_new_def get_handle_def deref_def)
  next
    case False
    let ?t = "\<lparr>hs_mgr = store p (h\<lparr>hi_refcnt := hi_refcnt h + 1\<rparr>) (hs_mgr s), hs_live = (hs_live s)(k \<mapsto> Some p)\<rparr>"
    have hs: "holders \<lparr>hs_mgr = g, hs_live = (hs_live s)(k \<mapsto> Some p)\<rparr> q = (if q = p then insert k (holders s p) else holders s q)" for g q
      using k by (auto simp: holders_def)
    have "k \<notin> holders s p"
      using k by (simp add: holders_def)
    then have "h_inv ?t"
      using False h_invD(3,6) [OF inv] h(1) finite_holders [OF h_invD(6) [OF inv]]
      by (intro h_inv_store [OF inv h(1)]) (simp_all add: hs)
    then show ?thesis
      using False Some h by (simp add: handle_new_def get_handle_def deref_def)
  qed
qed

lemma h_bind_inv:
  assumes inv: "h_inv s" and k: "hs_live s k = Some hp"
  shows "\<exists>t. h_exec (H_bind k bound) s = Returns t \<and> h_inv t"
proof (cases hp)
  case None
  then show ?thesis
    using assms by (simp add: safebind_def)
next
  case (Some p)
  obtain h where h: "hm_heap (hs_mgr s) p = Some h"
    using h_invD(5) [OF inv, of k p] k Some by auto
  have "k \<in> holders s p"
    using k Some by (simp add: holders_def)
  then have "hi_refcnt h \<noteq> 0"
    using h_invD(3) [OF inv h] finite_holders [OF h_invD(6) [OF inv]] by auto
  then have upd: "h_inv (s\<lparr>hs_mgr := store p h' (hs_mgr s)\<rparr>)" if "hi_m h' = hi_m h" "hi_refcnt h' = hi_refcnt h" for h'
    using that h_invD(3,6) [OF inv] h by (intro h_inv_store [OF inv h]) (simp_all add: holders_def)
  show ?thesis
    using k Some h inv upd by (auto simp: safebind_def deref_def split: option.splits)
qed

lemma h_end_inv:
  assumes inv: "h_inv s" and k: "hs_live s k = Some hp"
  shows "\<exists>t. h_exec (H_end k) s = Returns t \<and> h_inv t"
proof (cases hp)
  case None
  let ?t = "\<lparr>hs_mgr = hs_mgr s, hs_live = (hs_live s)(k := None)\<rparr>"
  have "holders ?t = holders s"
    using k None by (auto simp: holders_def fun_eq_iff)
  then have "h_inv ?t"
    using h_invD(6) [OF inv] by (intro h_inv_live [OF inv]) simp_all
  then show ?thesis
    using k None by (simp add: handle_delete_def)
next
  case (Some p)
  obtain h where h: "hm_heap (hs_mgr s) p = Some h"
    using h_invD(5) [OF inv, of k p] k Some by auto
  let ?h = "h\<lparr>hi_refcnt := hi_refcnt h - 1\<rparr>"
  let ?t = "\<lparr>hs_mgr = store p ?h (hs_mgr s), hs_live = (hs_live s)(k := None)\<rparr>"
  have kp: "k \<in> holders s p" and fin: "finite (holders s p)"
    using k Some finite_holders [OF h_invD(6) [OF inv]] by (simp_all add: holders_def)
  have hs: "holders \<lparr>hs_mgr = g, hs_live = (hs_live s)(k := None)\<rparr> q = (if q = p then holders s p - {k} else holders s q)" for g q
    using k Some by (auto simp: holders_def)
  have cnt: "hi_refcnt ?h = int (card (holders ?t p))"
    using h_invD(3) [OF inv h] kp fin card_Diff_singleton [of k "holders s p"] card_gt_0_iff [of "holders s p"] by (auto simp: hs of_nat_diff)
  show ?thesis
  proof (cases "hi_refcnt ?h = 0 \<and> hi_del h")
    case False
    then have "h_inv ?t"
      using cnt h_invD(6) [OF inv] by (intro h_inv_store [OF inv h]) (auto simp: hs)
    then show ?thesis
      using False k Some h by (auto simp: handle_delete_def done_handle_def deref_def Let_def)
  next
    case True
    let ?u = "\<lparr>hs_mgr = store p (?h\<lparr>hi_del := False\<rparr>) (hs_mgr s), hs_live = (hs_live s)(k := None)\<rparr>"
    have "holders ?u = holders ?t"
      by (simp add: holders_def fun_eq_iff)
    then have u: "h_inv ?u"
      using cnt h_invD(6) [OF inv] by (intro h_inv_store [OF inv h]) (auto simp: hs)
    have "holders ?u p = {}"
      using True cnt fin \<open>holders ?u = holders ?t\<close> by (simp add: hs)
    then have "h_inv (?u\<lparr>hs_mgr := (hs_mgr ?u)\<lparr>hm_hmap := (hm_hmap (hs_mgr ?u))(hi_m h := None), hm_heap := (hm_heap (hs_mgr ?u))(p := None)\<rparr>\<rparr>)"
      using h_inv_free [OF u, of p "?h\<lparr>hi_del := False\<rparr>"] by (simp add: store_def)
    then show ?thesis
      using True k Some h h_invD(2) [OF inv h]
      by (simp add: handle_delete_def done_handle_def delete_handle_wo_def deref_def store_def Let_def)
  qed
qed

lemma h_exec_inv:
  assumes "h_inv s" and "h_enabled a s"
  shows "\<exists>t. h_exec a s = Returns t \<and> h_inv t"
proof (cases a)
  case (H_delete m)
  then show ?thesis
    using delete_handle_wo_inv [OF assms(1), of m] by (auto simp: delete_handle_def)
qed (use assms h_new_inv h_bind_inv h_end_inv in \<open>auto simp: h_enabled_def simp del: h_exec.simps\<close>)

interpretation hnd: invariant_system h_init h_step h_inv
proof
  show "h_inv s" if "h_init s" for s
    using that by (simp add: h_init_def h_inv_def handle_mgr_new_def)
  show "h_inv t" if "h_inv s" "h_step s t" for s t
    using that(2) h_exec_inv [OF that(1)] by (auto elim!: h_step.cases) (metis outcome.inject)
qed

text \<open>An object that survives an operation keeps its connection.\<close>

lemma delete_handle_wo_keeps:
  assumes "delete_handle_wo m g = Returns g'" and "hm_heap g' p = Some h'"
  shows "\<exists>h. hm_heap g p = Some h \<and> hi_cl h' = hi_cl h"
  using assms by (auto simp: delete_handle_wo_def deref_def store_def split: option.splits if_splits)

lemma done_handle_keeps:
  assumes "done_handle q g = Returns g'" and "hm_heap g' p = Some h'"
  shows "\<exists>h. hm_heap g p = Some h \<and> hi_cl h' = hi_cl h"
proof -
  obtain h where h: "hm_heap g q = Some h"
    using assms(1) by (cases "hm_heap g q") (auto simp: done_handle_def deref_def)
  let ?g = "store q (h\<lparr>hi_refcnt := hi_refcnt h - 1\<rparr>) g"
  have "delete_handle_wo (hi_m h) ?g = Returns g' \<or> g' = ?g"
    using assms(1) h by (auto simp: done_handle_def deref_def Let_def split: if_splits)
  then have "\<exists>h. hm_heap ?g p = Some h \<and> hi_cl h' = hi_cl h"
    using delete_handle_wo_keeps assms(2) by auto
  then show ?thesis
    using h by (auto simp: store_def split: if_splits)
qed

lemma h_exec_keeps:
  assumes "h_exec a s = Returns t" and "h_enabled a s" and "hm_heap (hs_mgr s) p = Some h" and "hm_heap (hs_mgr t) p = Some h'"
    and "hi_cl h = Some c"
  shows "hi_cl h' = Some c"
proof (cases a)
  case (H_new k new m)
  then show ?thesis
    using assms by (auto simp: handle_new_def get_handle_def h_enabled_def deref_def store_def split: option.splits if_splits)
next
  case (H_bind k b)
  then show ?thesis
    using assms by (auto simp: safebind_def deref_def store_def split: option.splits if_splits)
next
  case (H_end k)
  then show ?thesis
    using assms done_handle_keeps by (auto simp: handle_delete_def obind_Returns_iff split: option.splits) fastforce
next
  case (H_delete m)
  then show ?thesis
    using assms delete_handle_wo_keeps by (auto simp: delete_handle_def obind_Returns_iff) fastforce
qed

text \<open>What the users of one manager need: its map and its heap agree.\<close>

definition mgr_ok :: "handle_mgr \<Rightarrow> bool" where
  "mgr_ok g = (\<forall>m p. hm_hmap g m = Some p \<longleftrightarrow> (\<exists>h. hm_heap g p = Some h \<and> hi_m h = m))"

lemma h_inv_mgr_ok: "h_inv s \<Longrightarrow> mgr_ok (hs_mgr s)"
  by (simp add: h_inv_def mgr_ok_def)

lemma delete_handle_ok:
  assumes "mgr_ok g"
  shows "\<exists>g'. delete_handle m g = Returns g' \<and> mgr_ok g'"
proof (cases "hm_hmap g m")
  case None
  then show ?thesis
    using assms by (simp add: delete_handle_def delete_handle_wo_def)
next
  case (Some p)
  then obtain h where h: "hm_heap g p = Some h" "hi_m h = m"
    using assms by (auto simp: mgr_ok_def)
  have "mgr_ok (store p (h\<lparr>hi_del := True\<rparr>) g)"
    using assms h by (auto simp: mgr_ok_def store_def)
  moreover have "mgr_ok (g\<lparr>hm_hmap := (hm_hmap g)(m := None), hm_heap := (hm_heap g)(p := None)\<rparr>)"
    using assms h Some unfolding mgr_ok_def by (auto split: if_splits) (metis option.inject)+
  ultimately show ?thesis
    using Some h by (simp add: delete_handle_def delete_handle_wo_def deref_def)
qed

section \<open>Properties\<close>

text \<open>C23: Handles are memory safe: however handles are created, bound and destroyed while connections are deleted
  by name, no operation follows a pointer to a freed \<open>hinfo\<close>, and while a handle lives its object
  stays allocated, counted once for every handle that holds it, and keeps the connection it has.\<close>

theorem handles_safe:
  assumes "h_init s" and "h_step\<^sup>*\<^sup>* s t" and "h_enabled a t"
  shows "\<exists>u. h_exec a t = Returns u
    \<and> (\<forall>k p. hs_live u k = Some (Some p) \<longrightarrow> (\<exists>h. hm_heap (hs_mgr u) p = Some h \<and> hi_refcnt h = int (card (holders u p))))
    \<and> (\<forall>k p h c. hs_live t k = Some (Some p) \<longrightarrow> hs_live u k = Some (Some p) \<longrightarrow> hm_heap (hs_mgr t) p = Some h \<longrightarrow> hi_cl h = Some c
        \<longrightarrow> (\<exists>h'. hm_heap (hs_mgr u) p = Some h' \<and> hi_cl h' = Some c))"
proof -
  obtain u where u: "h_exec a t = Returns u" "h_inv u"
    using h_exec_inv [OF hnd.inv_reachable [OF assms(1,2)] assms(3)] by auto
  have "\<exists>h. hm_heap (hs_mgr u) p = Some h \<and> hi_refcnt h = int (card (holders u p))" if "hs_live u k = Some (Some p)" for k p
    using h_invD(5) [OF u(2) that] h_invD(3) [OF u(2)] by auto
  moreover have "\<exists>h'. hm_heap (hs_mgr u) p = Some h' \<and> hi_cl h' = Some c"
    if "hs_live u k = Some (Some p)" "hm_heap (hs_mgr t) p = Some h" "hi_cl h = Some c" for k p h c
    using h_invD(5) [OF u(2) that(1)] h_exec_keeps [OF u(1) assms(3) that(2)] that(3) by auto
  ultimately show ?thesis
    using u(1) by blast
qed

theorem handles_safe_witness:
  "\<exists>t u. h_step\<^sup>*\<^sup>* \<lparr>hs_mgr = handle_mgr_new, hs_live = Map.empty\<rparr> t \<and> h_exec (H_delete ''n'') t = Returns u
    \<and> (\<exists>h. hm_heap (hs_mgr u) 5 = Some h \<and> hi_refcnt h = int (card (holders u 5)))"
proof -
  let ?s = "\<lparr>hs_mgr = handle_mgr_new, hs_live = Map.empty\<rparr>"
  obtain t where t: "h_exec (H_new 0 5 ''n'') ?s = Returns t" "hs_live t 0 = Some (Some 5)"
    by (simp add: handle_new_def get_handle_def handle_mgr_new_def)
  then have st: "h_step\<^sup>*\<^sup>* ?s t"
    by (intro r_into_rtranclp h_step.intros [of "H_new 0 5 ''n''"]) (simp_all add: h_enabled_def handle_mgr_new_def)
  have en: "h_enabled (H_delete ''n'') t"
    by (simp add: h_enabled_def)
  have "hs_live u = hs_live t" if "h_exec (H_delete ''n'') t = Returns u" for u
    using that by (auto simp: obind_Returns_iff)
  then show ?thesis
    using handles_safe [OF _ st en] st t(2) unfolding h_init_def by metis
qed

end
