(* ===== verification/Config.thy ===== *)
theory Config
  imports Paxos Handle
begin

text \<open>
  The view manager (config.cc, config.h): the members of each view, and view changes through Paxos.

  \<^item> A \<open>config\<close> owns its acceptor, its proposer and the connection manager of its process. A view is
    a string of node names, as the Paxos log stores it; \<open>config_members\<close> parses it with the stream
    operations of \<open>Paxos_Acceptor\<close>.
  \<^item> A \<open>cluster\<close> is the config of every node. \<open>config_add\<close> and \<open>config_remove_wo\<close> run a whole view change
    with nothing else going on: the proposer runs on the acceptors of the cluster, and the calls of
    \<open>paxos_commit\<close> it causes are then made, in order. The last component of their result is the
    list of \<open>commit_change\<close> calls to the layer above.
  \<^item> \<open>heartbeat_turn\<close> is one turn of the loop in \<open>heartbeater\<close>; it returns the member to remove.
    What happens to the call in \<open>doheartbeat\<close> is an argument.
\<close>

section \<open>Views as strings\<close>

function members_loop :: "ifs \<Rightarrow> string list" where
  "members_loop st = (let (m, st') = get_word [] st in if is_good st' then m # members_loop st' else [])"
  by pat_completeness auto
termination
  by (relation "measure (\<lambda>st. length (is_buf st))") (auto dest: get_word_shorter [OF sym])

definition config_members :: "string \<Rightarrow> string list" where
  "config_members v = members_loop (ifs_open v)"

definition config_value :: "string list \<Rightarrow> string" where
  "config_value m = concat (map (\<lambda>s. s @ '' '') m)"

section \<open>State and views\<close>

record config =
  cf_acc :: acceptor
  cf_pro :: proposer
  cf_myvid :: u32
  cf_first :: string
  cf_me :: string
  cf_mems :: "string list"
  cf_mgr :: handle_mgr

definition get_view_wo :: "u32 \<Rightarrow> config \<Rightarrow> string list \<times> config" where
  "get_view_wo inst c = (let (v, x) = acceptor_value inst (cf_acc c) in (config_members v, c\<lparr>cf_acc := x\<rparr>))"

definition get_view :: "u32 \<Rightarrow> config \<Rightarrow> string list \<times> config" where
  "get_view inst c = get_view_wo inst c"

definition reconstruct :: "config \<Rightarrow> config" where
  "reconstruct c =
     (if ac_instance_h (cf_acc c) > 0
      then let c = c\<lparr>cf_myvid := ac_instance_h (cf_acc c)\<rparr>; (ms, c) = get_view_wo (cf_myvid c) c in c\<lparr>cf_mems := ms\<rparr>
      else c)"

definition config_new :: "u32 \<Rightarrow> string \<Rightarrow> string \<Rightarrow> handle_mgr \<Rightarrow> string \<Rightarrow> config outcome" where
  "config_new junk first me g file =
     obind (acceptor_new junk (me = first) me me file) (\<lambda>x.
       Returns (reconstruct \<lparr>cf_acc = x, cf_pro = proposer_new me, cf_myvid = 0, cf_first = first, cf_me = me, cf_mems = [], cf_mgr = g\<rparr>))"

definition config_restore :: "u32 \<Rightarrow> string \<Rightarrow> config \<Rightarrow> config outcome" where
  "config_restore junk s c = obind (acceptor_restore junk s (cf_acc c)) (\<lambda>x. Returns (reconstruct (c\<lparr>cf_acc := x\<rparr>)))"

definition config_ismember :: "string \<Rightarrow> u32 \<Rightarrow> config \<Rightarrow> bool \<times> config" where
  "config_ismember m vid c = (let (v, c) = get_view_wo vid c in (isamember m v, c))"

section \<open>Committing a view\<close>

fun delete_gone :: "string \<Rightarrow> string list \<Rightarrow> string list \<Rightarrow> handle_mgr \<Rightarrow> handle_mgr outcome" where
  "delete_gone me newmem [] g = Returns g"
| "delete_gone me newmem (m # mems) g =
     (if \<not> isamember m newmem \<and> me \<noteq> m then obind (delete_handle m g) (delete_gone me newmem mems)
      else delete_gone me newmem mems g)"

text \<open>Returns the view number that \<open>commit_change\<close> is called with.\<close>

definition paxos_commit :: "u32 \<Rightarrow> string \<Rightarrow> config \<Rightarrow> (u32 \<times> config) outcome" where
  "paxos_commit inst v c =
     (let newmem = config_members v
      in obind (delete_gone (cf_me c) newmem (cf_mems c) (cf_mgr c)) (\<lambda>g.
           Returns (inst, c\<lparr>cf_mgr := g, cf_mems := newmem, cf_myvid := inst\<rparr>)))"

section \<open>View changes\<close>

record cluster =
  cl_cfg :: "string \<Rightarrow> config"
  cl_down :: "string list"

fun deliver :: "(string \<times> u32 \<times> string) list \<Rightarrow> (string \<Rightarrow> config) \<Rightarrow> ((string \<times> u32) list \<times> (string \<Rightarrow> config)) outcome" where
  "deliver [] f = Returns ([], f)"
| "deliver ((s, i, v) # us) f =
     obind (paxos_commit i v (f s)) (\<lambda>(vid, c). obind (deliver us (f(s := c))) (\<lambda>(vs, f). Returns ((s, vid) # vs, f)))"

definition run_paxos :: "px_env \<Rightarrow> string \<Rightarrow> u32 \<Rightarrow> string list \<Rightarrow> string \<Rightarrow> cluster \<Rightarrow> (bool \<times> (string \<times> u32) list \<times> cluster) outcome" where
  "run_paxos e me i nodes v cl =
     obind (proposer_run e i nodes v (cf_pro (cl_cfg cl me)) \<lparr>w_acc = (\<lambda>s. cf_acc (cl_cfg cl s)), w_down = cl_down cl, w_commits = []\<rparr>) (\<lambda>(r, p, w).
       let f = (\<lambda>s. (cl_cfg cl s)\<lparr>cf_acc := w_acc w s\<rparr>); f = f(me := (f me)\<lparr>cf_pro := p\<rparr>)
       in obind (deliver (w_commits w) f) (\<lambda>(vs, f). Returns (r, vs, \<lparr>cl_cfg = f, cl_down = w_down w\<rparr>)))"

definition config_add :: "px_env \<Rightarrow> string \<Rightarrow> string \<Rightarrow> u32 \<Rightarrow> cluster \<Rightarrow> (bool \<times> (string \<times> u32) list \<times> cluster) outcome" where
  "config_add e me new_m vid cl =
     (let c = cl_cfg cl me
      in if vid \<noteq> cf_myvid c then Returns (False, [], cl)
         else run_paxos e me (cf_myvid c + 1) (cf_mems c) (config_value (cf_mems c @ [new_m])) cl)"

definition config_remove_wo :: "px_env \<Rightarrow> string \<Rightarrow> string \<Rightarrow> cluster \<Rightarrow> (bool \<times> (string \<times> u32) list \<times> cluster) outcome" where
  "config_remove_wo e me m cl =
     (let c = cl_cfg cl me
      in run_paxos e me (cf_myvid c + 1) (cf_mems c) (config_value (filter (\<lambda>s. s \<noteq> m) (cf_mems c))) cl)"

section \<open>Heartbeats\<close>

definition heartbeat :: "u32 \<Rightarrow> config \<Rightarrow> (u32 \<times> u32) outcome" where
  "heartbeat vid c =
     (if vid = cf_myvid c then Returns (paxos_OK, cf_myvid c)
      else if isrunning (cf_pro c)
      then VERIFY (vid = cf_myvid c + 1 \<or> vid + 1 = cf_myvid c) (Returns (paxos_OK, cf_myvid c))
      else Returns (paxos_ERR, cf_myvid c))"

datatype heartbeat_t = HB_OK | HB_VIEWERR | HB_FAILURE

record hb_env =
  he_new :: nat
  he_bound :: "nat option"
  he_ret :: u32

definition doheartbeat :: "hb_env \<Rightarrow> string \<Rightarrow> config \<Rightarrow> (heartbeat_t \<times> config) outcome" where
  "doheartbeat e m c =
     obind (handle_new (he_new e) m (cf_mgr c)) (\<lambda>(h, g).
     obind (safebind (he_bound e) h g) (\<lambda>(cl, g).
       let ret = (if cl \<noteq> None then he_ret e else timeout_failure)
       in obind (if ret \<noteq> paxos_OK \<and> (ret = atmostonce_failure \<or> ret = oldsrv_failure) then delete_handle m g else Returns g) (\<lambda>g.
          obind (handle_delete h g) (\<lambda>g.
            Returns (if ret = paxos_OK \<or> ret = atmostonce_failure \<or> ret = oldsrv_failure then HB_OK
                     else if sint ret < 0 then HB_FAILURE else HB_VIEWERR, c\<lparr>cf_mgr := g\<rparr>)))))"

fun ping_loop :: "(nat \<Rightarrow> hb_env) \<Rightarrow> string list \<Rightarrow> config \<Rightarrow> (string option \<times> config) outcome" where
  "ping_loop e [] c = Returns (None, c)"
| "ping_loop e (m # ms) c =
     (if m \<noteq> cf_me c
      then obind (doheartbeat (e 0) m c) (\<lambda>(h, c). if h \<noteq> HB_OK then Returns (Some m, c) else ping_loop (e \<circ> Suc) ms c)
      else ping_loop (e \<circ> Suc) ms c)"

definition smallest :: "string \<Rightarrow> string list \<Rightarrow> string" where
  "smallest me cmems = foldl (\<lambda>m s. if m > s then s else m) me cmems"

definition heartbeat_turn :: "(nat \<Rightarrow> hb_env) \<Rightarrow> config \<Rightarrow> (string option \<times> config) outcome" where
  "heartbeat_turn e c =
     (let vid = cf_myvid c; (cmems, c) = get_view_wo vid c
      in if \<not> isamember (cf_me c) cmems then Returns (None, c)
         else let m = smallest (cf_me c) cmems
              in obind (if m = cf_me c then ping_loop e cmems c
                        else obind (doheartbeat (e 0) m c) (\<lambda>(h, c). Returns (if h \<noteq> HB_OK then Some m else None, c)))
                   (\<lambda>(failed, c). Returns (if vid = cf_myvid c then failed else None, c)))"

section \<open>Example\<close>

definition ex_config :: "string \<Rightarrow> config" where
  "ex_config s = \<lparr>cf_acc = px_acc px_example s, cf_pro = proposer_new s, cf_myvid = 1, cf_first = ''A'', cf_me = s,
     cf_mems = ex_nodes, cf_mgr = handle_mgr_new\<rparr>"

definition ex_px_env :: px_env where
  "ex_px_env = \<lparr>pe_prepare = all_up, pe_accept = all_up, pe_decide = all_up, pe_junk = ex_junk, pe_garbage = 0\<rparr>"

section \<open>Views survive the round trip through the log\<close>

declare members_loop.simps [simp del]

lemma members_loop_value:
  assumes "list_all word_ok ms" and "ws = [] \<or> ws = '' ''"
  shows "members_loop \<lparr>is_buf = ws @ config_value ms, is_good = True\<rparr> = ms"
  using assms
proof (induction ms arbitrary: ws)
  case Nil
  then show ?case
    by (auto simp: members_loop.simps [of "\<lparr>is_buf = _, is_good = _\<rparr>"] config_value_def get_word_def isspace_def)
next
  case (Cons m ms)
  have "get_word [] \<lparr>is_buf = ws @ config_value (m # ms), is_good = True\<rparr> = (m, \<lparr>is_buf = '' '' @ config_value ms, is_good = True\<rparr>)"
    using Cons.prems get_word_show(1,2) [of m "CHR '' ''" "[]" "config_value ms"] by (auto simp: config_value_def space_not_digit)
  then show ?case
    using Cons.IH [of "'' ''"] Cons.prems(1) by (simp add: members_loop.simps [of "\<lparr>is_buf = ws @ _, is_good = _\<rparr>"])
qed

lemma members_value: "list_all word_ok ms \<Longrightarrow> config_members (config_value ms) = ms"
  using members_loop_value [of ms "[]"] by (simp add: config_members_def ifs_open_def)

lemma members_single:
  assumes "word_ok m"
  shows "config_members m = [m]"
proof -
  have "dropWhile isspace m = m" "takeWhile (\<lambda>c. \<not> isspace c) m = m" "dropWhile (\<lambda>c. \<not> isspace c) m = []" "m \<noteq> []"
    using assms by (auto simp: word_ok_def dropWhile_eq_self_iff takeWhile_eq_all_conv)
  then have "get_word [] \<lparr>is_buf = m, is_good = True\<rparr> = (m, \<lparr>is_buf = [], is_good = True\<rparr>)"
    by (simp only: get_word_def Let_def ifs.simps) simp
  moreover have "get_word [] \<lparr>is_buf = [], is_good = True\<rparr> = ([], \<lparr>is_buf = [], is_good = False\<rparr>)"
    by (simp add: get_word_def)
  ultimately show ?thesis
    by (simp add: config_members_def ifs_open_def members_loop.simps)
qed

section \<open>Delivering commits\<close>

lemma delete_gone_ok: "mgr_ok g \<Longrightarrow> \<exists>g'. delete_gone me newmem mems g = Returns g' \<and> mgr_ok g'"
proof (induction mems arbitrary: g)
  case (Cons m mems)
  show ?case
  proof (cases "\<not> isamember m newmem \<and> me \<noteq> m")
    case True
    obtain g1 where "delete_handle m g = Returns g1" "mgr_ok g1"
      using delete_handle_ok [OF Cons.prems] by auto
    then show ?thesis
      using Cons.IH [of g1] True by simp
  next
    case False
    then show ?thesis
      using Cons.IH [OF Cons.prems] by auto
  qed
qed simp

lemma deliver_all:
  assumes "distinct nodes" and "\<forall>s \<in> set nodes. mgr_ok (cf_mgr (f s))"
  shows "\<exists>f'. deliver (map (\<lambda>s. (s, i, v)) nodes) f = Returns (map (\<lambda>s. (s, i)) nodes, f')
    \<and> (\<forall>s \<in> set nodes. cf_mems (f' s) = config_members v \<and> cf_myvid (f' s) = i \<and> cf_acc (f' s) = cf_acc (f s) \<and> mgr_ok (cf_mgr (f' s)))
    \<and> (\<forall>s. s \<notin> set nodes \<longrightarrow> f' s = f s)"
  using assms
proof (induction nodes arbitrary: f)
  case (Cons s nodes)
  obtain g where g: "delete_gone (cf_me (f s)) (config_members v) (cf_mems (f s)) (cf_mgr (f s)) = Returns g" "mgr_ok g"
    using delete_gone_ok Cons.prems(2) by (metis list.set_intros(1))
  define f1 where "f1 = f(s := (f s)\<lparr>cf_mgr := g, cf_mems := config_members v, cf_myvid := i\<rparr>)"
  have pc: "paxos_commit i v (f s) = Returns (i, f1 s)"
    using g by (simp add: paxos_commit_def f1_def)
  have f1: "f(s := f1 s) = f1"
    by (simp add: f1_def)
  have "\<forall>s \<in> set nodes. mgr_ok (cf_mgr (f1 s))"
    using Cons.prems g(2) by (simp add: f1_def)
  then obtain f' where f': "deliver (map (\<lambda>s. (s, i, v)) nodes) f1 = Returns (map (\<lambda>s. (s, i)) nodes, f')"
      "\<forall>s \<in> set nodes. cf_mems (f' s) = config_members v \<and> cf_myvid (f' s) = i \<and> cf_acc (f' s) = cf_acc (f1 s) \<and> mgr_ok (cf_mgr (f' s))"
      "\<forall>s. s \<notin> set nodes \<longrightarrow> f' s = f1 s"
    using Cons.IH [of f1] Cons.prems(1) by auto
  then show ?case
    using pc f1 g(2) Cons.prems(1) by (auto simp: f1_def)
qed simp

text \<open>A view change that nothing disturbs, for any new member list.\<close>

definition cl_world :: "cluster \<Rightarrow> world" where
  "cl_world cl = \<lparr>w_acc = (\<lambda>s. cf_acc (cl_cfg cl s)), w_down = cl_down cl, w_commits = []\<rparr>"

definition quiet :: "px_env \<Rightarrow> string \<Rightarrow> string list \<Rightarrow> u32 \<Rightarrow> cluster \<Rightarrow> bool" where
  "quiet e me nodes i cl =
     (let p = cf_pro (cl_cfg cl me)
      in po_stable p \<and> \<not> po_break1 p \<and> \<not> po_break2 p \<and> nodes \<noteq> [] \<and> distinct nodes
         \<and> list_all (w_ready i (po_my_n (setn (ac_n_h (cf_acc (cl_cfg cl (po_me p)))) p)) (cl_world cl)) nodes
         \<and> pe_prepare e = all_up \<and> pe_accept e = all_up \<and> pe_decide e = all_up
         \<and> (\<forall>s \<in> set nodes. mgr_ok (cf_mgr (cl_cfg cl s))))"

definition in_view :: "u32 \<Rightarrow> string list \<Rightarrow> config \<Rightarrow> bool" where
  "in_view i ms c = (cf_myvid c = i \<and> cf_mems c = ms \<and> ac_instance_h (cf_acc c) = i \<and> ac_values (cf_acc c) i = Some (config_value ms))"

lemma run_paxos_view:
  assumes "quiet e me nodes i cl" and "list_all word_ok ms"
  shows "\<exists>cl'. run_paxos e me i nodes (config_value ms) cl = Returns (True, map (\<lambda>s. (s, i)) nodes, cl')
    \<and> (\<forall>s \<in> set nodes. in_view i ms (cl_cfg cl' s))"
proof -
  let ?v = "config_value ms" and ?p = "cf_pro (cl_cfg cl me)"
  obtain p w where w: "proposer_run e i nodes ?v ?p (cl_world cl) = Returns (True, p, w)"
      "\<forall>s \<in> set nodes. w_decided i ?v w s" "w_commits w = map (\<lambda>s. (s, i, ?v)) nodes"
    using lone_run [of ?p nodes i "cl_world cl" e ?v] assms(1) by (auto simp: quiet_def Let_def list_all_iff cl_world_def)
  define f where "f = (\<lambda>s. (cl_cfg cl s)\<lparr>cf_acc := w_acc w s\<rparr>)"
  define f1 where "f1 = f(me := (f me)\<lparr>cf_pro := p\<rparr>)"
  have acc: "cf_acc (f1 s) = w_acc w s" "cf_mgr (f1 s) = cf_mgr (cl_cfg cl s)" for s
    by (auto simp: f1_def f_def)
  obtain f' where f': "deliver (map (\<lambda>s. (s, i, ?v)) nodes) f1 = Returns (map (\<lambda>s. (s, i)) nodes, f')"
      "\<forall>s \<in> set nodes. cf_mems (f' s) = config_members ?v \<and> cf_myvid (f' s) = i \<and> cf_acc (f' s) = cf_acc (f1 s)"
    using deliver_all [of nodes f1 i ?v] assms(1) acc by (auto simp: quiet_def Let_def)
  have "run_paxos e me i nodes ?v cl = Returns (True, map (\<lambda>s. (s, i)) nodes, \<lparr>cl_cfg = f', cl_down = w_down w\<rparr>)"
    using w f'(1) by (simp add: run_paxos_def cl_world_def f_def f1_def Let_def)
  moreover have "\<forall>s \<in> set nodes. in_view i ms (f' s)"
    using f'(2) w(2) acc members_value [OF assms(2)] by (simp add: in_view_def w_decided_def)
  ultimately show ?thesis
    by simp
qed

text \<open>Looking up a value does not change what an acceptor stands for.\<close>

lemma acceptor_value_same:
  "logged x \<Longrightarrow> logged (snd (acceptor_value i x))" "ac_me (snd (acceptor_value i x)) = ac_me x"
  "ac_instance_h (snd (acceptor_value i x)) = ac_instance_h x"
proof -
  let ?y = "snd (acceptor_value i x)"
  have g: "ac_n_h ?y = ac_n_h x" "ac_n_a ?y = ac_n_a x" "ac_v_a ?y = ac_v_a x" "ac_log ?y = ac_log x"
    by (simp_all add: acceptor_value_def Let_def)
  show f: "ac_me ?y = ac_me x" "ac_instance_h ?y = ac_instance_h x"
    by (simp_all add: acceptor_value_def Let_def)
  have "val_of ?y j = val_of x j" for j
    by (cases "ac_values x i") (simp_all add: acceptor_value_def val_of_def Let_def)
  then have "val_of ?y = val_of x"
    by (rule ext)
  then have "same_acceptor x z \<Longrightarrow> same_acceptor ?y z" for z
    unfolding same_acceptor_def g f by simp
  then show "logged x \<Longrightarrow> logged ?y"
    using f(1) g(4) logged_same [of x ?y] by blast
qed

section \<open>Heartbeats\<close>

lemma ping_loop_picks:
  assumes "ping_loop e ms c = Returns (Some m, c')"
  shows "m \<in> set ms \<and> m \<noteq> cf_me c \<and> (\<exists>k c1 h c2. doheartbeat (e k) m c1 = Returns (h, c2) \<and> h \<noteq> HB_OK)"
  using assms
proof (induction ms arbitrary: e c)
  case (Cons x ms)
  have me: "cf_me c2 = cf_me c" if "doheartbeat f y c = Returns (h, c2)" for f y h c2
    using that by (auto simp: doheartbeat_def obind_Returns_iff Let_def split: prod.splits)
  show ?case
  proof (cases "x = cf_me c")
    case True
    then show ?thesis
      using Cons.IH [of "e \<circ> Suc" c] Cons.prems by (auto simp: comp_def)
  next
    case False
    then obtain h c1 where h: "doheartbeat (e 0) x c = Returns (h, c1)"
        "(if h \<noteq> HB_OK then Returns (Some x, c1) else ping_loop (e \<circ> Suc) ms c1) = Returns (Some m, c')"
      using Cons.prems by (auto simp: obind_Returns_iff)
    then show ?thesis
      using Cons.IH [of "e \<circ> Suc" c1] me [OF h(1)] False by (auto simp: comp_def split: if_splits)
  qed
qed simp

lemma smallest_Min: "me \<in> set ms \<Longrightarrow> smallest me ms = Min (set ms)"
proof -
  have "smallest me ms = Min (insert me (set ms))" for me ms
  proof (induction ms rule: rev_induct)
    case (snoc x ms)
    have "smallest me (ms @ [x]) = min x (smallest me ms)"
      by (auto simp: smallest_def min_def)
    moreover have "insert me (set (ms @ [x])) = insert x (insert me (set ms))"
      by auto
    ultimately show ?case
      using snoc by (simp add: Min_insert del: insert_iff)
  qed (simp add: smallest_def)
  then show "me \<in> set ms \<Longrightarrow> ?thesis"
    by (simp add: insert_absorb)
qed

section \<open>Properties\<close>

text \<open>C20: A view change that nothing disturbs succeeds at every member: adding a node, or removing one, ends with
  every member of the old view in the next view, with the new member list, the same view in its
  Paxos log, and one \<open>commit_change\<close> call made for it.\<close>

theorem view_change_agreed:
  assumes "quiet e me ms (vid + 1) cl" and "cf_myvid (cl_cfg cl me) = vid" and "cf_mems (cl_cfg cl me) = ms"
    and "list_all word_ok ms" and "word_ok m"
  shows "(\<exists>cl'. config_add e me m vid cl = Returns (True, map (\<lambda>s. (s, vid + 1)) ms, cl')
        \<and> (\<forall>s \<in> set ms. in_view (vid + 1) (ms @ [m]) (cl_cfg cl' s)))
    \<and> (\<exists>cl'. config_remove_wo e me m cl = Returns (True, map (\<lambda>s. (s, vid + 1)) ms, cl')
        \<and> (\<forall>s \<in> set ms. in_view (vid + 1) (filter (\<lambda>s. s \<noteq> m) ms) (cl_cfg cl' s)))"
  using run_paxos_view [OF assms(1), of "ms @ [m]"] run_paxos_view [OF assms(1), of "filter (\<lambda>s. s \<noteq> m) ms"] assms(2-5)
  by (simp add: config_add_def config_remove_wo_def list_all_iff Let_def)

theorem view_change_agreed_witness:
  "\<exists>vs cl'. config_add ex_px_env ''A'' ''D'' 1 \<lparr>cl_cfg = ex_config, cl_down = []\<rparr> = Returns (True, vs, cl')
    \<and> cf_mems (cl_cfg cl' ''C'') = [''A'', ''B'', ''C'', ''D''] \<and> cf_myvid (cl_cfg cl' ''C'') = 2"
proof -
  have "quiet ex_px_env ''A'' ex_nodes (1 + 1) \<lparr>cl_cfg = ex_config, cl_down = []\<rparr>"
    by (simp add: quiet_def ex_config_def ex_px_env_def px_example_def ex_nodes_def proposer_new_def w_ready_def cl_world_def setn_def
        prop_gt_def word_le_nat_alt word_less_nat_alt mgr_ok_def handle_mgr_new_def Let_def)
  moreover have "list_all word_ok ex_nodes" "word_ok ''D''"
    by (simp_all add: ex_nodes_def word_ok_def isspace_def)
  ultimately show ?thesis
    using view_change_agreed [of ex_px_env "''A''" ex_nodes 1 "\<lparr>cl_cfg = ex_config, cl_down = []\<rparr>" "''D''"]
    by (auto simp: ex_config_def in_view_def ex_nodes_def)
qed



text \<open>C22: A node that restarts is back in its last view: whatever requests its acceptor has served, the config
  built from the log file has the number of the last decided view and the members that view was
  decided with.\<close>

theorem restart_same_view:
  assumes "config_new junk first me g [] = Returns c" and "word_ok me" and "list_all acc_op_ok as" and "acc_run as (cf_acc c) = Returns y"
    and "ac_instance_h y \<noteq> 0"
  shows "\<exists>c'. config_new junk' first me g' (ac_log y) = Returns c' \<and> cf_myvid c' = ac_instance_h y
    \<and> cf_mems c' = config_members (val_of y (ac_instance_h y))"
proof -
  have acc: "cf_acc (reconstruct d) = (if ac_instance_h (cf_acc d) = 0 then cf_acc d
      else snd (acceptor_value (ac_instance_h (cf_acc d)) (cf_acc d)))" for d
    by (auto simp: reconstruct_def get_view_wo_def acceptor_value_def word_gt_0 Let_def)
  obtain x where x: "acceptor_new junk (me = first) me me [] = Returns x"
      "c = reconstruct \<lparr>cf_acc = x, cf_pro = proposer_new me, cf_myvid = 0, cf_first = first, cf_me = me, cf_mems = [], cf_mgr = g\<rparr>"
    using assms(1) by (auto simp: config_new_def obind_Returns_iff)
  have "line_ok me"
    using assms(2) space_not_digit(3) by (auto simp: line_ok_def word_ok_def)
  note n = acceptor_new_logged [OF x(1) this]
  have "cf_acc c = x \<or> cf_acc c = snd (acceptor_value (ac_instance_h x) x)"
    unfolding x(2) acc by simp
  then have "logged (cf_acc c)" "ac_me (cf_acc c) = me"
    using n(1,2) acceptor_value_same(1,2) [where x = x and i = "ac_instance_h x"] by (elim disjE; simp)+
  then have y: "logged y" "ac_me y = me"
    using run_logged [OF _ assms(3,4)] run_instance [OF assms(4)] by auto
  obtain z where z: "acceptor_new junk' (me = first) me me (ac_log y) = Returns z" "same_acceptor y z"
    using recover_logged [OF y, of "me = first" junk' me] assms(5) by auto
  then have "ac_instance_h z = ac_instance_h y" "val_of z = val_of y"
    by (simp_all add: same_acceptor_def)
  moreover have "val_of z i = fst (acceptor_value i z)" for i
    by (simp add: val_of_def acceptor_value_def Let_def)
  ultimately show ?thesis
    using z(1) assms(5) by (auto simp: config_new_def reconstruct_def get_view_wo_def word_gt_0 Let_def split: prod.splits)
qed

theorem restart_same_view_witness:
  "\<exists>c y c'. config_new 0 ''A'' ''A'' handle_mgr_new [] = Returns c \<and> acc_run [A_commit 2 (config_value [''A'', ''B''])] (cf_acc c) = Returns y
    \<and> config_new 9 ''A'' ''A'' handle_mgr_new (ac_log y) = Returns c' \<and> cf_myvid c' = 2 \<and> cf_mems c' = [''A'', ''B'']"
proof -
  let ?v = "config_value [''A'', ''B'']"
  have w: "word_ok ''A''" "list_all word_ok [''A'', ''B'']"
    by (simp_all add: word_ok_def isspace_def)
  have ok: "list_all acc_op_ok [A_commit 2 ?v]"
    by (simp add: line_ok_def config_value_def newline_def)
  obtain c where c: "config_new 0 ''A'' ''A'' handle_mgr_new [] = Returns c" "ac_instance_h (cf_acc c) = 1"
    by (simp add: config_new_def acceptor_new_fresh loginstance_def reconstruct_def get_view_wo_def acceptor_value_def Let_def)
  obtain y where y: "acc_run [A_commit 2 ?v] (cf_acc c) = Returns y" "ac_instance_h y = 2" "val_of y 2 = ?v"
    using c(2) by (simp add: commit_def commit_wo_def word_less_nat_alt val_of_def)
  then show ?thesis
    using restart_same_view [OF c(1) w(1) ok y(1), where junk' = 9 and g' = handle_mgr_new] members_value [OF w(2)] c(1) by auto
qed

end
