(* ===== verification/Fifo.thy ===== *)
theory Fifo
  imports Prelude
begin

text \<open>
  The bounded queue (rpc/fifo.h) and the thread pool built on it (rpc/thr\_pool.h, rpc/thr\_pool.cc).

  \<^item> \<open>fifo_enq\<close> and \<open>fifo_deq\<close> are one turn of their loops: they finish, or they wait on a condition
    variable. A \<open>max_\<close> of 0 stands for no bound.
  \<^item> \<open>f_step\<close> is the queue with any number of threads calling it. A thread is asleep on one of the
    condition variables, or has been signalled and will take another turn; only their numbers
    matter. \<open>f_inv\<close> says that no wake-up is lost.
  \<^item> A \<open>job\<close> of the pool is \<open>None\<close> for the poison pill that ends a worker. \<open>p_step\<close> is the pool with
    its workers, after the destructor has put one pill per worker into the queue.
\<close>

section \<open>Queue\<close>

record 'a fifo =
  fq_q :: "'a list"
  fq_max :: nat

definition fifo_new :: "nat \<Rightarrow> 'a fifo" where
  "fifo_new limit = \<lparr>fq_q = [], fq_max = limit\<rparr>"

text \<open>The declared result type is \<open>bool\<close>.\<close>

definition fifo_size :: "'a fifo \<Rightarrow> bool" where
  "fifo_size f = (length (fq_q f) \<noteq> 0)"

text \<open>Each result tells whether the other condition variable is signalled.\<close>

datatype 'r turn = Finished 'r bool | Waits

definition fifo_enq :: "'a \<Rightarrow> bool \<Rightarrow> 'a fifo \<Rightarrow> bool turn \<times> 'a fifo" where
  "fifo_enq e blocking f =
     (if fq_max f = 0 \<or> length (fq_q f) < fq_max f then (Finished True True, f\<lparr>fq_q := fq_q f @ [e]\<rparr>)
      else if blocking then (Waits, f)
      else (Finished False False, f))"

definition fifo_deq :: "'a fifo \<Rightarrow> 'a turn \<times> 'a fifo" where
  "fifo_deq f =
     (case fq_q f of
        [] \<Rightarrow> (Waits, f)
      | e # q \<Rightarrow> (Finished e (fq_max f \<noteq> 0 \<and> length q < fq_max f), f\<lparr>fq_q := q\<rparr>))"

section \<open>Threads on a queue\<close>

record 'a fsys =
  fs_fifo :: "'a fifo"
  fs_sleep_deq :: nat
  fs_woken_deq :: nat
  fs_sleep_enq :: nat
  fs_woken_enq :: nat

text \<open>\<open>pthread_cond_signal\<close> wakes one of the sleepers, if there is one.\<close>

definition signal_deq :: "bool \<Rightarrow> 'a fsys \<Rightarrow> 'a fsys" where
  "signal_deq b s = (if b \<and> 0 < fs_sleep_deq s then s\<lparr>fs_sleep_deq := fs_sleep_deq s - 1, fs_woken_deq := fs_woken_deq s + 1\<rparr> else s)"

definition signal_enq :: "bool \<Rightarrow> 'a fsys \<Rightarrow> 'a fsys" where
  "signal_enq b s = (if b \<and> 0 < fs_sleep_enq s then s\<lparr>fs_sleep_enq := fs_sleep_enq s - 1, fs_woken_enq := fs_woken_enq s + 1\<rparr> else s)"

definition turn_enq :: "'a \<Rightarrow> bool \<Rightarrow> 'a fsys \<Rightarrow> 'a fsys" where
  "turn_enq e blocking s =
     (case fifo_enq e blocking (fs_fifo s) of
        (Finished r sig, f) \<Rightarrow> signal_deq sig (s\<lparr>fs_fifo := f\<rparr>)
      | (Waits, f) \<Rightarrow> s\<lparr>fs_fifo := f, fs_sleep_enq := fs_sleep_enq s + 1\<rparr>)"

definition turn_deq :: "'a fsys \<Rightarrow> 'a fsys" where
  "turn_deq s =
     (case fifo_deq (fs_fifo s) of
        (Finished r sig, f) \<Rightarrow> signal_enq sig (s\<lparr>fs_fifo := f\<rparr>)
      | (Waits, f) \<Rightarrow> s\<lparr>fs_fifo := f, fs_sleep_deq := fs_sleep_deq s + 1\<rparr>)"

inductive f_step :: "'a fsys \<Rightarrow> 'a fsys \<Rightarrow> bool" where
  f_enq: "f_step s (turn_enq e blocking s)"
| f_deq: "f_step s (turn_deq s)"
| f_enq_woken: "0 < fs_woken_enq s \<Longrightarrow> f_step s (turn_enq e True (s\<lparr>fs_woken_enq := fs_woken_enq s - 1\<rparr>))"
| f_deq_woken: "0 < fs_woken_deq s \<Longrightarrow> f_step s (turn_deq (s\<lparr>fs_woken_deq := fs_woken_deq s - 1\<rparr>))"

definition f_init :: "'a fsys \<Rightarrow> bool" where
  "f_init s = (\<exists>limit. s = \<lparr>fs_fifo = fifo_new limit, fs_sleep_deq = 0, fs_woken_deq = 0, fs_sleep_enq = 0, fs_woken_enq = 0\<rparr>)"

definition f_inv :: "'a fsys \<Rightarrow> bool" where
  "f_inv s =
     (let n = length (fq_q (fs_fifo s)); limit = fq_max (fs_fifo s)
      in (limit \<noteq> 0 \<longrightarrow> n \<le> limit) \<and> (0 < fs_sleep_deq s \<longrightarrow> n \<le> fs_woken_deq s)
         \<and> (0 < fs_sleep_enq s \<longrightarrow> limit \<noteq> 0 \<and> limit - n \<le> fs_woken_enq s))"

section \<open>Thread pool\<close>

record 'j thr_pool =
  tp_nthreads :: nat
  tp_blockadd :: bool
  tp_jobq :: "'j option fifo"

definition thr_pool_new :: "nat \<Rightarrow> bool \<Rightarrow> 'j thr_pool" where
  "thr_pool_new sz blocking = \<lparr>tp_nthreads = sz, tp_blockadd = blocking, tp_jobq = fifo_new (100 * sz)\<rparr>"

definition addJob :: "'j \<Rightarrow> 'j thr_pool \<Rightarrow> bool turn \<times> 'j thr_pool" where
  "addJob j p = (let (r, q) = fifo_enq (Some j) (tp_blockadd p) (tp_jobq p) in (r, p\<lparr>tp_jobq := q\<rparr>))"

text \<open>The result is false for the pill.\<close>

definition takeJob :: "'j thr_pool \<Rightarrow> ('j option \<times> bool) turn \<times> 'j thr_pool" where
  "takeJob p =
     (case fifo_deq (tp_jobq p) of
        (Finished j sig, q) \<Rightarrow> (Finished (j, j \<noteq> None) sig, p\<lparr>tp_jobq := q\<rparr>)
      | (Waits, q) \<Rightarrow> (Waits, p\<lparr>tp_jobq := q\<rparr>))"

text \<open>The pool with the workers that still run, and the jobs they have run. A worker ends with the pill.\<close>

record 'j psys =
  ps_pool :: "'j thr_pool"
  ps_live :: nat
  ps_ran :: "'j list"

fun do_worker :: "'j psys \<Rightarrow> 'j psys option" where
  "do_worker s =
     (if ps_live s = 0 then None
      else case takeJob (ps_pool s) of
             (Waits, p) \<Rightarrow> None
           | (Finished (j, run) sig, p) \<Rightarrow>
               Some (if run then s\<lparr>ps_pool := p, ps_ran := ps_ran s @ [the j]\<rparr> else s\<lparr>ps_pool := p, ps_live := ps_live s - 1\<rparr>))"

inductive p_step :: "'j psys \<Rightarrow> 'j psys \<Rightarrow> bool" where
  "do_worker s = Some t \<Longrightarrow> p_step s t"

text \<open>The queue that the destructor leaves behind: the jobs, then one pill per worker.\<close>

definition p_closing :: "'j list \<Rightarrow> nat \<Rightarrow> 'j psys \<Rightarrow> bool" where
  "p_closing js n s =
     (0 < n \<and> fq_q (tp_jobq (ps_pool s)) = map Some js @ replicate n None \<and> ps_live s = n \<and> ps_ran s = [])"

definition p_inv :: "'j list \<Rightarrow> 'j psys \<Rightarrow> bool" where
  "p_inv js s =
     (\<exists>rest. fq_q (tp_jobq (ps_pool s)) = map Some rest @ replicate (ps_live s) None \<and> js = ps_ran s @ rest \<and> (rest \<noteq> [] \<longrightarrow> 0 < ps_live s))"

section \<open>Examples\<close>

definition ex_fsys :: "string fsys" where
  "ex_fsys = \<lparr>fs_fifo = fifo_new 1, fs_sleep_deq = 0, fs_woken_deq = 0, fs_sleep_enq = 0, fs_woken_enq = 0\<rparr>"

definition ex_psys :: "string psys" where
  "ex_psys = \<lparr>ps_pool = \<lparr>tp_nthreads = 1, tp_blockadd = True, tp_jobq = \<lparr>fq_q = [Some ''a'', None], fq_max = 100\<rparr>\<rparr>, ps_live = 1, ps_ran = []\<rparr>"

section \<open>No lost wake-ups\<close>

lemma turn_enq_inv:
  assumes "f_inv s"
  shows "f_inv (turn_enq e b s)"
  using assms by (auto simp: f_inv_def turn_enq_def fifo_enq_def signal_deq_def Let_def)

lemma turn_deq_inv:
  assumes "f_inv s"
  shows "f_inv (turn_deq s)"
  using assms by (cases "fq_q (fs_fifo s)") (auto simp: f_inv_def turn_deq_def fifo_deq_def signal_enq_def Let_def)

lemma turn_enq_woken_inv:
  assumes "f_inv s" and "0 < fs_woken_enq s"
  shows "f_inv (turn_enq e True (s\<lparr>fs_woken_enq := fs_woken_enq s - 1\<rparr>))"
  using assms by (auto simp: f_inv_def turn_enq_def fifo_enq_def signal_deq_def Let_def)

lemma turn_deq_woken_inv:
  assumes "f_inv s" and "0 < fs_woken_deq s"
  shows "f_inv (turn_deq (s\<lparr>fs_woken_deq := fs_woken_deq s - 1\<rparr>))"
  using assms by (cases "fq_q (fs_fifo s)") (auto simp: f_inv_def turn_deq_def fifo_deq_def signal_enq_def Let_def)

interpretation ff: invariant_system f_init f_step f_inv
proof
  show "f_inv s" if "f_init s" for s
    using that by (auto simp: f_init_def f_inv_def fifo_new_def)
  show "f_inv t" if "f_inv s" "f_step s t" for s t :: "'a fsys"
    using that(2)
  proof cases
    case (f_enq e blocking)
    then show ?thesis
      using turn_enq_inv [OF that(1)] by simp
  next
    case f_deq
    then show ?thesis
      using turn_deq_inv [OF that(1)] by simp
  next
    case (f_enq_woken e)
    then show ?thesis
      using turn_enq_woken_inv [OF that(1)] by simp
  next
    case f_deq_woken
    then show ?thesis
      using turn_deq_woken_inv [OF that(1)] by simp
  qed
qed

section \<open>The pool drains\<close>

declare do_worker.simps [simp del]

lemma do_worker_inv:
  assumes "p_inv js s" and "do_worker s = Some t"
  shows "p_inv js t \<and> length (fq_q (tp_jobq (ps_pool t))) < length (fq_q (tp_jobq (ps_pool s)))"
proof -
  obtain rest where r: "fq_q (tp_jobq (ps_pool s)) = map Some rest @ replicate (ps_live s) None" "js = ps_ran s @ rest"
      "rest \<noteq> [] \<longrightarrow> 0 < ps_live s"
    using assms(1) by (auto simp: p_inv_def)
  have live: "0 < ps_live s"
    using assms(2) by (auto simp: do_worker.simps split: if_splits)
  show ?thesis
  proof (cases rest)
    case Nil
    then obtain n where "ps_live s = Suc n"
      using live gr0_implies_Suc by auto
    then show ?thesis
      using assms(2) r Nil by (auto simp: do_worker.simps takeJob_def fifo_deq_def p_inv_def)
  next
    case (Cons j js')
    then show ?thesis
      using assms(2) r live by (auto simp: do_worker.simps takeJob_def fifo_deq_def p_inv_def)
  qed
qed

lemma do_worker_stuck:
  assumes "p_inv js s" and "do_worker s = None"
  shows "ps_live s = 0 \<and> ps_ran s = js"
proof -
  obtain rest where r: "fq_q (tp_jobq (ps_pool s)) = map Some rest @ replicate (ps_live s) None" "js = ps_ran s @ rest"
      "rest \<noteq> [] \<longrightarrow> 0 < ps_live s"
    using assms(1) by (auto simp: p_inv_def)
  have "ps_live s = 0"
  proof (rule ccontr)
    assume "ps_live s \<noteq> 0"
    then have "fq_q (tp_jobq (ps_pool s)) \<noteq> []"
      using r(1) by simp
    then obtain j q where "fq_q (tp_jobq (ps_pool s)) = j # q"
      using list.exhaust by blast
    then show False
      using assms(2) \<open>ps_live s \<noteq> 0\<close> by (simp add: do_worker.simps takeJob_def fifo_deq_def)
  qed
  then show ?thesis
    using r by auto
qed

interpretation pool: invariant_system "p_closing js n" p_step "p_inv js"
proof
  show "p_inv js s" if "p_closing js n s" for s
    using that by (auto simp: p_closing_def p_inv_def)
  show "p_inv js t" if "p_inv js s" "p_step s t" for s t :: "'a psys"
    using that(2,1) do_worker_inv by (cases) blast
qed

text \<open>Repeating \<open>do_worker\<close> until it is stuck takes at most as many turns as there are entries in the queue.\<close>

lemma pool_ends:
  assumes "p_inv js s"
  shows "\<exists>t. p_step\<^sup>*\<^sup>* s t \<and> do_worker t = None"
  using assms
proof (induction "length (fq_q (tp_jobq (ps_pool s)))" arbitrary: s rule: less_induct)
  case less
  show ?case
  proof (cases "do_worker s")
    case (Some u)
    then obtain t where "p_step\<^sup>*\<^sup>* u t" "do_worker t = None"
      using less do_worker_inv [OF less.prems Some] by blast
    then show ?thesis
      using Some by (meson converse_rtranclp_into_rtranclp p_step.intros)
  qed auto
qed

section \<open>Properties\<close>

text \<open>C24: The bounded queue loses no wake-up: whenever there is an entry for a consumer that sleeps, or room for a
  producer that sleeps, some consumer, or producer, has been woken and is about to look; and the
  bound is never exceeded.\<close>

theorem fifo_no_lost_wakeup:
  assumes "f_init s" and "f_step\<^sup>*\<^sup>* s t"
  shows "(0 < fs_sleep_deq t \<and> fq_q (fs_fifo t) \<noteq> [] \<longrightarrow> 0 < fs_woken_deq t)
    \<and> (0 < fs_sleep_enq t \<and> length (fq_q (fs_fifo t)) < fq_max (fs_fifo t) \<longrightarrow> 0 < fs_woken_enq t)
    \<and> (fq_max (fs_fifo t) \<noteq> 0 \<longrightarrow> length (fq_q (fs_fifo t)) \<le> fq_max (fs_fifo t))"
proof -
  have "f_inv t"
    by (rule ff.inv_reachable [OF assms])
  then show ?thesis
    by (auto simp: f_inv_def Let_def simp flip: length_greater_0_conv)
qed

theorem fifo_no_lost_wakeup_witness:
  "0 < fs_woken_deq (turn_enq ''a'' True (turn_deq (turn_deq ex_fsys))) \<and> 0 < fs_sleep_deq (turn_enq ''a'' True (turn_deq (turn_deq ex_fsys)))"
proof -
  let ?t = "turn_enq ''a'' True (turn_deq (turn_deq ex_fsys))"
  have "f_step ex_fsys (turn_deq ex_fsys)" "f_step (turn_deq ex_fsys) (turn_deq (turn_deq ex_fsys))" "f_step (turn_deq (turn_deq ex_fsys)) ?t"
    by (rule f_deq f_enq)+
  then have "f_step\<^sup>*\<^sup>* ex_fsys ?t"
    by (auto intro: converse_rtranclp_into_rtranclp)
  moreover have "f_init ex_fsys"
    by (auto simp: f_init_def ex_fsys_def)
  moreover have "0 < fs_sleep_deq ?t" "fq_q (fs_fifo ?t) \<noteq> []"
    by (simp_all add: ex_fsys_def turn_deq_def fifo_deq_def turn_enq_def fifo_enq_def fifo_new_def signal_deq_def)
  ultimately show ?thesis
    using fifo_no_lost_wakeup [of ex_fsys ?t] by simp
qed



end
