(* ===== verification/Rsm.thy ===== *)
theory Rsm
  imports Config
begin

text \<open>
  The replicated state machine (rsm.cc, rsm.h).

  \<^item> The replicated service is a parameter: \<open>'s\<close> is its state, the registered procedures are handlers
    on it, and \<open>rm_stf\<close> holds its \<open>marshal_state\<close> and \<open>unmarshal_state\<close>. \<open>Aborts\<close> is also the outcome of a
    call that never returns.
  \<^item> A \<open>group\<close> is the \<open>rsm\<close> object of every node and the nodes whose process has died. A handler of one
    node is a function on its \<open>rsm\<close>; \<open>client_invoke\<close>, which calls the other nodes, is a function on the
    group. Its result \<open>None\<close> means that the calling process died; what the backups did stays in the group.
  \<^item> A \<open>fate\<close> is what happens to one remote call, made with \<open>rsm_mutex\<close> released: whether \<open>safebind\<close> gives a
    connection, whether the messages get through, and what other threads do to the group meanwhile.
  \<^item> Functions that give up \<open>rsm_mutex\<close> in the middle for other threads to run are split there:
    \<open>joinreq_begin\<close> and \<open>joinreq_end\<close>, \<open>sync_with_backups_begin\<close> and \<open>sync_with_backups_end\<close>,
    \<open>recovery_check\<close>, \<open>recovery_joined\<close> and \<open>recovery_end\<close>.
  \<^item> The last part shows that all replicas execute prefixes of one sequence of requests.
\<close>

section \<open>Handlers\<close>

text \<open>Unlike the handlers of \<open>rpcs\<close>, these abort when the arguments do not fit.\<close>

definition rsm_meth :: "('s \<Rightarrow> (u32 \<times> 'r \<times> 's) outcome) \<Rightarrow> 'r putter \<Rightarrow> 's handler" where
  "rsm_meth meth putR args ret s = VERIFY (u_okdone args) (obind (meth s) (\<lambda>(b, r, s). Returns (b, putR ret r, s)))"

definition rsm_fn1 :: "'a1 getter \<Rightarrow> 'r putter \<Rightarrow> ('a1 \<Rightarrow> 's \<Rightarrow> (u32 \<times> 'r \<times> 's) outcome) \<Rightarrow> 's handler" where
  "rsm_fn1 g1 putR meth args ret s = (let (a1, args) = g1 args in rsm_meth (meth a1) putR args ret s)"

definition rsm_fn2 :: "'a1 getter \<Rightarrow> 'a2 getter \<Rightarrow> 'r putter \<Rightarrow> ('a1 \<Rightarrow> 'a2 \<Rightarrow> 's \<Rightarrow> (u32 \<times> 'r \<times> 's) outcome) \<Rightarrow> 's handler" where
  "rsm_fn2 g1 g2 putR meth args ret s =
     (let (a1, args) = g1 args; (a2, args) = g2 args in rsm_meth (meth a1 a2) putR args ret s)"

definition rsm_fn3 :: "'a1 getter \<Rightarrow> 'a2 getter \<Rightarrow> 'a3 getter \<Rightarrow> 'r putter \<Rightarrow>
    ('a1 \<Rightarrow> 'a2 \<Rightarrow> 'a3 \<Rightarrow> 's \<Rightarrow> (u32 \<times> 'r \<times> 's) outcome) \<Rightarrow> 's handler" where
  "rsm_fn3 g1 g2 g3 putR meth args ret s =
     (let (a1, args) = g1 args; (a2, args) = g2 args; (a3, args) = g3 args in rsm_meth (meth a1 a2 a3) putR args ret s)"

definition rsm_fn4 :: "'a1 getter \<Rightarrow> 'a2 getter \<Rightarrow> 'a3 getter \<Rightarrow> 'a4 getter \<Rightarrow> 'r putter \<Rightarrow>
    ('a1 \<Rightarrow> 'a2 \<Rightarrow> 'a3 \<Rightarrow> 'a4 \<Rightarrow> 's \<Rightarrow> (u32 \<times> 'r \<times> 's) outcome) \<Rightarrow> 's handler" where
  "rsm_fn4 g1 g2 g3 g4 putR meth args ret s =
     (let (a1, args) = g1 args; (a2, args) = g2 args; (a3, args) = g3 args; (a4, args) = g4 args
      in rsm_meth (meth a1 a2 a3 a4) putR args ret s)"

text \<open>The handler with five arguments never reads the fifth one: \<open>junk\<close> is what it holds.\<close>

definition rsm_fn5 :: "'a5 \<Rightarrow> 'a1 getter \<Rightarrow> 'a2 getter \<Rightarrow> 'a3 getter \<Rightarrow> 'a4 getter \<Rightarrow> 'r putter \<Rightarrow>
    ('a1 \<Rightarrow> 'a2 \<Rightarrow> 'a3 \<Rightarrow> 'a4 \<Rightarrow> 'a5 \<Rightarrow> 's \<Rightarrow> (u32 \<times> 'r \<times> 's) outcome) \<Rightarrow> 's handler" where
  "rsm_fn5 junk g1 g2 g3 g4 putR meth args ret s =
     (let (a1, args) = g1 args; (a2, args) = g2 args; (a3, args) = g3 args; (a4, args) = g4 args
      in rsm_meth (meth a1 a2 a3 a4 junk) putR args ret s)"

section \<open>State\<close>

text \<open>
  \<open>rm_reachable\<close> is the flag of the node's own server \<open>rsmrpc\<close>. \<open>rm_set_reachable\<close> lists the calls of
  \<open>rpcc::set_reachable\<close> made on connections to peers; their effect on later calls is part of the fates.
\<close>

record 's rsm =
  rm_procs :: "u32 \<rightharpoonup> 's handler"
  rm_cfg :: config
  rm_stf :: "(('s \<Rightarrow> string outcome) \<times> (string \<Rightarrow> 's \<Rightarrow> 's outcome)) option"
  rm_sm :: 's
  rm_myvs :: viewstamp
  rm_last_myvs :: viewstamp
  rm_primary :: string
  rm_insync :: bool
  rm_inviewchange :: bool
  rm_vid_commit :: u32
  rm_vid_insync :: u32
  rm_backups :: "string list"
  rm_partitioned :: bool
  rm_dopartition :: bool
  rm_break1 :: bool
  rm_break2 :: bool
  rm_reachable :: bool
  rm_set_reachable :: "(string \<times> bool) list"

definition rsm_breakpoint1 :: "'s rsm \<Rightarrow> 's rsm outcome" where
  "rsm_breakpoint1 s = (if rm_break1 s then Aborts else Returns s)"

definition rsm_breakpoint2 :: "'s rsm \<Rightarrow> 's rsm outcome" where
  "rsm_breakpoint2 s = (if rm_break2 s then Aborts else Returns s)"

definition rsm_view :: "u32 \<Rightarrow> 's rsm \<Rightarrow> string list \<times> 's rsm" where
  "rsm_view vid s = (let (v, c) = get_view vid (rm_cfg s) in (v, s\<lparr>rm_cfg := c\<rparr>))"

definition rsm_ismember :: "string \<Rightarrow> u32 \<Rightarrow> 's rsm \<Rightarrow> bool \<times> 's rsm" where
  "rsm_ismember m vid s = (let (b, c) = config_ismember m vid (rm_cfg s) in (b, s\<lparr>rm_cfg := c\<rparr>))"

definition myaddr :: "'s rsm \<Rightarrow> string" where
  "myaddr s = cf_me (rm_cfg s)"

section \<open>Views\<close>

definition set_primary :: "u32 \<Rightarrow> 's rsm \<Rightarrow> 's rsm outcome" where
  "set_primary vid s =
     (let (c, s) = rsm_view vid s; (p, s) = rsm_view (vid - 1) s
      in VERIFY (length c > 0)
           (if isamember (rm_primary s) c then Returns s
            else VERIFY (length p > 0)
              (case find (\<lambda>m. isamember m c) p of Some m \<Rightarrow> Returns (s\<lparr>rm_primary := m\<rparr>) | None \<Rightarrow> Aborts)))"

definition commit_change_wo :: "u32 \<Rightarrow> 's rsm \<Rightarrow> 's rsm outcome" where
  "commit_change_wo vid s =
     (if vid \<le> rm_vid_commit s then Returns s
      else obind (set_primary vid (s\<lparr>rm_vid_commit := vid, rm_inviewchange := True\<rparr>)) (\<lambda>s.
        let (b, s) = rsm_ismember (myaddr s) (rm_vid_commit s) s in if b then rsm_breakpoint2 s else Returns s))"

definition commit_change :: "u32 \<Rightarrow> 's rsm \<Rightarrow> 's rsm outcome" where
  "commit_change vid s = obind (commit_change_wo vid s) rsm_breakpoint2"

definition rsm_new :: "string \<Rightarrow> string \<Rightarrow> config \<Rightarrow> u32 \<Rightarrow> 's \<Rightarrow> 's rsm outcome" where
  "rsm_new first me cfg junk sm =
     (let s = \<lparr>rm_procs = Map.empty, rm_cfg = cfg, rm_stf = None, rm_sm = sm, rm_myvs = \<lparr>vs_vid = 0, vs_seqno = 1\<rparr>,
               rm_last_myvs = \<lparr>vs_vid = 0, vs_seqno = 0\<rparr>, rm_primary = first, rm_insync = False, rm_inviewchange = True,
               rm_vid_commit = 0, rm_vid_insync = junk, rm_backups = [], rm_partitioned = False, rm_dopartition = False,
               rm_break1 = False, rm_break2 = False, rm_reachable = True, rm_set_reachable = []\<rparr>
      in if first = me then commit_change 1 s else Returns s)"

definition rsm_reg1 :: "u32 \<Rightarrow> 's handler \<Rightarrow> 's rsm \<Rightarrow> 's rsm" where
  "rsm_reg1 proc h s = s\<lparr>rm_procs := (rm_procs s)(proc \<mapsto> h)\<rparr>"

definition set_state_transfer :: "('s \<Rightarrow> string outcome) \<times> (string \<Rightarrow> 's \<Rightarrow> 's outcome) \<Rightarrow> 's rsm \<Rightarrow> 's rsm" where
  "set_state_transfer stf s = s\<lparr>rm_stf := Some stf\<rparr>"

definition amiprimary :: "'s rsm \<Rightarrow> bool" where
  "amiprimary s = (rm_primary s = myaddr s \<and> \<not> rm_inviewchange s)"

definition get_primary :: "'s rsm \<Rightarrow> string" where
  "get_primary s = rm_primary s"

definition client_members :: "'s rsm \<Rightarrow> string list \<times> 's rsm" where
  "client_members s = (let (m, s) = rsm_view (rm_vid_commit s) s in (m @ [rm_primary s], s))"

section \<open>Executing requests\<close>

text \<open>\<open>marshall::str\<close>: everything behind the header was written.\<close>

definition m_str :: "marshall \<Rightarrow> string" where
  "m_str m = (case get_content m of Some s \<Rightarrow> s | None \<Rightarrow> [])"

definition rsm_exec :: "(u32 \<rightharpoonup> 's handler) \<Rightarrow> u32 \<Rightarrow> string \<Rightarrow> 's \<Rightarrow> (string \<times> 's) outcome" where
  "rsm_exec procs procno req sm =
     (case procs procno of
        None \<Rightarrow> Aborts
      | Some h \<Rightarrow> obind (h (take_content [] req) marshall_new sm) (\<lambda>(ret, rep, sm).
          Returns (m_str (put_string (put_int marshall_new ret) (m_str rep)), sm)))"

definition execute :: "u32 \<Rightarrow> string \<Rightarrow> 's rsm \<Rightarrow> (string \<times> 's rsm) outcome" where
  "execute procno req s = obind (rsm_exec (rm_procs s) procno req (rm_sm s)) (\<lambda>(r, sm). Returns (r, s\<lparr>rm_sm := sm\<rparr>))"

definition next_vs :: "viewstamp \<Rightarrow> viewstamp" where
  "next_vs v = v\<lparr>vs_seqno := vs_seqno v + 1\<rparr>"

definition rsm_invoke :: "u32 \<Rightarrow> viewstamp \<Rightarrow> string \<Rightarrow> 's rsm \<Rightarrow> (rsm_status \<times> 's rsm) outcome" where
  "rsm_invoke procno vs req s =
     (if rm_inviewchange s \<or> rm_primary s = myaddr s \<or> vs_neq vs (rm_myvs s) then Returns (RSM_ERR, s)
      else obind (execute procno req (s\<lparr>rm_last_myvs := rm_myvs s, rm_myvs := next_vs (rm_myvs s)\<rparr>)) (\<lambda>(r, s).
             obind (rsm_breakpoint1 s) (\<lambda>s. Returns (RSM_OK, s))))"

record 's group =
  gr_rsm :: "string \<Rightarrow> 's rsm"
  gr_down :: "string list"

definition gr_set :: "string \<Rightarrow> 's rsm \<Rightarrow> 's group \<Rightarrow> 's group" where
  "gr_set m s g = g\<lparr>gr_rsm := (gr_rsm g)(m := s)\<rparr>"

definition gr_serve :: "string \<Rightarrow> ('s rsm \<Rightarrow> ('r \<times> 's rsm) outcome) \<Rightarrow> 's group \<Rightarrow> 'r option \<times> 's group" where
  "gr_serve m meth g =
     (if m \<in> set (gr_down g) then (None, g)
      else case meth (gr_rsm g m) of
             Aborts \<Rightarrow> (None, g\<lparr>gr_down := m # gr_down g\<rparr>)
           | Returns (r, s) \<Rightarrow> (Some r, gr_set m s g))"

fun gr_call :: "net \<Rightarrow> string \<Rightarrow> ('s rsm \<Rightarrow> ('r \<times> 's rsm) outcome) \<Rightarrow> 's group \<Rightarrow> 'r option \<times> 's group" where
  "gr_call Delivered m meth g = (if rm_reachable (gr_rsm g m) then gr_serve m meth g else (None, g))"
| "gr_call (Lost e) m meth g = (None, g)"
| "gr_call (Late e) m meth g = (None, if rm_reachable (gr_rsm g m) then snd (gr_serve m meth g) else g)"

type_synonym 's fate = "net option \<times> ('s group \<Rightarrow> 's group)"

text \<open>A call through a handle: \<open>None\<close> when there is no connection or the call fails.\<close>

definition peer_call :: "'s fate \<Rightarrow> string \<Rightarrow> ('s rsm \<Rightarrow> ('r \<times> 's rsm) outcome) \<Rightarrow> 's group \<Rightarrow> 'r option \<times> 's group" where
  "peer_call ft m meth g =
     (let (r, g) = (case fst ft of None \<Rightarrow> (None, g) | Some nt \<Rightarrow> gr_call nt m meth g) in (r, snd ft g))"

text \<open>The partitions of the tester; \<open>binds\<close> tells for which peers \<open>safebind\<close> gives a connection.\<close>

definition net_repair_wo :: "(string \<Rightarrow> bool) \<Rightarrow> bool \<Rightarrow> 's rsm \<Rightarrow> 's rsm" where
  "net_repair_wo binds heal s =
     (let (m, s) = rsm_view (rm_vid_commit s) s; ms = filter (\<lambda>x. x \<noteq> myaddr s \<and> binds x) m
      in s\<lparr>rm_set_reachable := rm_set_reachable s @ map (\<lambda>x. (x, heal)) ms, rm_reachable := heal\<rparr>)"

definition partition1 :: "(string \<Rightarrow> bool) \<Rightarrow> 's rsm \<Rightarrow> 's rsm" where
  "partition1 binds s =
     (if rm_dopartition s then (net_repair_wo binds False s)\<lparr>rm_dopartition := False, rm_partitioned := True\<rparr> else s)"

text \<open>
  The loop of \<open>client_invoke\<close> over the view. The result tells whether a backup failed; it is \<open>None\<close> when
  the primary exits at breakpoint 1. The primary and the viewstamp are read again in every turn.
\<close>

fun invoke_backups :: "(string \<Rightarrow> bool) \<Rightarrow> (nat \<Rightarrow> 's fate) \<Rightarrow> u32 \<Rightarrow> string \<Rightarrow> string \<Rightarrow> nat \<Rightarrow> string list \<Rightarrow> 's group \<Rightarrow> bool option \<times> 's group" where
  "invoke_backups binds fts procno req me index [] g = (Some False, g)"
| "invoke_backups binds fts procno req me index (m # ms) g =
     (if m = rm_primary (gr_rsm g me) then invoke_backups binds (fts \<circ> Suc) procno req me index ms g
      else let (r, g) = peer_call (fts 0) m (rsm_invoke procno (rm_last_myvs (gr_rsm g me)) req) g
           in if r \<noteq> Some RSM_OK then (Some True, g)
              else if index = 0
              then case rsm_breakpoint1 (gr_rsm g me) of
                     Aborts \<Rightarrow> (None, g\<lparr>gr_down := me # gr_down g\<rparr>)
                   | Returns s \<Rightarrow> invoke_backups binds (fts \<circ> Suc) procno req me 1 ms (gr_set me (partition1 binds s) g)
              else invoke_backups binds (fts \<circ> Suc) procno req me (index + 1) ms g)"

definition client_invoke :: "(string \<Rightarrow> bool) \<Rightarrow> (nat \<Rightarrow> 's fate) \<Rightarrow> u32 \<Rightarrow> string \<Rightarrow> string \<Rightarrow> 's group \<Rightarrow> (rsm_client_status \<times> string) option \<times> 's group" where
  "client_invoke binds fts procno req me g =
     (let s = gr_rsm g me
      in if rm_inviewchange s then (Some (RC_BUSY, []), g)
         else if rm_primary s \<noteq> myaddr s then (Some (RC_NOTPRIMARY, []), g)
         else let s = s\<lparr>rm_last_myvs := rm_myvs s, rm_myvs := next_vs (rm_myvs s)\<rparr>;
                  (view, s) = rsm_view (rm_vid_commit s) s;
                  (fail, g) = invoke_backups binds fts procno req me 0 view (gr_set me s g)
              in case fail of
                   None \<Rightarrow> (None, g)
                 | Some True \<Rightarrow> (Some (RC_BUSY, []), g)
                 | Some False \<Rightarrow>
                     (case execute procno req (gr_rsm g me) of
                        Aborts \<Rightarrow> (None, g\<lparr>gr_down := me # gr_down g\<rparr>)
                      | Returns (r, s) \<Rightarrow> (Some (RC_OK, r), gr_set me s g)))"

section \<open>State transfer\<close>

definition transferreq :: "viewstamp \<Rightarrow> u32 \<Rightarrow> 's rsm \<Rightarrow> ((rsm_status \<times> transferres) \<times> 's rsm) outcome" where
  "transferreq lst vid s =
     (if \<not> rm_insync s \<or> vid \<noteq> rm_vid_insync s then Returns ((RSM_BUSY, \<lparr>tr_state = [], tr_last = \<lparr>vs_vid = 0, vs_seqno = 0\<rparr>\<rparr>), s)
      else obind (case rm_stf s of
                    Some (marshal, unmarshal) \<Rightarrow> if vs_neq lst (rm_last_myvs s) then marshal (rm_sm s) else Returns []
                  | None \<Rightarrow> Returns [])
             (\<lambda>st. Returns ((RSM_OK, \<lparr>tr_state = st, tr_last = rm_last_myvs s\<rparr>), s)))"

text \<open>The second part of the result: the recovery thread is woken.\<close>

definition transferdonereq :: "string \<Rightarrow> u32 \<Rightarrow> 's rsm \<Rightarrow> ((rsm_status \<times> bool) \<times> 's rsm) outcome" where
  "transferdonereq m vid s =
     (if \<not> rm_insync s \<or> vid \<noteq> rm_vid_insync s then Returns ((RSM_BUSY, False), s)
      else let b = filter (\<lambda>x. x \<noteq> m) (rm_backups s) in Returns ((RSM_OK, b = []), s\<lparr>rm_backups := b\<rparr>))"

definition take_state :: "transferres \<Rightarrow> 's rsm \<Rightarrow> 's rsm outcome" where
  "take_state r s =
     obind (case rm_stf s of
              Some (marshal, unmarshal) \<Rightarrow> if vs_neq (rm_last_myvs s) (tr_last r) then unmarshal (tr_state r) (rm_sm s) else Returns (rm_sm s)
            | None \<Rightarrow> Returns (rm_sm s))
       (\<lambda>sm. Returns (s\<lparr>rm_sm := sm, rm_last_myvs := tr_last r\<rparr>))"

text \<open>\<open>None\<close>: the node never returns from \<open>unmarshal_state\<close>.\<close>

definition statetransfer :: "'s fate \<Rightarrow> string \<Rightarrow> string \<Rightarrow> 's group \<Rightarrow> bool option \<times> 's group" where
  "statetransfer ft m me g =
     (let s = gr_rsm g me; (r, g) = peer_call ft m (transferreq (rm_last_myvs s) (rm_vid_insync s)) g
      in case r of
           Some (RSM_OK, res) \<Rightarrow> (case take_state res (gr_rsm g me) of
               Aborts \<Rightarrow> (None, g\<lparr>gr_down := me # gr_down g\<rparr>)
             | Returns s \<Rightarrow> (Some True, gr_set me s g))
         | _ \<Rightarrow> (Some False, g))"

definition statetransferdone :: "'s fate \<Rightarrow> string \<Rightarrow> string \<Rightarrow> 's group \<Rightarrow> bool \<times> 's group" where
  "statetransferdone ft m me g =
     (let s = gr_rsm g me; (r, g) = peer_call ft m (transferdonereq (myaddr s) (rm_vid_insync s)) g
      in case r of Some (RSM_OK, woken) \<Rightarrow> (True, g) | _ \<Rightarrow> (False, g))"

text \<open>
  The loop of \<open>sync_with_primary\<close> runs until a transfer succeeds or a view change is committed; \<open>None\<close> means
  that it is still running after the calls whose fates are given, or never returns.
\<close>

fun sync_loop :: "'s fate list \<Rightarrow> string \<Rightarrow> string \<Rightarrow> 's group \<Rightarrow> 's group option" where
  "sync_loop fts m me g =
     (if rm_vid_insync (gr_rsm g me) = rm_vid_commit (gr_rsm g me)
      then case fts of
             [] \<Rightarrow> None
           | ft # fts \<Rightarrow> (let (ret, g) = statetransfer ft m me g
                          in case ret of None \<Rightarrow> None | Some True \<Rightarrow> Some g | Some False \<Rightarrow> sync_loop fts m me g)
      else Some g)"

definition sync_with_primary :: "'s fate list \<Rightarrow> 's fate \<Rightarrow> string \<Rightarrow> 's group \<Rightarrow> (bool \<times> 's group) option" where
  "sync_with_primary fts ft me g =
     (let m = rm_primary (gr_rsm g me)
      in case sync_loop fts m me g of None \<Rightarrow> None | Some g \<Rightarrow> Some (statetransferdone ft m me g))"

definition sync_with_backups_begin :: "'s rsm \<Rightarrow> 's rsm" where
  "sync_with_backups_begin s =
     (let s = s\<lparr>rm_insync := True\<rparr>; (v, s) = rsm_view (rm_vid_insync s) s
      in s\<lparr>rm_backups := filter (\<lambda>x. x \<noteq> rm_primary s) v\<rparr>)"

definition sync_with_backups_waits :: "'s rsm \<Rightarrow> bool" where
  "sync_with_backups_waits s = (rm_vid_insync s = rm_vid_commit s \<and> rm_backups s \<noteq> [])"

definition sync_with_backups_end :: "'s rsm \<Rightarrow> 's rsm" where
  "sync_with_backups_end s = s\<lparr>rm_insync := False\<rparr>"

section \<open>Joining and recovery\<close>

text \<open>The answer, or the view number with which \<open>cfg->add\<close> is called.\<close>

definition joinreq_begin :: "string \<Rightarrow> 's rsm \<Rightarrow> ((rsm_status \<times> joinres) + u32) \<times> 's rsm" where
  "joinreq_begin m s =
     (let (b, s) = rsm_ismember m (rm_vid_commit s) s
      in if b then (Inl (RSM_OK, \<lparr>jr_log = log_dump (cf_acc (rm_cfg s))\<rparr>), s)
         else if myaddr s \<noteq> rm_primary s then (Inl (RSM_BUSY, \<lparr>jr_log = []\<rparr>), s)
         else (Inr (rm_vid_commit s), s))"

definition joinreq_end :: "string \<Rightarrow> 's rsm \<Rightarrow> (rsm_status \<times> joinres) \<times> 's rsm" where
  "joinreq_end m s =
     (let (b, s) = rsm_ismember m (cf_myvid (rm_cfg s)) s
      in if b then ((RSM_OK, \<lparr>jr_log = log_dump (cf_acc (rm_cfg s))\<rparr>), s) else ((RSM_BUSY, \<lparr>jr_log = []\<rparr>), s))"

text \<open>\<open>join\<close>, once the reply to the join request is there.\<close>

definition rsm_join :: "u32 \<Rightarrow> (rsm_status \<times> joinres) option \<Rightarrow> 's rsm \<Rightarrow> (bool \<times> 's rsm) outcome" where
  "rsm_join junk reply s =
     (case reply of
        Some (RSM_OK, r) \<Rightarrow> obind (config_restore junk (jr_log r) (rm_cfg s)) (\<lambda>c. Returns (True, s\<lparr>rm_cfg := c\<rparr>))
      | _ \<Rightarrow> Returns (False, s))"

text \<open>
  The turns of \<open>recovery\<close>. It tests whether the node is a member of the committed view: \<open>True\<close> means that it
  goes on to synchronise, \<open>False\<close> that it calls \<open>join\<close>.
\<close>

definition recovery_check :: "'s rsm \<Rightarrow> bool \<times> 's rsm" where
  "recovery_check s =
     (let (b, s) = rsm_ismember (myaddr s) (rm_vid_commit s) s
      in (b, if b then s\<lparr>rm_vid_insync := rm_vid_commit s\<rparr> else s))"

text \<open>After \<open>join\<close>; the result tells whether the membership is tested again at once or after five seconds.\<close>

definition recovery_joined :: "u32 \<Rightarrow> (rsm_status \<times> joinres) option \<Rightarrow> 's rsm \<Rightarrow> (bool \<times> 's rsm) outcome" where
  "recovery_joined junk reply s =
     obind (rsm_join junk reply s) (\<lambda>(ok, s).
       if ok then obind (commit_change_wo (cf_myvid (rm_cfg s)) s) (\<lambda>s. Returns (True, s)) else Returns (False, s))"

text \<open>After the synchronisation: \<open>None\<close> means that a view change happened meanwhile and the loop starts again.\<close>

definition recovery_end :: "bool \<Rightarrow> 's rsm \<Rightarrow> 's rsm option" where
  "recovery_end r s =
     (if rm_vid_insync s \<noteq> rm_vid_commit s then None
      else Some (if r then s\<lparr>rm_myvs := \<lparr>vs_vid = rm_vid_commit s, vs_seqno = 1\<rparr>, rm_inviewchange := False\<rparr> else s))"

section \<open>Testing server\<close>

datatype rsm_test_status = RT_OK | RT_ERR

definition test_net_repairreq :: "(string \<Rightarrow> bool) \<Rightarrow> bool \<Rightarrow> 's rsm \<Rightarrow> rsm_test_status \<times> 's rsm" where
  "test_net_repairreq binds heal s =
     (RT_OK, if heal then (net_repair_wo binds True s)\<lparr>rm_partitioned := False\<rparr>
             else s\<lparr>rm_dopartition := True, rm_partitioned := False\<rparr>)"

definition breakpointreq :: "u32 \<Rightarrow> 's rsm \<Rightarrow> rsm_test_status \<times> 's rsm" where
  "breakpointreq b s =
     (if b = 1 then (RT_OK, s\<lparr>rm_break1 := True\<rparr>)
      else if b = 2 then (RT_OK, s\<lparr>rm_break2 := True\<rparr>)
      else if b = 3 \<or> b = 4 then (RT_OK, s\<lparr>rm_cfg := (rm_cfg s)\<lparr>cf_pro := breakpoint b (cf_pro (rm_cfg s))\<rparr>\<rparr>)
      else (RT_ERR, s))"

section \<open>Sequences of requests\<close>

text \<open>One replica that executes requests in order: the replies and the state.\<close>

fun run_log :: "(u32 \<rightharpoonup> 's handler) \<Rightarrow> (u32 \<times> string) list \<Rightarrow> 's \<Rightarrow> (string list \<times> 's) option" where
  "run_log procs [] sm = Some ([], sm)"
| "run_log procs ((procno, req) # xs) sm =
     (case rsm_exec procs procno req sm of
        Aborts \<Rightarrow> None
      | Returns (r, sm) \<Rightarrow> (case run_log procs xs sm of None \<Rightarrow> None | Some (rs, sm) \<Rightarrow> Some (r # rs, sm)))"

record 's invocation =
  iv_binds :: "string \<Rightarrow> bool"
  iv_fates :: "nat \<Rightarrow> 's fate"
  iv_req :: "u32 \<times> string"

text \<open>The requests that reach one primary, until it dies.\<close>

fun invoke_all :: "'s invocation list \<Rightarrow> string \<Rightarrow> 's group \<Rightarrow> (rsm_client_status \<times> string) option list \<times> 's group" where
  "invoke_all [] me g = ([], g)"
| "invoke_all (iv # ivs) me g =
     (if me \<in> set (gr_down g) then ([], g)
      else let (a, g) = client_invoke (iv_binds iv) (iv_fates iv) (fst (iv_req iv)) (snd (iv_req iv)) me g;
               (as, g) = invoke_all ivs me g
           in (a # as, g))"

text \<open>No reply is lost after the request was executed, and no other thread interferes.\<close>

definition clean :: "'s fate \<Rightarrow> bool" where
  "clean ft = ((\<forall>e. fst ft \<noteq> Some (Late e)) \<and> snd ft = id)"

definition same_view :: "(u32 \<rightharpoonup> 's handler) \<Rightarrow> string \<Rightarrow> string list \<Rightarrow> string \<Rightarrow> 's rsm \<Rightarrow> bool" where
  "same_view procs p view m s =
     (rm_procs s = procs \<and> myaddr s = m \<and> rm_primary s = p \<and> \<not> rm_inviewchange s
      \<and> get_view (rm_vid_commit s) (rm_cfg s) = (view, rm_cfg s))"

definition nth_vs :: "viewstamp \<Rightarrow> nat \<Rightarrow> viewstamp" where
  "nth_vs v k = v\<lparr>vs_seqno := vs_seqno v + of_nat k\<rparr>"

text \<open>Every member of the view serves requests, expects the same one and has the same state.\<close>

definition synced :: "(u32 \<rightharpoonup> 's handler) \<Rightarrow> string \<Rightarrow> string list \<Rightarrow> viewstamp \<Rightarrow> 's \<Rightarrow> 's group \<Rightarrow> bool" where
  "synced procs p view v sm g =
     (p \<in> set view \<and> distinct view
      \<and> (\<forall>m \<in> set view. same_view procs p view m (gr_rsm g m) \<and> rm_myvs (gr_rsm g m) = v \<and> rm_sm (gr_rsm g m) = sm))"

text \<open>A backup that has executed the first \<open>k\<close> requests.\<close>

definition backup_at :: "(u32 \<rightharpoonup> 's handler) \<Rightarrow> string \<Rightarrow> string list \<Rightarrow> viewstamp \<Rightarrow> 's \<Rightarrow> (u32 \<times> string) list \<Rightarrow> nat \<Rightarrow> string \<Rightarrow> 's group \<Rightarrow> bool" where
  "backup_at procs p view v sm log k m g =
     (same_view procs p view m (gr_rsm g m) \<and> rm_myvs (gr_rsm g m) = nth_vs v k \<and> k \<le> length log
      \<and> (\<exists>rs. run_log procs (take k log) sm = Some (rs, rm_sm (gr_rsm g m))))"

definition backups_at :: "(u32 \<rightharpoonup> 's handler) \<Rightarrow> string \<Rightarrow> string list \<Rightarrow> viewstamp \<Rightarrow> 's \<Rightarrow> (u32 \<times> string) list \<Rightarrow> (string \<Rightarrow> nat) \<Rightarrow> 's group \<Rightarrow> bool" where
  "backups_at procs p view v sm log K g = (\<forall>m \<in> set view - {p}. backup_at procs p view v sm log (K m) m g)"

text \<open>
  The primary has assigned viewstamps to all requests of the log and has executed the first \<open>n\<close>; every backup has
  executed at least these; and if the primary is behind, so is some backup, which makes all further requests fail.
\<close>

definition group_inv :: "(u32 \<rightharpoonup> 's handler) \<Rightarrow> string \<Rightarrow> string list \<Rightarrow> viewstamp \<Rightarrow> 's \<Rightarrow> (u32 \<times> string) list \<Rightarrow> nat \<Rightarrow> string list \<Rightarrow> 's group \<Rightarrow> bool" where
  "group_inv procs p view v sm log n replies g =
     (same_view procs p view p (gr_rsm g p) \<and> rm_myvs (gr_rsm g p) = nth_vs v (length log) \<and> n \<le> length log
      \<and> run_log procs (take n log) sm = Some (replies, rm_sm (gr_rsm g p))
      \<and> (\<exists>K. backups_at procs p view v sm log K g \<and> (\<forall>m \<in> set view - {p}. n \<le> K m)
           \<and> (p \<in> set (gr_down g) \<or> n = length log \<or> (\<exists>m \<in> set view - {p}. K m = n))))"

subsection \<open>Lemmas\<close>

lemma run_log_append:
  "run_log procs (xs @ ys) sm =
     (case run_log procs xs sm of None \<Rightarrow> None
      | Some (rs, sm) \<Rightarrow> (case run_log procs ys sm of None \<Rightarrow> None | Some (rs', sm) \<Rightarrow> Some (rs @ rs', sm)))"
  by (induction xs arbitrary: sm) (auto split: outcome.splits option.splits prod.splits)

lemma run_log_length: "run_log procs xs sm = Some (rs, sm') \<Longrightarrow> length rs = length xs"
  by (induction xs arbitrary: sm rs) (auto split: outcome.splits option.splits prod.splits)

lemma run_log_snoc:
  assumes "run_log procs log sm = Some (rs, t)" and "rsm_exec procs procno req t = Returns (r, u)"
  shows "run_log procs (log @ [(procno, req)]) sm = Some (rs @ [r], u)"
  using assms by (simp add: run_log_append)

lemma run_log_prefix:
  assumes "n \<le> k" and "run_log procs (take n log) sm = Some (rs, t)" and "run_log procs (take k log) sm = Some (rs', u)"
  shows "\<exists>rest. rs' = rs @ rest"
proof -
  have "take k log = take n log @ take (k - n) (drop n log)"
    using assms(1) by (metis le_add_diff_inverse take_add)
  then show ?thesis
    using assms(2,3) by (auto simp: run_log_append split: option.splits)
qed

lemma next_nth [simp]: "next_vs (nth_vs v k) = nth_vs v (Suc k)"
  by (simp add: next_vs_def nth_vs_def)

lemma nth_vs_0 [simp]: "nth_vs v 0 = v"
  by (simp add: nth_vs_def)

lemma vs_neq_iff [simp]: "vs_neq a b \<longleftrightarrow> a \<noteq> b"
  by (cases a; cases b) (auto simp: vs_neq_def)

lemma nth_vs_inj:
  assumes "j < 2 ^ 32" and "k < 2 ^ 32"
  shows "nth_vs v j = nth_vs v k \<longleftrightarrow> j = k"
proof
  assume "nth_vs v j = nth_vs v k"
  then have "(of_nat j :: u32) = of_nat k"
    by (cases v) (simp add: nth_vs_def)
  then have "unat (of_nat j :: u32) = unat (of_nat k :: u32)"
    by simp
  then show "j = k"
    using assms by (simp add: unat_of_nat)
qed simp

lemma gr_set_simps [simp]:
  "gr_rsm (gr_set m s g) = (gr_rsm g)(m := s)"
  "gr_down (gr_set m s g) = gr_down g"
  by (simp_all add: gr_set_def)

lemma rsm_view_same:
  assumes "same_view procs p view m s" and "rm_vid_commit t = rm_vid_commit s" and "rm_cfg t = rm_cfg s"
  shows "rsm_view (rm_vid_commit t) t = (view, t)"
  using assms by (simp add: rsm_view_def same_view_def)

lemma same_view_cong:
  assumes "same_view procs p view m s" and "rm_procs t = rm_procs s" "rm_cfg t = rm_cfg s" "rm_primary t = rm_primary s"
    "rm_inviewchange t = rm_inviewchange s" "rm_vid_commit t = rm_vid_commit s"
  shows "same_view procs p view m t"
  using assms by (simp add: same_view_def myaddr_def)

text \<open>What an invoke request does at a backup that is at request \<open>k\<close>.\<close>

lemma rsm_invoke_at:
  assumes "backup_at procs p view v sm (log @ [(procno, req)]) k m g" and "k \<le> length log" and "length log < 2 ^ 32" and "m \<noteq> p"
    and "rsm_invoke procno (nth_vs v (length log)) req (gr_rsm g m) = Returns (st, s)"
  shows "(st \<noteq> RSM_OK \<and> s = gr_rsm g m)
    \<or> (st = RSM_OK \<and> k = length log \<and> backup_at procs p view v sm (log @ [(procno, req)]) (Suc k) m (gr_set m s g))"
proof (cases "k = length log")
  case False
  then have "nth_vs v (length log) \<noteq> nth_vs v k"
    using assms(2,3) nth_vs_inj [of "length log" k v] by simp
  then show ?thesis
    using assms(1,5) by (simp add: rsm_invoke_def backup_at_def)
next
  case True
  from assms(1) obtain rs where a: "same_view procs p view m (gr_rsm g m)" "rm_myvs (gr_rsm g m) = nth_vs v k"
      "run_log procs log sm = Some (rs, rm_sm (gr_rsm g m))"
    using True by (auto simp: backup_at_def)
  then have i: "\<not> rm_inviewchange (gr_rsm g m)" "rm_primary (gr_rsm g m) \<noteq> myaddr (gr_rsm g m)" "rm_procs (gr_rsm g m) = procs"
    using assms(4) by (auto simp: same_view_def)
  obtain r u where u: "rsm_exec procs procno req (rm_sm (gr_rsm g m)) = Returns (r, u)" "st = RSM_OK"
      "s = (gr_rsm g m)\<lparr>rm_last_myvs := nth_vs v k, rm_myvs := nth_vs v (Suc k), rm_sm := u\<rparr>"
    using assms(5) i a(2) True
    by (auto simp: rsm_invoke_def execute_def rsm_breakpoint1_def obind_Returns_iff split: if_splits)
  have "same_view procs p view m s"
    by (rule same_view_cong [OF a(1)]) (simp_all add: u(3))
  then show ?thesis
    using u True run_log_snoc [OF a(3) u(1)] by (auto simp: backup_at_def)
qed

lemma backup_at_other [simp]:
  "m' \<noteq> m \<Longrightarrow> backup_at procs p view v sm log k m (gr_set m' s g) = backup_at procs p view v sm log k m g"
  by (simp add: backup_at_def)

lemma backup_at_down [simp]:
  "backup_at procs p view v sm log k m (g\<lparr>gr_down := d\<rparr>) = backup_at procs p view v sm log k m g"
  by (simp add: backup_at_def)

lemma backup_at_log:
  "backup_at procs p view v sm log k m g \<Longrightarrow> backup_at procs p view v sm (log @ [x]) k m g"
  by (simp add: backup_at_def)

lemma backups_at_primary [simp]:
  "backups_at procs p view v sm log K (gr_set p s g) = backups_at procs p view v sm log K g"
proof -
  have "backup_at procs p view v sm log (K m) m (gr_set p s g) = backup_at procs p view v sm log (K m) m g" if "m \<in> set view - {p}" for m
    using that by (intro backup_at_other) auto
  then show ?thesis
    by (simp add: backups_at_def)
qed

lemma backups_at_log:
  "backups_at procs p view v sm log K g \<Longrightarrow> backups_at procs p view v sm (log @ [x]) K g"
  unfolding backups_at_def by (blast intro: backup_at_log)

text \<open>One call of a backup: either nothing changes there and the call fails, or the backup makes one step.\<close>

lemma peer_invoke:
  assumes "backup_at procs p view v sm (log @ [(procno, req)]) k m g" and "k \<le> length log" and "length log < 2 ^ 32" and "m \<noteq> p"
    and "clean ft" and "peer_call ft m (rsm_invoke procno (nth_vs v (length log)) req) g = (r, g')"
  shows "(\<forall>x. x \<noteq> m \<longrightarrow> gr_rsm g' x = gr_rsm g x) \<and> (p \<in> set (gr_down g') \<longleftrightarrow> p \<in> set (gr_down g))
    \<and> ((r \<noteq> Some RSM_OK \<and> gr_rsm g' m = gr_rsm g m)
       \<or> (r = Some RSM_OK \<and> k = length log \<and> backup_at procs p view v sm (log @ [(procno, req)]) (Suc k) m g'))"
proof (cases "fst ft = Some Delivered \<and> rm_reachable (gr_rsm g m) \<and> m \<notin> set (gr_down g)")
  case False
  have "fst ft = Some Delivered \<or> fst ft = None \<or> (\<exists>e. fst ft = Some (Lost e))"
    using assms(5) by (cases "fst ft"; cases "the (fst ft)") (auto simp: clean_def)
  then have "r = None \<and> g' = g"
    using assms(5,6) False by (auto simp: clean_def peer_call_def gr_serve_def split: if_splits)
  then show ?thesis
    by simp
next
  case True
  then have g': "(r, g') = gr_serve m (rsm_invoke procno (nth_vs v (length log)) req) g"
    using assms(5,6) by (auto simp: clean_def peer_call_def split: prod.splits)
  show ?thesis
  proof (cases "rsm_invoke procno (nth_vs v (length log)) req (gr_rsm g m)")
    case Aborts
    then show ?thesis
      using g' True assms(4) by (simp add: gr_serve_def)
  next
    case (Returns x)
    obtain st s where x: "x = (st, s)"
      by fastforce
    then have "r = Some st" "g' = gr_set m s g"
      using g' True Returns by (simp_all add: gr_serve_def)
    then show ?thesis
      using rsm_invoke_at [OF assms(1-4) Returns [unfolded x]] assms(4) by auto
  qed
qed

lemma partition1_keeps:
  assumes "same_view procs p view m s"
  shows "same_view procs p view m (partition1 binds s)" and "rm_myvs (partition1 binds s) = rm_myvs s"
    and "rm_last_myvs (partition1 binds s) = rm_last_myvs s" and "rm_sm (partition1 binds s) = rm_sm s"
proof -
  have "rsm_view (rm_vid_commit s) s = (view, s)"
    by (rule rsm_view_same [OF assms]) simp_all
  then have eq: "rm_procs (partition1 binds s) = rm_procs s \<and> rm_cfg (partition1 binds s) = rm_cfg s
      \<and> rm_primary (partition1 binds s) = rm_primary s \<and> rm_inviewchange (partition1 binds s) = rm_inviewchange s
      \<and> rm_vid_commit (partition1 binds s) = rm_vid_commit s \<and> rm_myvs (partition1 binds s) = rm_myvs s
      \<and> rm_last_myvs (partition1 binds s) = rm_last_myvs s \<and> rm_sm (partition1 binds s) = rm_sm s"
    by (simp add: partition1_def net_repair_wo_def)
  then show "same_view procs p view m (partition1 binds s)"
    by (intro same_view_cong [OF assms]) simp_all
  show "rm_myvs (partition1 binds s) = rm_myvs s" "rm_last_myvs (partition1 binds s) = rm_last_myvs s" "rm_sm (partition1 binds s) = rm_sm s"
    using eq by simp_all
qed

text \<open>The state of the primary while it waits for the backups.\<close>

definition primary_waits :: "(u32 \<rightharpoonup> 's handler) \<Rightarrow> string \<Rightarrow> string list \<Rightarrow> viewstamp \<Rightarrow> nat \<Rightarrow> 's \<Rightarrow> 's group \<Rightarrow> bool" where
  "primary_waits procs p view v len pm g =
     (same_view procs p view p (gr_rsm g p) \<and> rm_last_myvs (gr_rsm g p) = nth_vs v len \<and> rm_myvs (gr_rsm g p) = nth_vs v (Suc len)
      \<and> rm_sm (gr_rsm g p) = pm)"

lemma primary_waits_partition:
  "primary_waits procs p view v len pm g \<Longrightarrow> primary_waits procs p view v len pm (gr_set p (partition1 binds (gr_rsm g p)) g)"
  by (auto simp: primary_waits_def partition1_keeps)

text \<open>How far the backups have come after the loop of \<open>client_invoke\<close>.\<close>

definition loop_result :: "string \<Rightarrow> nat \<Rightarrow> string list \<Rightarrow> (string \<Rightarrow> nat) \<Rightarrow> (string \<Rightarrow> nat) \<Rightarrow> bool option \<Rightarrow> bool" where
  "loop_result p len ms K K' fail =
     ((\<forall>m. K' m = K m \<or> m \<in> set ms - {p} \<and> K m = len \<and> K' m = Suc len)
      \<and> (fail = Some False \<longrightarrow> (\<forall>m \<in> set ms - {p}. K m = len \<and> K' m = Suc len))
      \<and> (fail = Some True \<longrightarrow> (\<exists>m \<in> set ms - {p}. K' m = K m)))"

lemma loop_result_skip: "loop_result p len ms K K' fail \<Longrightarrow> loop_result p len (p # ms) K K' fail"
  by (auto simp: loop_result_def)

lemma loop_result_step:
  assumes "loop_result p len ms (K(m := Suc len)) K' fail" and "K m = len" and "m \<notin> set ms" and "m \<noteq> p"
  shows "loop_result p len (m # ms) K K' fail"
proof -
  note r = assms(1) [unfolded loop_result_def]
  have o: "K' x = K x \<or> x \<in> set ms - {p} \<and> K x = len \<and> K' x = Suc len" if "x \<noteq> m" for x
    using r [THEN conjunct1, rule_format, of x] that by simp
  have m: "K' m = Suc len"
    using r [THEN conjunct1, rule_format, of m] assms(3) by simp
  have 1: "\<forall>x. K' x = K x \<or> x \<in> set (m # ms) - {p} \<and> K x = len \<and> K' x = Suc len"
  proof
    fix x
    show "K' x = K x \<or> x \<in> set (m # ms) - {p} \<and> K x = len \<and> K' x = Suc len"
      using o [of x] m assms(2,4) by (cases "x = m") auto
  qed
  have other: "x \<noteq> m" if "x \<in> set ms - {p}" for x
    using that assms(3) by blast
  have 2: "K x = len \<and> K' x = Suc len" if "fail = Some False" "x \<in> set (m # ms) - {p}" for x
  proof (cases "x = m")
    case False
    then have x: "x \<in> set ms - {p}"
      using that(2) by simp
    show ?thesis
      using r [THEN conjunct2, THEN conjunct1, rule_format, OF that(1) x] False by simp
  qed (use m assms(2) in simp)
  have 3: "\<exists>x \<in> set (m # ms) - {p}. K' x = K x" if f: "fail = Some True"
  proof -
    obtain x where x: "x \<in> set ms - {p}" "K' x = (K(m := Suc len)) x"
      using r [THEN conjunct2, THEN conjunct2] f by blast
    then show ?thesis
      using other [OF x(1)] by auto
  qed
  show ?thesis
    unfolding loop_result_def using 1 2 3 by blast
qed

lemma invoke_backups_at:
  assumes "invoke_backups binds fts procno req p index ms g = (fail, g')"
    and "backups_at procs p view v sm (log @ [(procno, req)]) K g" and "primary_waits procs p view v (length log) pm g"
    and "length log < 2 ^ 32" and "\<forall>i. clean (fts i)" and "distinct ms" and "set ms \<subseteq> set view"
    and "\<forall>m \<in> set ms - {p}. K m \<le> length log" and "p \<notin> set (gr_down g)"
  shows "\<exists>K'. backups_at procs p view v sm (log @ [(procno, req)]) K' g' \<and> primary_waits procs p view v (length log) pm g'
    \<and> (p \<in> set (gr_down g') \<longleftrightarrow> fail = None) \<and> loop_result p (length log) ms K K' fail"
  using assms
proof (induction ms arbitrary: fts index K g)
  case Nil
  then show ?case
    by (auto simp: loop_result_def)
next
  case (Cons m ms)
  note prem = Cons.prems
  have prim: "rm_primary (gr_rsm g p) = p" "rm_last_myvs (gr_rsm g p) = nth_vs v (length log)"
    using prem(3) by (auto simp: primary_waits_def same_view_def)
  have cl: "\<forall>i. clean ((fts \<circ> Suc) i)"
    using prem(5) by simp
  show ?case
  proof (cases "m = p")
    case True
    then have "invoke_backups binds (fts \<circ> Suc) procno req p index ms g = (fail, g')"
      using prem(1) prim by simp
    from Cons.IH [OF this prem(2,3,4) cl _ _ _ prem(9)] show ?thesis
      using prem(6,7,8) True loop_result_skip by fastforce
  next
    case False
    obtain r h where rh: "peer_call (fts 0) m (rsm_invoke procno (nth_vs v (length log)) req) g = (r, h)"
      by fastforce
    have bm: "backup_at procs p view v sm (log @ [(procno, req)]) (K m) m g"
      using prem(2,7) False by (auto simp: backups_at_def)
    have km: "K m \<le> length log"
      using prem(8) False by simp
    note call = peer_invoke [OF bm km prem(4) False _ rh]
    have call: "\<forall>x. x \<noteq> m \<longrightarrow> gr_rsm h x = gr_rsm g x" "p \<notin> set (gr_down h)"
      "(r \<noteq> Some RSM_OK \<and> gr_rsm h m = gr_rsm g m)
       \<or> (r = Some RSM_OK \<and> K m = length log \<and> backup_at procs p view v sm (log @ [(procno, req)]) (Suc (K m)) m h)"
      using call prem(5,9) by blast+
    have ph: "primary_waits procs p view v (length log) pm h"
      using prem(3) call(1) [rule_format, of p] False by (simp add: primary_waits_def)
    show ?thesis
    proof (cases "r = Some RSM_OK")
      case r: False
      have "gr_rsm h x = gr_rsm g x" for x
        using call(1) [rule_format, of x] call(3) r by (cases "x = m") simp_all
      then have "backups_at procs p view v sm (log @ [(procno, req)]) K h"
        using prem(2) by (simp add: backups_at_def backup_at_def)
      moreover have "fail = Some True" "g' = h"
        using prem(1) prim rh r False by auto
      ultimately show ?thesis
        using ph call(2) False by (auto simp: loop_result_def intro!: exI [of _ K])
    next
      case True
      let ?K = "K(m := Suc (length log))"
      have k: "K m = length log" "backup_at procs p view v sm (log @ [(procno, req)]) (Suc (length log)) m h"
        using call(3) True by auto
      have bh: "backups_at procs p view v sm (log @ [(procno, req)]) ?K h"
        using prem(2) call(1) k(2) by (auto simp: backups_at_def backup_at_def)
      define h1 where "h1 = (if index = 0 then gr_set p (partition1 binds (gr_rsm h p)) h else h)"
      show ?thesis
      proof (cases "index = 0 \<and> rm_break1 (gr_rsm h p)")
        case b: True
        then have "fail = None" "g' = h\<lparr>gr_down := p # gr_down h\<rparr>"
          using prem(1) prim rh True False by (auto simp: rsm_breakpoint1_def)
        moreover have "backups_at procs p view v sm (log @ [(procno, req)]) ?K g'" "primary_waits procs p view v (length log) pm g'"
          using bh ph calculation(2) by (simp_all add: backups_at_def primary_waits_def)
        moreover have "loop_result p (length log) (m # ms) K ?K None"
          using k(1) False by (simp add: loop_result_def)
        moreover have "p \<in> set (gr_down g')"
          using calculation(2) by simp
        ultimately show ?thesis
          by blast
      next
        case b: False
        then have run: "invoke_backups binds (fts \<circ> Suc) procno req p (index + 1) ms h1 = (fail, g')"
          using prem(1) prim rh True False by (auto simp: rsm_breakpoint1_def h1_def split: if_splits)
        have "backups_at procs p view v sm (log @ [(procno, req)]) ?K h1" "primary_waits procs p view v (length log) pm h1" "p \<notin> set (gr_down h1)"
          using bh ph call(2) primary_waits_partition [OF ph] by (simp_all add: h1_def)
        note IH = Cons.IH [OF run this(1,2) prem(4) cl _ _ _ this(3)]
        have "distinct ms" "set ms \<subseteq> set view" "\<forall>x \<in> set ms - {p}. ?K x \<le> length log"
          using prem(6,7,8) by auto
        from IH [OF this] obtain K' where "backups_at procs p view v sm (log @ [(procno, req)]) K' g'" "primary_waits procs p view v (length log) pm g'"
            "p \<in> set (gr_down g') \<longleftrightarrow> fail = None" "loop_result p (length log) ms ?K K' fail"
          by blast
        then show ?thesis
          using loop_result_step [of p "length log" ms K m K' fail] k(1) prem(6) False by auto
      qed
    qed
  qed
qed

lemma client_invoke_eq:
  assumes "same_view procs p view p (gr_rsm g p)" and "rm_myvs (gr_rsm g p) = v"
    and "invoke_backups binds fts procno req p 0 view (gr_set p ((gr_rsm g p)\<lparr>rm_last_myvs := v, rm_myvs := next_vs v\<rparr>) g) = (fail, h)"
  shows "client_invoke binds fts procno req p g =
      (case fail of None \<Rightarrow> (None, h) | Some True \<Rightarrow> (Some (RC_BUSY, []), h)
       | Some False \<Rightarrow> (case execute procno req (gr_rsm h p) of
             Aborts \<Rightarrow> (None, h\<lparr>gr_down := p # gr_down h\<rparr>) | Returns (r, s) \<Rightarrow> (Some (RC_OK, r), gr_set p s h)))"
proof -
  let ?s = "(gr_rsm g p)\<lparr>rm_last_myvs := v, rm_myvs := next_vs v\<rparr>"
  have "rsm_view (rm_vid_commit ?s) ?s = (view, ?s)"
    by (rule rsm_view_same [OF assms(1)]) simp_all
  then show ?thesis
    using assms by (simp add: client_invoke_def same_view_def Let_def)
qed

text \<open>A replica that has executed the request with viewstamp \<open>v\<close>.\<close>

definition executed :: "viewstamp \<Rightarrow> 's \<Rightarrow> 's rsm \<Rightarrow> 's rsm" where
  "executed v sm s = s\<lparr>rm_last_myvs := v, rm_myvs := next_vs v, rm_sm := sm\<rparr>"

lemma executed_simps [simp]:
  "rm_last_myvs (executed v sm s) = v" "rm_myvs (executed v sm s) = next_vs v" "rm_sm (executed v sm s) = sm"
  "rm_break1 (executed v sm s) = rm_break1 s" "rm_reachable (executed v sm s) = rm_reachable s" "rm_stf (executed v sm s) = rm_stf s"
  by (simp_all add: executed_def)

lemma executed_view: "same_view procs p view m s \<Longrightarrow> same_view procs p view m (executed v sm s)"
  by (rule same_view_cong) (simp_all add: executed_def)

lemma peer_invoke_ok:
  assumes "same_view procs p view m (gr_rsm g m)" and "m \<noteq> p" and "rm_myvs (gr_rsm g m) = v" and "\<not> rm_break1 (gr_rsm g m)"
    and "rsm_exec procs procno req (rm_sm (gr_rsm g m)) = Returns (r, u)" and "m \<notin> set (gr_down g)" and "rm_reachable (gr_rsm g m)"
  shows "peer_call (Some Delivered, id) m (rsm_invoke procno v req) g = (Some RSM_OK, gr_set m (executed v u (gr_rsm g m)) g)"
    and "peer_call (Some (Late e), id) m (rsm_invoke procno v req) g = (None, gr_set m (executed v u (gr_rsm g m)) g)"
proof -
  have "rsm_invoke procno v req (gr_rsm g m) = Returns (RSM_OK, executed v u (gr_rsm g m))"
    using assms(1-5) by (simp add: rsm_invoke_def execute_def rsm_breakpoint1_def executed_def same_view_def)
  then show "peer_call (Some Delivered, id) m (rsm_invoke procno v req) g = (Some RSM_OK, gr_set m (executed v u (gr_rsm g m)) g)"
    and "peer_call (Some (Late e), id) m (rsm_invoke procno v req) g = (None, gr_set m (executed v u (gr_rsm g m)) g)"
    using assms(6,7) by (simp_all add: peer_call_def gr_serve_def)
qed

text \<open>One request keeps the invariant; it is acknowledged only if all earlier ones were.\<close>

lemma client_invoke_inv:
  assumes inv: "group_inv procs p view v sm log n replies g" and view: "distinct view"
    and len: "length log < 2 ^ 32" and cl: "\<forall>i. clean (fts i)" and up: "p \<notin> set (gr_down g)"
    and run: "client_invoke binds fts procno req p g = (a, g')"
  shows "(\<exists>r. a = Some (RC_OK, r) \<and> n = length log \<and> group_inv procs p view v sm (log @ [(procno, req)]) (Suc n) (replies @ [r]) g')
    \<or> ((\<forall>r. a \<noteq> Some (RC_OK, r)) \<and> group_inv procs p view v sm (log @ [(procno, req)]) n replies g')"
proof -
  let ?log = "log @ [(procno, req)]" and ?s = "gr_rsm g p"
  define s where "s = ?s\<lparr>rm_last_myvs := rm_myvs ?s, rm_myvs := next_vs (rm_myvs ?s)\<rparr>"
  obtain K where p: "same_view procs p view p ?s" "rm_myvs ?s = nth_vs v (length log)" "n \<le> length log"
      "run_log procs (take n log) sm = Some (replies, rm_sm ?s)"
    and K: "backups_at procs p view v sm log K g" "\<forall>m \<in> set view - {p}. n \<le> K m"
      "n = length log \<or> (\<exists>m \<in> set view - {p}. K m = n)"
    using inv up unfolding group_inv_def by blast
  obtain fail h where h: "invoke_backups binds fts procno req p 0 view (gr_set p s g) = (fail, h)"
    by fastforce
  have "same_view procs p view p s"
    by (rule same_view_cong [OF p(1)]) (simp_all add: s_def)
  then have "primary_waits procs p view v (length log) (rm_sm ?s) (gr_set p s g)"
    by (simp add: primary_waits_def s_def p(2))
  moreover have "backups_at procs p view v sm ?log K (gr_set p s g)"
    using backups_at_log [OF K(1)] by simp
  moreover have Kle: "\<forall>m \<in> set view - {p}. K m \<le> length log"
    using K(1) by (auto simp: backups_at_def backup_at_def)
  ultimately obtain K' where K': "backups_at procs p view v sm ?log K' h" "primary_waits procs p view v (length log) (rm_sm ?s) h"
      "p \<in> set (gr_down h) \<longleftrightarrow> fail = None" "loop_result p (length log) view K K' fail"
    using invoke_backups_at [OF h _ _ len cl view] up by fastforce
  note lr = K'(4) [unfolded loop_result_def]
  have le: "\<forall>m \<in> set view - {p}. n \<le> K' m"
  proof
    fix m assume "m \<in> set view - {p}"
    then show "n \<le> K' m"
      using lr [THEN conjunct1, rule_format, of m] K(2) p(3) by auto
  qed
  have prim: "same_view procs p view p (gr_rsm h p)" "rm_myvs (gr_rsm h p) = nth_vs v (length ?log)" "rm_sm (gr_rsm h p) = rm_sm ?s"
    using K'(2) by (auto simp: primary_waits_def)
  have behind: "group_inv procs p view v sm ?log n replies x"
    if "gr_rsm x = gr_rsm h" "p \<in> set (gr_down x) \<or> (\<exists>m \<in> set view - {p}. K' m = n)" for x
  proof -
    have "backups_at procs p view v sm ?log K' x"
      using K'(1) that(1) by (simp add: backups_at_def backup_at_def)
    then show ?thesis
      unfolding group_inv_def using that prim p(3,4) le by auto
  qed
  have "s = ?s\<lparr>rm_last_myvs := nth_vs v (length log), rm_myvs := next_vs (nth_vs v (length log))\<rparr>"
    by (simp add: s_def p(2))
  note cases = client_invoke_eq [OF p(1,2) h [unfolded this]]
  consider "fail = None" | "fail = Some True" | "fail = Some False"
    by (cases fail) auto
  then show ?thesis
  proof cases
    case 1
    then show ?thesis
      using run cases behind [of h] K'(3) by auto
  next
    case 2
    have "\<exists>m \<in> set view - {p}. K' m = n"
    proof (cases "n = length log")
      case True
      obtain m where "m \<in> set view - {p}" "K' m = K m"
        using lr 2 by blast
      then show ?thesis
        using True K(2) Kle by (intro bexI [of _ m]) (auto intro: le_antisym)
    next
      case False
      then obtain m where "m \<in> set view - {p}" "K m = n"
        using K(3) by blast
      then show ?thesis
        using lr [THEN conjunct1, rule_format, of m] False by auto
    qed
    then show ?thesis
      using run cases behind [of h] 2 by auto
  next
    case 3
    then have all: "\<forall>m \<in> set view - {p}. K m = length log \<and> K' m = Suc (length log)"
      using lr by blast
    then have n: "n = length log"
      using K(3) by auto
    show ?thesis
    proof (cases "execute procno req (gr_rsm h p)")
      case Aborts
      then show ?thesis
        using run cases behind [of g'] 3 by auto
    next
      case (Returns x)
      obtain r u where x: "rsm_exec procs procno req (rm_sm ?s) = Returns (r, u)" "x = (r, (gr_rsm h p)\<lparr>rm_sm := u\<rparr>)"
        using Returns prim by (auto simp: execute_def obind_Returns_iff same_view_def)
      let ?g = "gr_set p ((gr_rsm h p)\<lparr>rm_sm := u\<rparr>) h"
      have "same_view procs p view p ((gr_rsm h p)\<lparr>rm_sm := u\<rparr>)"
        by (rule same_view_cong [OF prim(1)]) simp_all
      moreover have "backups_at procs p view v sm ?log K' ?g"
        using K'(1) by simp
      moreover have "run_log procs ?log sm = Some (replies @ [r], u)"
        using run_log_snoc [OF _ x(1)] p(4) n by simp
      moreover have "\<forall>m \<in> set view - {p}. Suc n \<le> K' m"
        using all n by simp
      ultimately have "group_inv procs p view v sm ?log (Suc n) (replies @ [r]) ?g"
        unfolding group_inv_def using prim(2) n by (intro conjI exI [of _ K']) simp_all
      then show ?thesis
        using run cases 3 Returns x(2) n by auto
    qed
  qed
qed

lemma invoke_all_inv:
  assumes "group_inv procs p view v sm log n replies g" and "distinct view" and "length log + length ivs < 2 ^ 32"
    and "\<forall>iv \<in> set ivs. \<forall>i. clean (iv_fates iv i)" and "invoke_all ivs p g = (as, g')"
  shows "\<exists>k replies'. length replies' = k \<and> take k as = map (\<lambda>r. Some (RC_OK, r)) replies' \<and> k \<le> length as \<and> length as \<le> length ivs
    \<and> (\<forall>a \<in> set (drop k as). \<forall>r. a \<noteq> Some (RC_OK, r)) \<and> (0 < k \<longrightarrow> n = length log)
    \<and> group_inv procs p view v sm (log @ take (length as) (map iv_req ivs)) (n + k) (replies @ replies') g'"
  using assms
proof (induction ivs arbitrary: log n replies g as)
  case Nil
  then show ?case
    by simp
next
  case (Cons iv ivs)
  show ?case
  proof (cases "p \<in> set (gr_down g)")
    case True
    then show ?thesis
      using Cons.prems by simp
  next
    case False
    obtain procno req where q: "iv_req iv = (procno, req)"
      by fastforce
    obtain a h bs where run: "client_invoke (iv_binds iv) (iv_fates iv) procno req p g = (a, h)"
        "invoke_all ivs p h = (bs, g')" "as = a # bs"
      using Cons.prems(5) False q by (auto split: prod.splits)
    have len: "length log < 2 ^ 32" "length (log @ [(procno, req)]) + length ivs < 2 ^ 32"
      using Cons.prems(3) by simp_all
    have cl: "\<forall>i. clean (iv_fates iv i)" "\<forall>iv \<in> set ivs. \<forall>i. clean (iv_fates iv i)"
      using Cons.prems(4) by simp_all
    note step = client_invoke_inv [OF Cons.prems(1,2) len(1) cl(1) False run(1)]
    note IH = Cons.IH [OF _ Cons.prems(2) len(2) cl(2) run(2)]
    from step show ?thesis
    proof
      assume "\<exists>r. a = Some (RC_OK, r) \<and> n = length log \<and> group_inv procs p view v sm (log @ [(procno, req)]) (Suc n) (replies @ [r]) h"
      then obtain r where r: "a = Some (RC_OK, r)" "n = length log"
          "group_inv procs p view v sm (log @ [(procno, req)]) (Suc n) (replies @ [r]) h"
        by blast
      from IH [OF r(3)] obtain rs where
          "take (length rs) bs = map (\<lambda>r. Some (RC_OK, r)) rs" "length rs \<le> length bs" "length bs \<le> length ivs"
          "\<forall>a \<in> set (drop (length rs) bs). \<forall>r. a \<noteq> Some (RC_OK, r)"
          "group_inv procs p view v sm ((log @ [(procno, req)]) @ take (length bs) (map iv_req ivs)) (Suc n + length rs) ((replies @ [r]) @ rs) g'"
        by blast
      then show ?thesis
        using r q run(3) by (intro exI [of _ "Suc (length rs)"] exI [of _ "r # rs"]) simp
    next
      assume b: "(\<forall>r. a \<noteq> Some (RC_OK, r)) \<and> group_inv procs p view v sm (log @ [(procno, req)]) n replies h"
      have "n \<le> length log"
        using Cons.prems(1) by (simp add: group_inv_def)
      with IH [OF b [THEN conjunct2]]
      have "\<forall>a \<in> set bs. \<forall>r. a \<noteq> Some (RC_OK, r)" "length bs \<le> length ivs"
          "group_inv procs p view v sm ((log @ [(procno, req)]) @ take (length bs) (map iv_req ivs)) n replies g'"
        by fastforce+
      then show ?thesis
        using b q run(3) by (intro exI [of _ 0] exI [of _ "[]"]) simp
    qed
  qed
qed

lemma synced_inv: "synced procs p view v sm g \<Longrightarrow> group_inv procs p view v sm [] 0 [] g"
  by (auto simp: synced_def group_inv_def backups_at_def backup_at_def intro!: exI [of _ "\<lambda>_. 0"])

lemma acked_prefix:
  assumes "synced procs p view v sm g" and "\<forall>iv \<in> set ivs. \<forall>i. clean (iv_fates iv i)" and "length ivs < 2 ^ 32"
    and "invoke_all ivs p g = (as, g')"
  shows "\<exists>replies. take (length replies) as = map (\<lambda>r. Some (RC_OK, r)) replies
    \<and> (\<forall>a \<in> set (drop (length replies) as). \<forall>r. a \<noteq> Some (RC_OK, r))
    \<and> (\<forall>m \<in> set view. \<exists>k rest. length replies \<le> k \<and> k \<le> length as
         \<and> run_log procs (take k (map iv_req ivs)) sm = Some (replies @ rest, rm_sm (gr_rsm g' m)))"
proof -
  have d: "distinct view"
    using assms(1) by (simp add: synced_def)
  have l: "length ([] :: (u32 \<times> string) list) + length ivs < 2 ^ 32"
    using assms(3) by simp
  obtain rs where rs: "take (length rs) as = map (\<lambda>r. Some (RC_OK, r)) rs" "length rs \<le> length as" "length as \<le> length ivs"
      "\<forall>a \<in> set (drop (length rs) as). \<forall>r. a \<noteq> Some (RC_OK, r)"
      "group_inv procs p view v sm (take (length as) (map iv_req ivs)) (length rs) rs g'"
    using invoke_all_inv [OF synced_inv [OF assms(1)] d l assms(2,4)] by auto
  let ?log = "take (length as) (map iv_req ivs)"
  obtain K where p: "run_log procs (take (length rs) ?log) sm = Some (rs, rm_sm (gr_rsm g' p))"
    and K: "backups_at procs p view v sm ?log K g'" "\<forall>m \<in> set view - {p}. length rs \<le> K m"
    using rs(5) unfolding group_inv_def by blast
  have "\<exists>k rest. length rs \<le> k \<and> k \<le> length as \<and> run_log procs (take k (map iv_req ivs)) sm = Some (rs @ rest, rm_sm (gr_rsm g' m))"
    if "m \<in> set view" for m
  proof (cases "m = p")
    case True
    then show ?thesis
      using p rs(2) by (intro exI [of _ "length rs"] exI [of _ "[]"]) (simp add: min_absorb1)
  next
    case False
    then have "backup_at procs p view v sm ?log (K m) m g'" "length rs \<le> K m"
      using K that by (auto simp: backups_at_def)
    then obtain rs' where k: "K m \<le> length as" "length rs \<le> K m" "run_log procs (take (K m) ?log) sm = Some (rs', rm_sm (gr_rsm g' m))"
      by (auto simp: backup_at_def)
    then show ?thesis
      using run_log_prefix [OF k(2) p k(3)] by (intro exI [of _ "K m"]) (auto simp: min_absorb1)
  qed
  then show ?thesis
    using rs(1,4) by blast
qed

section \<open>The contract of the replicated service\<close>

text \<open>
  What \<open>rsm\<close> relies on in an \<open>rsm_state_transfer\<close> object: \<open>unmarshal_state\<close> restores the part of the state that
  \<open>marshal_state\<close> writes, whatever the state was before.
\<close>

locale state_transfer =
  fixes marshal :: "'s \<Rightarrow> string outcome" and unmarshal :: "string \<Rightarrow> 's \<Rightarrow> 's outcome" and part :: "'s \<Rightarrow> 'p"
    and ok :: "'s \<Rightarrow> bool" and free :: "'s \<Rightarrow> bool"
  assumes restores: "ok s \<Longrightarrow> free t \<Longrightarrow> \<exists>w u. marshal s = Returns w \<and> unmarshal w t = Returns u \<and> part u = part s"
begin

lemma transfer_copies:
  assumes "rm_stf (gr_rsm g m) = Some (marshal, unmarshal)" and "rm_stf (gr_rsm g p) = Some (marshal, unmarshal)" and "m \<noteq> p"
    and "ok (rm_sm (gr_rsm g p))" and "free (rm_sm (gr_rsm g m))" and "p \<notin> set (gr_down g)" and "rm_reachable (gr_rsm g p)"
    and "rm_insync (gr_rsm g p)" and "rm_vid_insync (gr_rsm g p) = rm_vid_insync (gr_rsm g m)"
    and "rm_last_myvs (gr_rsm g m) = rm_last_myvs (gr_rsm g p) \<Longrightarrow> part (rm_sm (gr_rsm g m)) = part (rm_sm (gr_rsm g p))"
  shows "\<exists>sm. statetransfer (Some Delivered, id) p m g
      = (Some True, gr_set m ((gr_rsm g m)\<lparr>rm_sm := sm, rm_last_myvs := rm_last_myvs (gr_rsm g p)\<rparr>) (gr_set p (gr_rsm g p) g))
    \<and> part sm = part (rm_sm (gr_rsm g p))"
proof (cases "rm_last_myvs (gr_rsm g m) = rm_last_myvs (gr_rsm g p)")
  case True
  then show ?thesis
    using assms by (intro exI [of _ "rm_sm (gr_rsm g m)"])
      (simp add: statetransfer_def peer_call_def gr_serve_def transferreq_def take_state_def Let_def)
next
  case False
  obtain w u where "marshal (rm_sm (gr_rsm g p)) = Returns w" "unmarshal w (rm_sm (gr_rsm g m)) = Returns u" "part u = part (rm_sm (gr_rsm g p))"
    using restores [OF assms(4,5)] by blast
  then show ?thesis
    using assms False by (intro exI [of _ u])
      (simp add: statetransfer_def peer_call_def gr_serve_def transferreq_def take_state_def Let_def)
qed

text \<open>A backup that synchronises for a view all calls of which get through.\<close>

lemma sync_restores:
  assumes "rm_stf (gr_rsm g m) = Some (marshal, unmarshal)" and "rm_stf (gr_rsm g p) = Some (marshal, unmarshal)" and "m \<noteq> p"
    and "ok (rm_sm (gr_rsm g p))" and "free (rm_sm (gr_rsm g m))" and "p \<notin> set (gr_down g)" and "rm_reachable (gr_rsm g p)"
    and "rm_insync (gr_rsm g p)" and "rm_vid_insync (gr_rsm g p) = vid" and "rm_vid_insync (gr_rsm g m) = vid"
    and "rm_vid_commit (gr_rsm g m) = vid" and "rm_primary (gr_rsm g m) = p" and "myaddr (gr_rsm g m) = m"
    and "rm_last_myvs (gr_rsm g m) = rm_last_myvs (gr_rsm g p) \<Longrightarrow> part (rm_sm (gr_rsm g m)) = part (rm_sm (gr_rsm g p))"
  shows "\<exists>h s. sync_with_primary [(Some Delivered, id)] (Some Delivered, id) m g = Some (True, h)
    \<and> gr_rsm h p = (gr_rsm g p)\<lparr>rm_backups := filter (\<lambda>x. x \<noteq> m) (rm_backups (gr_rsm g p))\<rparr>
    \<and> recovery_end True (gr_rsm h m) = Some s \<and> part (rm_sm s) = part (rm_sm (gr_rsm g p))
    \<and> rm_last_myvs s = rm_last_myvs (gr_rsm g p) \<and> rm_myvs s = \<lparr>vs_vid = vid, vs_seqno = 1\<rparr> \<and> \<not> rm_inviewchange s"
proof -
  obtain sm where s: "statetransfer (Some Delivered, id) p m g
      = (Some True, gr_set m ((gr_rsm g m)\<lparr>rm_sm := sm, rm_last_myvs := rm_last_myvs (gr_rsm g p)\<rparr>) (gr_set p (gr_rsm g p) g))"
      "part sm = part (rm_sm (gr_rsm g p))"
    using transfer_copies [OF assms(1-8) _ assms(14)] assms(9,10) by auto
  then show ?thesis
    using assms(3,6-13)
    by (simp add: sync_with_primary_def statetransferdone_def peer_call_def gr_serve_def transferdonereq_def recovery_end_def myaddr_def Let_def)
qed

end

section \<open>Example\<close>

text \<open>A service that counts its requests.\<close>

definition ex_count :: "nat handler" where
  "ex_count args ret s = Returns (0, ret, s + 1)"

definition ex_view_config :: "string list \<Rightarrow> string \<Rightarrow> config" where
  "ex_view_config ms m = (ex_config m)\<lparr>cf_acc := (cf_acc (ex_config m))\<lparr>ac_values := [1 \<mapsto> config_value ms]\<rparr>\<rparr>"

definition ex_rsm :: "string list \<Rightarrow> string \<Rightarrow> nat rsm" where
  "ex_rsm ms m =
     \<lparr>rm_procs = [7 \<mapsto> ex_count], rm_cfg = ex_view_config ms m, rm_stf = None, rm_sm = 0, rm_myvs = \<lparr>vs_vid = 1, vs_seqno = 1\<rparr>,
      rm_last_myvs = \<lparr>vs_vid = 0, vs_seqno = 0\<rparr>, rm_primary = ''A'', rm_insync = False, rm_inviewchange = False,
      rm_vid_commit = 1, rm_vid_insync = 1, rm_backups = [], rm_partitioned = False, rm_dopartition = False,
      rm_break1 = False, rm_break2 = False, rm_reachable = True, rm_set_reachable = []\<rparr>"

definition ex_group :: "string list \<Rightarrow> nat group" where
  "ex_group ms = \<lparr>gr_rsm = ex_rsm ms, gr_down = []\<rparr>"

lemma ex_group_synced:
  assumes "list_all word_ok ms" and "distinct ms" and "''A'' \<in> set ms"
  shows "synced [7 \<mapsto> ex_count] ''A'' ms \<lparr>vs_vid = 1, vs_seqno = 1\<rparr> 0 (ex_group ms)"
proof -
  have "myaddr (ex_rsm ms m) = m" for m
    by (simp add: ex_rsm_def myaddr_def ex_view_config_def ex_config_def)
  moreover have "get_view 1 (ex_view_config ms m) = (ms, ex_view_config ms m)" for m
    by (simp add: get_view_def get_view_wo_def acceptor_value_def ex_view_config_def members_value assms(1) Let_def)
  ultimately show ?thesis
    using assms(2,3) by (simp add: synced_def same_view_def ex_group_def ex_rsm_def)
qed

lemma ex_words: "list_all word_ok [''A'', ''B'', ''C'']"
  by (simp add: word_ok_def isspace_def)

lemma ex_exec: "\<exists>r. rsm_exec [7 \<mapsto> ex_count] 7 [] s = Returns (r, s + 1)"
  by (simp add: rsm_exec_def ex_count_def)

section \<open>Properties\<close>



text \<open>A reply that is lost after its request was executed splits the group: the backup has executed the request
  and the primary, which reports \<open>BUSY\<close>, has not; but both have advanced their viewstamps, so that the
  next request is executed and acknowledged by both, on different states.\<close>

theorem late_reply_diverges:
  assumes "synced procs p [p, b] v sm g" and "b \<notin> set (gr_down g)" and "rm_reachable (gr_rsm g b)"
    and "\<not> rm_break1 (gr_rsm g p)" and "\<not> rm_break1 (gr_rsm g b)"
    and "rsm_exec procs c1 q1 sm = Returns (r1, s1)" and "rsm_exec procs c2 q2 s1 = Returns (r2, s2)"
    and "rsm_exec procs c2 q2 sm = Returns (r3, s3)"
  shows "\<exists>g1 g2. client_invoke binds (\<lambda>_. (Some (Late e), id)) c1 q1 p g = (Some (RC_BUSY, []), g1)
    \<and> client_invoke binds (\<lambda>_. (Some Delivered, id)) c2 q2 p g1 = (Some (RC_OK, r3), g2)
    \<and> rm_sm (gr_rsm g2 p) = s3 \<and> rm_sm (gr_rsm g2 b) = s2"
proof -
  have s: "p \<noteq> b" "same_view procs p [p, b] p (gr_rsm g p)" "same_view procs p [p, b] b (gr_rsm g b)" "rm_myvs (gr_rsm g p) = v"
      "rm_myvs (gr_rsm g b) = v" "rm_sm (gr_rsm g p) = sm" "rm_sm (gr_rsm g b) = sm"
    using assms(1) by (auto simp: synced_def)
  let ?f = "\<lambda>v g. gr_set p ((gr_rsm g p)\<lparr>rm_last_myvs := v, rm_myvs := next_vs v\<rparr>) g"
  define g1 where "g1 = gr_set b (executed v s1 (gr_rsm g b)) (?f v g)"
  have "invoke_backups binds (\<lambda>_. (Some (Late e), id)) c1 q1 p 0 [p, b] (?f v g) = (Some True, g1)"
    using s peer_invoke_ok(2) [of procs p "[p, b]" b "?f v g" v c1 q1 r1 s1 e] assms(2,3,5,6)
    by (simp add: g1_def same_view_def)
  note 1 = client_invoke_eq [OF s(2,4) this]
  have p1: "same_view procs p [p, b] p (gr_rsm g1 p)" "rm_myvs (gr_rsm g1 p) = next_vs v" "rm_sm (gr_rsm g1 p) = sm"
    using same_view_cong [OF s(2), of "gr_rsm g1 p"] s(1,6) by (simp_all add: g1_def)
  have b1: "gr_rsm g1 b = executed v s1 (gr_rsm g b)"
    by (simp add: g1_def)
  define h where "h = gr_set b (executed (next_vs v) s2 (gr_rsm g1 b)) (?f (next_vs v) g1)"
  have hp: "same_view procs p [p, b] p (gr_rsm h p)" "rm_sm (gr_rsm h p) = sm" "\<not> rm_break1 (gr_rsm h p)"
    using same_view_cong [OF p1(1), of "gr_rsm h p"] p1(3) s(1) assms(4) by (simp_all add: h_def g1_def)
  have "peer_call (Some Delivered, id) b (rsm_invoke c2 (next_vs v) q2) (?f (next_vs v) g1) = (Some RSM_OK, h)"
    using peer_invoke_ok(1) [of procs p "[p, b]" b "?f (next_vs v) g1" "next_vs v" c2 q2 r2 s2] s(1) executed_view [OF s(3)] assms(2,3,5,7)
    by (simp add: h_def b1) (simp add: g1_def)
  then have "invoke_backups binds (\<lambda>_. (Some Delivered, id)) c2 q2 p 0 [p, b] (?f (next_vs v) g1)
      = (Some False, gr_set p (partition1 binds (gr_rsm h p)) h)"
    using s(1) p1(1) hp(3) by (simp add: same_view_def rsm_breakpoint1_def)
  note 2 = client_invoke_eq [OF p1(1,2) this]
  have "execute c2 q2 (partition1 binds (gr_rsm h p)) = Returns (r3, (partition1 binds (gr_rsm h p))\<lparr>rm_sm := s3\<rparr>)"
    using partition1_keeps(1,4) [OF hp(1)] hp(2) assms(8) by (simp add: execute_def same_view_def)
  then show ?thesis
    using 1 2 s(1) by (simp add: h_def)
qed

theorem late_reply_diverges_witness:
  "\<exists>g1 g2 r. client_invoke (\<lambda>_. True) (\<lambda>_. (Some (Late 0), id)) 7 [] ''A'' (ex_group [''A'', ''B'']) = (Some (RC_BUSY, []), g1)
    \<and> client_invoke (\<lambda>_. True) (\<lambda>_. (Some Delivered, id)) 7 [] ''A'' g1 = (Some (RC_OK, r), g2)
    \<and> rm_sm (gr_rsm g2 ''A'') = 1 \<and> rm_sm (gr_rsm g2 ''B'') = 2"
proof -
  have s: "synced [7 \<mapsto> ex_count] ''A'' [''A'', ''B''] \<lparr>vs_vid = 1, vs_seqno = 1\<rparr> 0 (ex_group [''A'', ''B''])"
    using ex_words by (intro ex_group_synced) simp_all
  obtain r1 r2 where "rsm_exec [7 \<mapsto> ex_count] 7 [] 0 = Returns (r1, 1)" "rsm_exec [7 \<mapsto> ex_count] 7 [] 1 = Returns (r2, 2)"
    using ex_exec [of 0] ex_exec [of 1] by (auto simp: numeral_2_eq_2)
  then show ?thesis
    using late_reply_diverges [OF s, of 7 "[]" r1 1 7 "[]" r2 2 r1 1 "\<lambda>_. True" 0] by (auto simp: ex_group_def ex_rsm_def)
qed

text \<open>C7: A request that fails at one backup is not repaired by the next view change: the backups that executed it have
  the viewstamp which the primary recorded for it before it asked them, so the transfer takes their
  states for equal and sends nothing, although the primary never executed the request.\<close>

theorem failed_invoke_skips_transfer:
  assumes "synced procs p [p, b, c] v sm g" and "b \<notin> set (gr_down g)" and "rm_reachable (gr_rsm g b)"
    and "p \<notin> set (gr_down g)" and "rm_reachable (gr_rsm g p)" and "\<not> rm_dopartition (gr_rsm g p)"
    and "\<not> rm_break1 (gr_rsm g p)" and "\<not> rm_break1 (gr_rsm g b)" and "rsm_exec procs procno req sm = Returns (r, u)"
  shows "\<exists>g1. client_invoke binds (\<lambda>i. (Some (if i = 1 then Delivered else Lost e), id)) procno req p g = (Some (RC_BUSY, []), g1)
    \<and> (\<forall>vid. \<exists>h. statetransfer (Some Delivered, id) p b
             (gr_set p ((gr_rsm g1 p)\<lparr>rm_insync := True, rm_vid_insync := vid\<rparr>) (gr_set b ((gr_rsm g1 b)\<lparr>rm_vid_insync := vid\<rparr>) g1)) = (Some True, h)
         \<and> rm_sm (gr_rsm h p) = sm \<and> rm_sm (gr_rsm h b) = u \<and> rm_last_myvs (gr_rsm h b) = rm_last_myvs (gr_rsm h p))"
proof -
  let ?view = "[p, b, c]" and ?fts = "\<lambda>i. (Some (if i = 1 then Delivered else Lost e), id)"
  have s: "p \<noteq> b" "p \<noteq> c" "b \<noteq> c" "same_view procs p ?view p (gr_rsm g p)" "same_view procs p ?view b (gr_rsm g b)" "rm_myvs (gr_rsm g p) = v"
      "rm_myvs (gr_rsm g b) = v" "rm_sm (gr_rsm g p) = sm" "rm_sm (gr_rsm g b) = sm"
    using assms(1) by (auto simp: synced_def)
  let ?s = "(gr_rsm g p)\<lparr>rm_last_myvs := v, rm_myvs := next_vs v\<rparr>"
  define g1 where "g1 = gr_set p ?s (gr_set b (executed v u (gr_rsm g b)) (gr_set p ?s g))"
  have call: "peer_call (Some Delivered, id) b (rsm_invoke procno v req) (gr_set p ?s g) = (Some RSM_OK, gr_set b (executed v u (gr_rsm g b)) (gr_set p ?s g))"
    using peer_invoke_ok(1) [of procs p ?view b "gr_set p ?s g" v procno req r u] s assms(2,3,8,9) by simp
  have "invoke_backups binds ?fts procno req p 0 ?view (gr_set p ?s g) = (Some True, g1)"
    using s call assms(6,7) by (simp add: same_view_def rsm_breakpoint1_def partition1_def g1_def) (simp add: peer_call_def)
  note 1 = client_invoke_eq [OF s(4,6) this]
  have g1: "gr_rsm g1 p = ?s" "gr_rsm g1 b = executed v u (gr_rsm g b)" "gr_down g1 = gr_down g"
    using s(1) by (simp_all add: g1_def)
  have "\<exists>h. statetransfer (Some Delivered, id) p b
             (gr_set p ((gr_rsm g1 p)\<lparr>rm_insync := True, rm_vid_insync := vid\<rparr>) (gr_set b ((gr_rsm g1 b)\<lparr>rm_vid_insync := vid\<rparr>) g1)) = (Some True, h)
         \<and> rm_sm (gr_rsm h p) = sm \<and> rm_sm (gr_rsm h b) = u \<and> rm_last_myvs (gr_rsm h b) = rm_last_myvs (gr_rsm h p)" for vid
    using s(1,8) g1 assms(4,5)
    by (simp add: statetransfer_def peer_call_def gr_serve_def transferreq_def take_state_def Let_def split: option.splits)
  then show ?thesis
    using 1 by simp
qed

theorem failed_invoke_skips_transfer_witness:
  "\<exists>g1 h. client_invoke (\<lambda>_. True) (\<lambda>i. (Some (if i = 1 then Delivered else Lost 0), id)) 7 [] ''A'' (ex_group [''A'', ''B'', ''C'']) = (Some (RC_BUSY, []), g1)
    \<and> statetransfer (Some Delivered, id) ''A'' ''B''
        (gr_set ''A'' ((gr_rsm g1 ''A'')\<lparr>rm_insync := True, rm_vid_insync := 2\<rparr>) (gr_set ''B'' ((gr_rsm g1 ''B'')\<lparr>rm_vid_insync := 2\<rparr>) g1)) = (Some True, h)
    \<and> rm_sm (gr_rsm h ''A'') = 0 \<and> rm_sm (gr_rsm h ''B'') = 1"
proof -
  have s: "synced [7 \<mapsto> ex_count] ''A'' [''A'', ''B'', ''C''] \<lparr>vs_vid = 1, vs_seqno = 1\<rparr> 0 (ex_group [''A'', ''B'', ''C''])"
    using ex_words by (intro ex_group_synced) simp_all
  obtain r where "rsm_exec [7 \<mapsto> ex_count] 7 [] 0 = Returns (r, 1)"
    using ex_exec [of 0] by auto
  then show ?thesis
    using failed_invoke_skips_transfer [OF s, of 7 "[]" r 1 "\<lambda>_. True" 0] by (fastforce simp: ex_group_def ex_rsm_def)
qed

end
