(* ===== verification/Rsm_Client.thy ===== *)
theory Rsm_Client
  imports Rsm
begin

text \<open>
  The client of the replicated state machine (rsm_client.cc, rsm_client.h).

  \<^item> A turn of the loop of \<open>invoke\<close> is a function of the replies to the calls it makes: \<open>None\<close> when \<open>safebind\<close> gives
    no connection, otherwise the return code and the result.
  \<^item> \<open>session\<close> runs the loop against a group of nodes, whose handlers give the replies.
  \<^item> The call templates are functions of an \<open>invoke\<close>.
\<close>

section \<open>Members\<close>

record rsm_client =
  rc_known :: "string list"
  rc_primary :: string

definition primary_failure :: "rsm_client \<Rightarrow> rsm_client outcome" where
  "primary_failure c =
     (if rc_known c = [] then Aborts else Returns (c\<lparr>rc_primary := last (rc_known c), rc_known := butlast (rc_known c)\<rparr>))"

definition init_members :: "(u32 \<times> string list) option \<Rightarrow> rsm_client \<Rightarrow> (bool \<times> rsm_client) outcome" where
  "init_members reply c =
     (case reply of
        None \<Rightarrow> Returns (False, c)
      | Some (ret, new_view) \<Rightarrow>
          if ret \<noteq> 0 then Returns (False, c)
          else VERIFY (new_view \<noteq> []) (Returns (True, \<lparr>rc_known = butlast new_view, rc_primary = last new_view\<rparr>)))"

definition rsm_client_new :: "(u32 \<times> string list) option \<Rightarrow> string \<Rightarrow> rsm_client outcome" where
  "rsm_client_new reply dst = obind (init_members reply \<lparr>rc_known = [], rc_primary = dst\<rparr>) (\<lambda>(ok, c). VERIFY ok (Returns c))"

section \<open>Invoke\<close>

primrec rc_code :: "rsm_client_status \<Rightarrow> u32" where
  "rc_code RC_OK = 0"
| "rc_code RC_ERR = 1"
| "rc_code RC_NOTPRIMARY = 2"
| "rc_code RC_BUSY = 3"

text \<open>One turn of the loop; the result is the reply with which it ends.\<close>

definition invoke_turn :: "(u32 \<times> string) option \<Rightarrow> (u32 \<times> string list) option \<Rightarrow> rsm_client \<Rightarrow> (string option \<times> rsm_client) outcome" where
  "invoke_turn reply members c =
     (let prim_fail = (\<lambda>c. obind (primary_failure c) (\<lambda>c. Returns (None, c)))
      in case reply of
           None \<Rightarrow> prim_fail c
         | Some (ret, rep) \<Rightarrow>
             if ret = rc_code RC_OK then Returns (Some rep, c)
             else if ret = rc_code RC_BUSY then Returns (None, c)
             else if ret = rc_code RC_NOTPRIMARY
             then obind (init_members members c) (\<lambda>(ok, c). if ok then Returns (None, c) else prim_fail c)
             else prim_fail c)"

section \<open>Call templates\<close>

definition rcall_m :: "(u32 \<Rightarrow> string \<Rightarrow> 'c \<Rightarrow> (u32 \<times> string \<times> 'c) outcome) \<Rightarrow> 'r getter \<Rightarrow> u32 \<Rightarrow> marshall \<Rightarrow> 'c \<Rightarrow> (u32 \<times> 'r option \<times> 'c) outcome" where
  "rcall_m ivk getR proc req c =
     obind (ivk proc (m_str req) c) (\<lambda>(intret, rep, c).
       VERIFY (intret = rc_code RC_OK)
         (let (intret, u) = get_int (take_content [] rep)
          in if sint intret < 0 then Returns (intret, None, c)
             else let (res, u) = get_string u
                  in VERIFY (u_okdone u) (let (r, u1) = getR (take_content [] res) in VERIFY (u_okdone u1) (Returns (intret, Some r, c)))))"

definition rcall1 where
  "rcall1 ivk p1 getR proc a1 = rcall_m ivk getR proc (p1 marshall_new a1)"

definition rcall2 where
  "rcall2 ivk p1 p2 getR proc a1 a2 = rcall_m ivk getR proc (p2 (p1 marshall_new a1) a2)"

definition rcall3 where
  "rcall3 ivk p1 p2 p3 getR proc a1 a2 a3 = rcall_m ivk getR proc (p3 (p2 (p1 marshall_new a1) a2) a3)"

definition rcall4 where
  "rcall4 ivk p1 p2 p3 p4 getR proc a1 a2 a3 a4 = rcall_m ivk getR proc (p4 (p3 (p2 (p1 marshall_new a1) a2) a3) a4)"

definition rcall5 where
  "rcall5 ivk p1 p2 p3 p4 p5 getR proc a1 a2 a3 a4 a5 =
     rcall_m ivk getR proc (p5 (p4 (p3 (p2 (p1 marshall_new a1) a2) a3) a4) a5)"

section \<open>A client and a group\<close>

text \<open>The calls of a client that get through; a node that has died or is cut off gives no connection.\<close>

definition answers :: "string \<Rightarrow> 's group \<Rightarrow> bool" where
  "answers m g = (m \<notin> set (gr_down g) \<and> rm_reachable (gr_rsm g m))"

definition call_invoke :: "(string \<Rightarrow> bool) \<Rightarrow> (nat \<Rightarrow> 's fate) \<Rightarrow> u32 \<Rightarrow> string \<Rightarrow> string \<Rightarrow> 's group \<Rightarrow> (u32 \<times> string) option \<times> 's group" where
  "call_invoke binds fts procno req m g =
     (if \<not> answers m g then (None, g)
      else case client_invoke binds fts procno req m g of
             (None, g) \<Rightarrow> (Some (timeout_failure, []), g)
           | (Some (st, r), g) \<Rightarrow> (Some (rc_code st, r), g))"

definition call_members :: "string \<Rightarrow> 's group \<Rightarrow> (u32 \<times> string list) option \<times> 's group" where
  "call_members m g =
     (if \<not> answers m g then (None, g)
      else let (ms, s) = client_members (gr_rsm g m) in (Some (rc_code RC_OK, ms), gr_set m s g))"

text \<open>The members are asked for only when the node called says that it is not the primary.\<close>

definition session_turn :: "(string \<Rightarrow> bool) \<Rightarrow> (nat \<Rightarrow> 's fate) \<Rightarrow> u32 \<Rightarrow> string \<Rightarrow> rsm_client \<Rightarrow> 's group \<Rightarrow> (string option \<times> rsm_client \<times> 's group) outcome" where
  "session_turn binds fts procno req c g =
     (let m = rc_primary c; (reply, g) = call_invoke binds fts procno req m g;
          (members, g) = (if map_option fst reply = Some (rc_code RC_NOTPRIMARY) then call_members m g else (None, g))
      in obind (invoke_turn reply members c) (\<lambda>(r, c). Returns (r, c, g)))"

text \<open>At most \<open>n\<close> turns of \<open>invoke\<close>; the reply is \<open>None\<close> when they are not enough.\<close>

fun session :: "nat \<Rightarrow> (string \<Rightarrow> bool) \<Rightarrow> (nat \<Rightarrow> 's fate) \<Rightarrow> u32 \<Rightarrow> string \<Rightarrow> rsm_client \<Rightarrow> 's group \<Rightarrow> (string option \<times> rsm_client \<times> 's group) outcome" where
  "session 0 binds fts procno req c g = Returns (None, c, g)"
| "session (Suc n) binds fts procno req c g =
     obind (session_turn binds fts procno req c g) (\<lambda>(r, c, g).
       case r of Some r \<Rightarrow> Returns (Some r, c, g) | None \<Rightarrow> session n binds fts procno req c g)"

section \<open>A request that nothing disturbs\<close>

definition healthy :: "string list \<Rightarrow> 's group \<Rightarrow> bool" where
  "healthy view g = (\<forall>m \<in> set view. answers m g \<and> \<not> rm_break1 (gr_rsm g m) \<and> \<not> rm_dopartition (gr_rsm g m))"

definition delivered :: "nat \<Rightarrow> 's fate" where
  "delivered i = (Some Delivered, id)"

lemma delivered_Suc [simp]: "delivered \<circ> Suc = delivered"
  by (simp add: fun_eq_iff delivered_def)

lemma invoke_backups_ok:
  assumes "\<forall>m \<in> set ms - {p}. same_view procs p view m (gr_rsm g m) \<and> rm_myvs (gr_rsm g m) = v \<and> rm_sm (gr_rsm g m) = sm
      \<and> answers m g \<and> \<not> rm_break1 (gr_rsm g m)"
    and "rm_primary (gr_rsm g p) = p" and "rm_last_myvs (gr_rsm g p) = v" and "\<not> rm_break1 (gr_rsm g p)" and "\<not> rm_dopartition (gr_rsm g p)"
    and "distinct ms" and "rsm_exec procs procno req sm = Returns (r, u)"
  shows "\<exists>h. invoke_backups binds delivered procno req p index ms g = (Some False, h) \<and> gr_down h = gr_down g
    \<and> gr_rsm h p = gr_rsm g p \<and> (\<forall>m. m \<noteq> p \<longrightarrow> gr_rsm h m = (if m \<in> set ms then executed v u (gr_rsm g m) else gr_rsm g m))"
  using assms
proof (induction ms arbitrary: g index)
  case Nil
  then show ?case
    by simp
next
  case (Cons m ms)
  show ?case
  proof (cases "m = p")
    case True
    then have "\<forall>m \<in> set ms - {p}. same_view procs p view m (gr_rsm g m) \<and> rm_myvs (gr_rsm g m) = v \<and> rm_sm (gr_rsm g m) = sm
        \<and> answers m g \<and> \<not> rm_break1 (gr_rsm g m)"
      using Cons.prems(1) by simp
    from Cons.IH [OF this Cons.prems(2-5) _ Cons.prems(7), of index] show ?thesis
      using Cons.prems(2,6) True by auto
  next
    case False
    let ?g = "gr_set m (executed v u (gr_rsm g m)) g"
    have "peer_call (delivered 0) m (rsm_invoke procno v req) g = (Some RSM_OK, ?g)"
      using Cons.prems(1,7) False unfolding delivered_def by (intro peer_invoke_ok(1) [where view = view]) (auto simp: answers_def)
    then have run: "invoke_backups binds delivered procno req p index (m # ms) g
        = invoke_backups binds delivered procno req p (if index = 0 then 1 else index + 1) ms (if index = 0 then gr_set p (gr_rsm g p) ?g else ?g)"
      using Cons.prems(2-5) False by (simp add: rsm_breakpoint1_def partition1_def)
    have e: "gr_set p (gr_rsm g p) ?g = ?g"
      using False by (simp add: gr_set_def fun_eq_iff)
    have "\<forall>x \<in> set ms - {p}. same_view procs p view x (gr_rsm ?g x) \<and> rm_myvs (gr_rsm ?g x) = v \<and> rm_sm (gr_rsm ?g x) = sm
        \<and> answers x ?g \<and> \<not> rm_break1 (gr_rsm ?g x)"
      using Cons.prems(1,6) by (auto simp: answers_def)
    from Cons.IH [OF this _ _ _ _ _ Cons.prems(7), of "if index = 0 then 1 else index + 1"] obtain h where
        "invoke_backups binds delivered procno req p (if index = 0 then 1 else index + 1) ms ?g = (Some False, h)"
        "gr_down h = gr_down g" "gr_rsm h p = gr_rsm g p"
        "\<forall>x. x \<noteq> p \<longrightarrow> gr_rsm h x = (if x \<in> set ms then executed v u (gr_rsm ?g x) else gr_rsm ?g x)"
      using Cons.prems(2-6) False by auto
    then show ?thesis
      using run e Cons.prems(6) by (intro exI [of _ h]) auto
  qed
qed

lemma client_invoke_ok:
  assumes "synced procs p view v sm g" and "healthy view g" and "rsm_exec procs procno req sm = Returns (r, u)"
  shows "\<exists>h. client_invoke binds delivered procno req p g = (Some (RC_OK, r), h)
    \<and> gr_down h = gr_down g \<and> (\<forall>m \<in> set view. gr_rsm h m = executed v u (gr_rsm g m))"
proof -
  let ?s = "(gr_rsm g p)\<lparr>rm_last_myvs := v, rm_myvs := next_vs v\<rparr>"
  have p: "same_view procs p view p (gr_rsm g p)" "rm_myvs (gr_rsm g p) = v" "rm_sm (gr_rsm g p) = sm" "distinct view" "p \<in> set view"
    using assms(1) by (auto simp: synced_def)
  have "\<forall>m \<in> set view - {p}. same_view procs p view m (gr_rsm (gr_set p ?s g) m) \<and> rm_myvs (gr_rsm (gr_set p ?s g) m) = v
      \<and> rm_sm (gr_rsm (gr_set p ?s g) m) = sm \<and> answers m (gr_set p ?s g) \<and> \<not> rm_break1 (gr_rsm (gr_set p ?s g) m)"
    using assms(1,2) by (auto simp: synced_def healthy_def answers_def)
  from invoke_backups_ok [OF this _ _ _ _ p(4) assms(3), where index = 0 and binds = binds] obtain h where
      h: "invoke_backups binds delivered procno req p 0 view (gr_set p ?s g) = (Some False, h)" "gr_down h = gr_down g"
      "gr_rsm h p = ?s" "\<forall>m. m \<noteq> p \<longrightarrow> gr_rsm h m = (if m \<in> set view then executed v u (gr_rsm g m) else gr_rsm g m)"
    using p assms(2) by (auto simp: same_view_def healthy_def)
  have "execute procno req (gr_rsm h p) = Returns (r, executed v u (gr_rsm g p))"
    using p(1,3) assms(3) h(3) by (simp add: execute_def same_view_def executed_def)
  then show ?thesis
    using client_invoke_eq [OF p(1,2) h(1)] h by auto
qed

lemma executed_synced:
  assumes "synced procs p view v sm g" and "healthy view g" and "\<forall>m \<in> set view. gr_rsm h m = executed v u (gr_rsm g m)" and "gr_down h = gr_down g"
  shows "synced procs p view (next_vs v) u h \<and> healthy view h"
proof -
  have "rm_dopartition (executed v u s) = rm_dopartition s" for s
    by (simp add: executed_def)
  then show ?thesis
    using assms by (auto simp: synced_def healthy_def answers_def intro!: executed_view)
qed

lemma invoke_all_ok:
  assumes "synced procs p view v sm g" and "healthy view g" and "\<forall>iv \<in> set ivs. iv_fates iv = delivered"
    and "run_log procs (map iv_req ivs) sm = Some (rs, t)"
  shows "\<exists>h. invoke_all ivs p g = (map (\<lambda>r. Some (RC_OK, r)) rs, h) \<and> (\<forall>m \<in> set view. rm_sm (gr_rsm h m) = t)"
  using assms
proof (induction ivs arbitrary: v sm g rs)
  case Nil
  then show ?case
    by (simp add: synced_def)
next
  case (Cons iv ivs)
  obtain procno req where q: "iv_req iv = (procno, req)"
    by fastforce
  then obtain r u ws where r: "rsm_exec procs procno req sm = Returns (r, u)" "run_log procs (map iv_req ivs) u = Some (ws, t)" "rs = r # ws"
    using Cons.prems(4) by (auto split: outcome.splits option.splits)
  obtain h where h: "client_invoke (iv_binds iv) delivered procno req p g = (Some (RC_OK, r), h)" "gr_down h = gr_down g"
      "\<forall>m \<in> set view. gr_rsm h m = executed v u (gr_rsm g m)"
    using client_invoke_ok [OF Cons.prems(1,2) r(1), of "iv_binds iv"] by blast
  have p: "p \<notin> set (gr_down g)"
    using Cons.prems(1,2) by (auto simp: synced_def healthy_def answers_def)
  have "synced procs p view (next_vs v) u h" "healthy view h"
    using executed_synced [OF Cons.prems(1,2) h(3,2)] by simp_all
  from Cons.IH [OF this _ r(2)] Cons.prems(3) obtain k where
      "invoke_all ivs p h = (map (\<lambda>r. Some (RC_OK, r)) ws, k)" "\<forall>m \<in> set view. rm_sm (gr_rsm k m) = t"
    by auto
  then show ?case
    using h(1) p q r(3) Cons.prems(3) by simp
qed

section \<open>Requests and replies\<close>

lemma m_str_written: "m_written m = replicate RPC_HEADER_SZ None @ map Some s \<Longrightarrow> m_str m = s"
  by (simp add: m_str_def get_content_written)

lemma take_content_simps:
  "u_rest (take_content junk s) = s" "u_ok (take_content junk s)"
  "RPC_HEADER_SZ + length s < 2 ^ 31 \<Longrightarrow> u_wf (take_content junk s)"
  by (auto simp: u_wf_def u_rest_def take_content_def)

text \<open>A result that a replica puts into its reply and the client takes out of it.\<close>

definition reply_of :: "u32 \<Rightarrow> string \<Rightarrow> string" where
  "reply_of ret rep = m_str (put_string (put_int marshall_new ret) rep)"

lemma reply_of_eq: "reply_of ret rep = be32 ret @ enc_string rep"
proof -
  have "m_written (put_string (put_int marshall_new ret) rep) = replicate RPC_HEADER_SZ None @ map Some (be32 ret @ enc_string rep)"
    by (simp add: string_c.put_written int_c.put_written int_c.put_wf m_wf_new m_written_new)
  then show ?thesis
    using m_str_written unfolding reply_of_def by blast
qed

lemma reply_read:
  assumes "RPC_HEADER_SZ + length (be32 ret @ enc_string rep) < 2 ^ 31"
  shows "\<exists>u v. get_int (take_content [] (reply_of ret rep)) = (ret, u) \<and> get_string u = (rep, v) \<and> u_okdone v"
proof -
  let ?u = "take_content [] (reply_of ret rep)"
  have u: "u_wf ?u" "u_ok ?u" "u_rest ?u = be32 ret @ enc_string rep"
    using assms by (simp_all add: take_content_simps reply_of_eq)
  have i: "get_int ?u = (ret, u_skip (length (be32 ret)) ?u)"
    using int_c.get_enc [OF u] .
  define w where "w = u_skip (length (be32 ret)) ?u"
  have w: "u_wf w" "u_ok w" "u_rest w = enc_string rep"
    using u by (auto simp: w_def)
  show ?thesis
    using i string_c.get_enc_only [OF w] u_okdone_skip [OF w(1,2)] w(3) unfolding w_def [symmetric] by simp
qed

text \<open>Invoking a procedure on one replica.\<close>

definition exec_invoke :: "(u32 \<rightharpoonup> 's handler) \<Rightarrow> u32 \<Rightarrow> string \<Rightarrow> 's \<Rightarrow> (u32 \<times> string \<times> 's) outcome" where
  "exec_invoke procs procno req sm = obind (rsm_exec procs procno req sm) (\<lambda>(r, sm). Returns (rc_code RC_OK, r, sm))"

lemma rsm_exec_fn3:
  assumes "codec p1 g1 e1" and "codec p2 g2 e2" and "codec p3 g3 e3"
    and "procs procno = Some (rsm_fn3 g1 g2 g3 pR meth)" and "RPC_HEADER_SZ + length (e1 a1 @ e2 a2 @ e3 a3) < 2 ^ 31"
  shows "rsm_exec procs procno (m_str (p3 (p2 (p1 marshall_new a1) a2) a3)) sm
    = obind (meth a1 a2 a3 sm) (\<lambda>(ret, r, sm). Returns (reply_of ret (m_str (pR marshall_new r)), sm))"
proof -
  have "m_written (p3 (p2 (p1 marshall_new a1) a2) a3) = replicate RPC_HEADER_SZ None @ map Some (e1 a1 @ e2 a2 @ e3 a3)"
    using assms(1-3) by (simp add: codec.put_wf codec.put_written m_wf_new m_written_new)
  from m_str_written [OF this] have q: "m_str (p3 (p2 (p1 marshall_new a1) a2) a3) = e1 a1 @ e2 a2 @ e3 a3" .
  let ?u = "take_content [] (e1 a1 @ e2 a2 @ e3 a3)"
  have u: "u_wf ?u" "u_ok ?u" "u_rest ?u = e1 a1 @ e2 a2 @ e3 a3"
    using assms(5) by (simp_all add: take_content_simps)
  have "rsm_fn3 g1 g2 g3 pR meth ?u marshall_new sm = obind (meth a1 a2 a3 sm) (\<lambda>(b, r, s). Returns (b, pR marshall_new r, s))"
    using get3 [OF assms(1-3) u] by (auto simp: rsm_fn3_def rsm_meth_def)
  then show ?thesis
    using assms(4) q by (cases "meth a1 a2 a3 sm") (auto simp: rsm_exec_def reply_of_def)
qed

section \<open>Properties\<close>

text \<open>C8: The client finds the primary: when the nodes it tries before some member of the view do not answer, and
  the view itself is undisturbed, \<open>invoke\<close> ends after at most two more turns than there are such
  nodes, with the reply of the service, and every replica has executed the request.\<close>

theorem client_finds_primary:
  assumes "synced procs p view v sm g" and "healthy view g" and "rsm_exec procs procno req sm = Returns (r, u)"
    and "rc_primary c # rev (rc_known c) = ds @ m # rest" and "\<forall>d \<in> set ds. \<not> answers d g" and "m \<in> set view"
  shows "\<exists>c' h. session (length ds + 2) binds delivered procno req c g = Returns (Some r, c', h) \<and> rc_primary c' = p
    \<and> (\<forall>x \<in> set view. rm_sm (gr_rsm h x) = u)"
  using assms(4,5)
proof (induction ds arbitrary: c)
  case Nil
  then have m: "rc_primary c = m"
    by simp
  have p: "p \<in> set view" "answers p g" "answers m g"
    using assms(1,2,6) by (auto simp: synced_def healthy_def)
  have ok: "\<exists>h. session_turn binds delivered procno req c g = Returns (Some r, c, h) \<and> (\<forall>x \<in> set view. rm_sm (gr_rsm h x) = u)"
    if "rc_primary c = p" for c
    using client_invoke_ok [OF assms(1-3), of binds] p that
    by (auto simp: session_turn_def call_invoke_def invoke_turn_def delivered_def [abs_def])
  show ?case
  proof (cases "m = p")
    case True
    then show ?thesis
      using ok [of c] m by auto
  next
    case False
    let ?c = "\<lparr>rc_known = view, rc_primary = p\<rparr>"
    have sv: "same_view procs p view m (gr_rsm g m)"
      using assms(1,6) by (simp add: synced_def)
    have "client_members (gr_rsm g m) = (view @ [p], gr_rsm g m)"
      using sv rsm_view_same [OF sv, of "gr_rsm g m"] by (simp add: client_members_def same_view_def)
    moreover have "client_invoke binds delivered procno req m g = (Some (RC_NOTPRIMARY, []), g)"
      using sv False by (simp add: client_invoke_def same_view_def)
    moreover have "gr_set m (gr_rsm g m) g = g"
      by (simp add: gr_set_def)
    ultimately have "session_turn binds delivered procno req c g = Returns (None, ?c, g)"
      using m p(3) by (simp add: session_turn_def call_invoke_def call_members_def invoke_turn_def init_members_def)
    then show ?thesis
      using ok [of ?c] by auto
  qed
next
  case (Cons d ds)
  have d: "rc_primary c = d" "rev (rc_known c) = ds @ m # rest" "\<not> answers d g"
    using Cons.prems by simp_all
  then obtain ks k where k: "rc_known c = ks @ [k]"
    by (cases "rc_known c" rule: rev_cases) auto
  let ?c = "c\<lparr>rc_primary := last (rc_known c), rc_known := butlast (rc_known c)\<rparr>"
  have "session_turn binds delivered procno req c g = Returns (None, ?c, g)"
    using d k by (simp add: session_turn_def call_invoke_def invoke_turn_def primary_failure_def)
  then show ?case
    using Cons.IH [of ?c] Cons.prems(2) d(2) k by simp
qed

theorem client_finds_primary_witness:
  "\<exists>r c' h. session 3 (\<lambda>_. True) delivered 7 [] \<lparr>rc_known = [''A'', ''B''], rc_primary = ''Z''\<rparr>
      ((ex_group [''A'', ''B'', ''C''])\<lparr>gr_down := [''Z'']\<rparr>) = Returns (Some r, c', h)
    \<and> rc_primary c' = ''A'' \<and> rm_sm (gr_rsm h ''C'') = 1"
proof -
  let ?g = "(ex_group [''A'', ''B'', ''C''])\<lparr>gr_down := [''Z'']\<rparr>"
  have "synced [7 \<mapsto> ex_count] ''A'' [''A'', ''B'', ''C''] \<lparr>vs_vid = 1, vs_seqno = 1\<rparr> 0 (ex_group [''A'', ''B'', ''C''])"
    using ex_words by (intro ex_group_synced) simp_all
  then have s: "synced [7 \<mapsto> ex_count] ''A'' [''A'', ''B'', ''C''] \<lparr>vs_vid = 1, vs_seqno = 1\<rparr> 0 ?g"
    by (simp add: synced_def)
  obtain r where "rsm_exec [7 \<mapsto> ex_count] 7 [] 0 = Returns (r, 1)"
    using ex_exec [of 0] by auto
  then show ?thesis
    using client_finds_primary [OF s _ _ , of 7 "[]" r 1 "\<lparr>rc_known = [''A'', ''B''], rc_primary = ''Z''\<rparr>" "[''Z'']" "''B''" "[''A'']" "\<lambda>_. True"]
    by (fastforce simp: healthy_def answers_def ex_group_def ex_rsm_def numeral_3_eq_3)
qed

text \<open>C9: A call of the replicated service is a procedure call: the three-argument \<open>call\<close> template of the client, with
  a replica that executes the request, has the result and the effect of calling the method that was
  registered. The argument and result types are any whose \<open><<\<close> and \<open>>>\<close> operators form a \<open>codec\<close>.
  A negative return code comes without a result.\<close>

theorem rsm_call_is_call:
  assumes "codec p1 g1 e1" and "codec p2 g2 e2" and "codec p3 g3 e3" and "codec pR gR eR"
    and "procs proc = Some (rsm_fn3 g1 g2 g3 pR meth)" and "RPC_HEADER_SZ + length (e1 a1 @ e2 a2 @ e3 a3) < 2 ^ 31"
    and "\<And>ret r s'. meth a1 a2 a3 sm = Returns (ret, r, s') \<Longrightarrow> RPC_HEADER_SZ + 8 + length (eR r) < 2 ^ 31"
  shows "rcall3 (exec_invoke procs) p1 p2 p3 gR proc a1 a2 a3 sm =
    obind (meth a1 a2 a3 sm) (\<lambda>(ret, r, sm). Returns (ret, if sint ret < 0 then None else Some r, sm))"
proof (cases "meth a1 a2 a3 sm")
  case Aborts
  then show ?thesis
    using rsm_exec_fn3 [where meth = meth and pR = pR and procs = procs and sm = sm, OF assms(1-3) _ assms(6), of proc] assms(5) by (simp add: rcall3_def rcall_m_def exec_invoke_def)
next
  case (Returns x)
  obtain ret r s' where x: "x = (ret, r, s')"
    using prod_cases3 by blast
  have len: "RPC_HEADER_SZ + 8 + length (eR r) < 2 ^ 31"
    using assms(7) Returns x by blast
  have res: "m_str (pR marshall_new r) = eR r"
    using assms(4) by (intro m_str_written) (simp add: codec.put_written m_wf_new m_written_new)
  obtain u v where uv: "get_int (take_content [] (reply_of ret (eR r))) = (ret, u)" "get_string u = (eR r, v)" "u_okdone v"
    using reply_read [of ret "eR r"] len by (auto simp: enc_string_def)
  define w where "w = take_content [] (eR r)"
  have w: "u_wf w" "u_ok w" "u_rest w = eR r"
    using len by (simp_all add: w_def take_content_simps)
  have "gR w = (r, u_skip (length (eR r)) w)" "u_okdone (u_skip (length (eR r)) w)"
    using codec.get_enc_only [OF assms(4) w] u_okdone_skip [OF w(1,2)] w(3) by simp_all
  then show ?thesis
    using rsm_exec_fn3 [where meth = meth and pR = pR and procs = procs and sm = sm, OF assms(1-3) _ assms(6), of proc] assms(5) Returns x uv
    by (simp add: rcall3_def rcall_m_def exec_invoke_def res flip: w_def)
qed

theorem rsm_call_is_call_witness:
  "rcall3 (exec_invoke [9 \<mapsto> rsm_fn3 get_ull get_string get_int put_int (\<lambda>i str a n. Returns (0, 7, n + length str))])
     put_ull put_string put_int get_int 9 2 ''abc'' 5 (10::nat) = Returns (0, Some 7, 13)"
  using rsm_call_is_call [OF ull_c.codec_axioms string_c.codec_axioms int_c.codec_axioms int_c.codec_axioms,
      where procs = "[9 \<mapsto> rsm_fn3 get_ull get_string get_int put_int (\<lambda>i str a n. Returns (0, 7, n + length str))]" and proc = 9
        and ?a1.0 = 2 and ?a2.0 = "''abc''" and ?a3.0 = 5 and sm = 10 and meth = "\<lambda>i str a n. Returns (0, 7, n + length str)"]
  by (simp add: enc_string_def RPC_HEADER_SZ_def sizeof_rpc_sz_def)

text \<open>C6: An undisturbed group is one server: any sequence of requests that a single server could execute is answered by the
  group with exactly the replies of that server, and leaves every replica in its state.\<close>

theorem group_implements_service:
  assumes "synced procs p view v sm g" and "healthy view g" and "\<forall>iv \<in> set ivs. iv_fates iv = delivered"
    and "run_log procs (map iv_req ivs) sm = Some (rs, t)"
  shows "\<exists>h. invoke_all ivs p g = (map (\<lambda>r. Some (RC_OK, r)) rs, h) \<and> (\<forall>m \<in> set view. rm_sm (gr_rsm h m) = t)"
  using invoke_all_ok [OF assms] .

theorem group_implements_service_witness:
  "\<exists>rs h. invoke_all (replicate 2 \<lparr>iv_binds = \<lambda>_. True, iv_fates = delivered, iv_req = (7, [])\<rparr>) ''A'' (ex_group [''A'', ''B'', ''C''])
      = (map (\<lambda>r. Some (RC_OK, r)) rs, h) \<and> length rs = 2 \<and> rm_sm (gr_rsm h ''C'') = 2"
proof -
  have s: "synced [7 \<mapsto> ex_count] ''A'' [''A'', ''B'', ''C''] \<lparr>vs_vid = 1, vs_seqno = 1\<rparr> 0 (ex_group [''A'', ''B'', ''C''])"
    using ex_words by (intro ex_group_synced) simp_all
  have h: "healthy [''A'', ''B'', ''C''] (ex_group [''A'', ''B'', ''C''])"
    by (simp add: healthy_def answers_def ex_group_def ex_rsm_def)
  let ?ivs = "replicate 2 \<lparr>iv_binds = \<lambda>_. True, iv_fates = delivered, iv_req = (7, [])\<rparr>"
  obtain r1 r2 where "rsm_exec [7 \<mapsto> ex_count] 7 [] 0 = Returns (r1, 1)" "rsm_exec [7 \<mapsto> ex_count] 7 [] 1 = Returns (r2, 2)"
    using ex_exec [of 0] ex_exec [of 1] by (auto simp: numeral_2_eq_2)
  then have r: "run_log [7 \<mapsto> ex_count] (map iv_req ?ivs) 0 = Some ([r1, r2], 2)"
    by (simp add: numeral_2_eq_2)
  show ?thesis
    using group_implements_service [OF s h _ r] by (auto intro!: exI [of _ "[r1, r2]"])
qed

end
