(* ===== verification/Lock_Rsm.thy ===== *)
theory Lock_Rsm
  imports Rsm_Client Lock_Server Fifo
begin

text \<open>
  The lock server that runs on the replicated state machine (lock_server_cache_rsm.cc, lock_server_cache_rsm.h).

  \<^item> The lock map is a key-sorted association list. A pointer to one of its items, as the two queues hold them,
    is a lock identifier with the number of times the map had been cleared when the pointer was taken:
    clearing the map frees the items, so that a pointer with an older number dangles.
  \<^item> \<open>lr_held\<close> tells that \<open>m_lock_mutex_\<close> was left locked; a call that then waits for it never returns, which is the
    outcome \<open>Aborts\<close>, as is following a dangling pointer.
  \<^item> \<open>revoker\<close> and \<open>retryer\<close> are their turns; the result is the call that is made to a client.
  \<^item> The server is an instance of the state transfer contract of \<open>Rsm\<close>, and its handlers are what \<open>execute\<close>
    runs, so that the results on groups hold of replicated locks.
\<close>

section \<open>State\<close>

record lock_item =
  li_locked :: bool
  li_lid :: lockid_t
  li_user :: string
  li_info :: "(string, u64) omap"
  li_retry :: "string list"
  li_revoke :: "string list"

definition lock_item_new :: lock_item where
  "lock_item_new = \<lparr>li_locked = False, li_lid = 0, li_user = [], li_info = [], li_retry = [], li_revoke = []\<rparr>"

type_synonym item_ptr = "nat \<times> lockid_t"

record lock_rsm =
  lr_nacquire :: u32
  lr_map :: "(lockid_t, lock_item) omap"
  lr_clears :: nat
  lr_retry :: "item_ptr list"
  lr_revoke :: "item_ptr list"
  lr_held :: bool

definition lock_rsm_new :: lock_rsm where
  "lock_rsm_new = \<lparr>lr_nacquire = 0, lr_map = [], lr_clears = 0, lr_retry = [], lr_revoke = [], lr_held = False\<rparr>"

text \<open>\<open>map_lock_[lid]\<close> and \<open>lock_info_[id]\<close>: an absent entry is created.\<close>

definition item_at :: "lockid_t \<Rightarrow> lock_rsm \<Rightarrow> lock_item" where
  "item_at lid s = (case map_of (lr_map s) lid of Some x \<Rightarrow> x | None \<Rightarrow> lock_item_new)"

definition put_item_at :: "lockid_t \<Rightarrow> lock_item \<Rightarrow> lock_rsm \<Rightarrow> lock_rsm" where
  "put_item_at lid x s = s\<lparr>lr_map := om_put lid x (lr_map s)\<rparr>"

definition info_at :: "string \<Rightarrow> lock_item \<Rightarrow> u64" where
  "info_at c x = (case map_of (li_info x) c of Some n \<Rightarrow> n | None \<Rightarrow> 0)"

definition touch_info :: "string \<Rightarrow> lock_item \<Rightarrow> lock_item" where
  "touch_info c x = x\<lparr>li_info := om_put c (info_at c x) (li_info x)\<rparr>"

section \<open>Handlers\<close>

primrec acq_code :: "acq_ret \<Rightarrow> u32" where
  "acq_code Acq_OK = 0"
| "acq_code Acq_RETRY = 1"

definition lsr_acquire :: "lockid_t \<Rightarrow> string \<Rightarrow> u64 \<Rightarrow> lock_rsm \<Rightarrow> (u32 \<times> u32 \<times> lock_rsm) outcome" where
  "lsr_acquire lid c xid s =
     (if lr_held s then Aborts
      else let x = touch_info c (item_at lid s)
           in if info_at c x < xid
              then if \<not> li_locked x
                   then Returns (lock_status_code L_OK, acq_code Acq_OK,
                          put_item_at lid (x\<lparr>li_locked := True, li_info := om_put c xid (li_info x), li_user := c, li_lid := lid\<rparr>) s)
                   else Returns (lock_status_code L_OK, acq_code Acq_RETRY,
                          (put_item_at lid (x\<lparr>li_retry := li_retry x @ [c], li_revoke := li_revoke x @ [li_user x]\<rparr>) s)
                            \<lparr>lr_revoke := lr_revoke s @ [(lr_clears s, lid)]\<rparr>)
              else Returns (lock_status_code L_RPCERR, acq_code Acq_RETRY, put_item_at lid x s))"

text \<open>\<open>release\<close> never assigns its result \<open>r\<close>, and does not unlock the mutex when the lock is unknown.\<close>

definition lsr_release :: "u32 \<Rightarrow> lockid_t \<Rightarrow> string \<Rightarrow> u64 \<Rightarrow> lock_rsm \<Rightarrow> (u32 \<times> u32 \<times> lock_rsm) outcome" where
  "lsr_release r lid c xid s =
     (if lr_held s then Aborts
      else if map_of (lr_map s) lid = None then Returns (lock_status_code L_OK, r, s\<lparr>lr_held := True\<rparr>)
      else let x = touch_info c (item_at lid s)
           in if info_at c x \<le> xid \<and> li_locked x
              then Returns (lock_status_code L_OK, r,
                     (put_item_at lid (if li_user x = c then x\<lparr>li_locked := False\<rparr> else x) s)\<lparr>lr_retry := lr_retry s @ [(lr_clears s, lid)]\<rparr>)
              else Returns (lock_status_code L_OK, r, put_item_at lid x s))"

definition lsr_stat :: "lockid_t \<Rightarrow> lock_rsm \<Rightarrow> (u32 \<times> u32 \<times> lock_rsm) outcome" where
  "lsr_stat lid s = Returns (lock_status_code L_OK, lr_nacquire s, s)"

text \<open>The procedures as lock_smain.cc registers them.\<close>

definition lsr_procs :: "u32 \<Rightarrow> u32 \<rightharpoonup> lock_rsm handler" where
  "lsr_procs r = [proc_acquire \<mapsto> rsm_fn3 get_ull get_string get_ull put_int lsr_acquire,
                  proc_release \<mapsto> rsm_fn3 get_ull get_string get_ull put_int (lsr_release r),
                  proc_stat \<mapsto> rsm_fn1 get_ull put_int lsr_stat]"

section \<open>Threads\<close>

text \<open>An item through a pointer; the pointer may dangle.\<close>

definition deref :: "item_ptr \<Rightarrow> lock_rsm \<Rightarrow> lock_item outcome" where
  "deref q s = (if fst q = lr_clears s then (case map_of (lr_map s) (snd q) of Some x \<Rightarrow> Returns x | None \<Rightarrow> Aborts) else Aborts)"

text \<open>A turn of \<open>revoker\<close>, with the client, lock and transaction of its revoke call; \<open>None\<close> while the queue is empty.\<close>

definition revoker_turn :: "bool \<Rightarrow> lock_rsm \<Rightarrow> ((string \<times> lockid_t \<times> u64) option \<times> lock_rsm) outcome option" where
  "revoker_turn primary s =
     (case lr_revoke s of
        [] \<Rightarrow> None
      | q # qs \<Rightarrow> Some (let s = s\<lparr>lr_revoke := qs\<rparr>
          in if \<not> primary then Returns (None, s)
             else if lr_held s then Aborts
             else obind (deref q s) (\<lambda>x.
               case li_revoke x of
                 [] \<Rightarrow> Aborts
               | c # cs \<Rightarrow> Returns (Some (c, li_lid x, info_at c x), put_item_at (snd q) ((touch_info c x)\<lparr>li_revoke := cs\<rparr>) s))))"

text \<open>\<open>retryer\<close> takes a pointer and then makes a retry call for every waiting client, until none is left.\<close>

definition retryer_deq :: "bool \<Rightarrow> lock_rsm \<Rightarrow> (item_ptr option \<times> lock_rsm) option" where
  "retryer_deq primary s =
     (case lr_retry s of [] \<Rightarrow> None | q # qs \<Rightarrow> Some (if primary then Some q else None, s\<lparr>lr_retry := qs\<rparr>))"

definition retryer_turn :: "item_ptr \<Rightarrow> lock_rsm \<Rightarrow> ((string \<times> lockid_t \<times> u64) option \<times> lock_rsm) outcome" where
  "retryer_turn q s =
     (if lr_held s then Aborts
      else obind (deref q s) (\<lambda>x.
        case li_retry x of
          [] \<Rightarrow> Returns (None, s)
        | c # cs \<Rightarrow> Returns (Some (c, li_lid x, info_at c x), put_item_at (snd q) ((touch_info c x)\<lparr>li_retry := cs\<rparr>) s)))"

section \<open>State transfer\<close>

definition put_lock_item :: "marshall \<Rightarrow> lock_item \<Rightarrow> marshall" where
  "put_lock_item m x =
     (let m = put_bool m (li_locked x); m = put_ull m (li_lid x); m = put_string m (li_user x);
          m = put_vector (put_pair put_string put_ull) m (li_info x);
          m = put_vector put_string m (li_retry x)
      in put_vector put_string m (li_revoke x))"

text \<open>The entries of \<open>lock_info_\<close> in the order in which they are read; \<open>build_item\<close> inserts them.\<close>

definition get_lock_item :: "unmarshall \<Rightarrow> lock_item \<times> unmarshall" where
  "get_lock_item u =
     (let (l, u) = get_bool u; (lid, u) = get_ull u; (c, u) = get_string u;
          (i, u) = get_vector (get_pair get_string get_ull) u;
          (r, u) = get_vector get_string u; (v, u) = get_vector get_string u
      in (\<lparr>li_locked = l, li_lid = lid, li_user = c, li_info = i, li_retry = r, li_revoke = v\<rparr>, u))"

definition build_item :: "lock_item \<Rightarrow> lock_item" where
  "build_item x = x\<lparr>li_info := foldl (\<lambda>d (k, v). om_put k v d) [] (li_info x)\<rparr>"

definition marshal_state :: "lock_rsm \<Rightarrow> string outcome" where
  "marshal_state s = (if lr_held s then Aborts else Returns (m_str (put_vector (put_pair put_ull put_lock_item) marshall_new (lr_map s))))"

definition unmarshal_state :: "string \<Rightarrow> lock_rsm \<Rightarrow> lock_rsm outcome" where
  "unmarshal_state w s =
     (if lr_held s then Aborts
      else let (xs, u) = get_vector (get_pair get_ull get_lock_item) (take_content [] w)
           in Returns (s\<lparr>lr_map := foldl (\<lambda>d (k, x). om_put k (build_item x) d) [] xs, lr_clears := lr_clears s + 1\<rparr>))"

section \<open>The state is restored\<close>

interpretation string_ull_pair: codec_pair put_string get_string enc_string put_ull get_ull be64
  by unfold_locales

definition enc_lock_item :: "lock_item \<Rightarrow> string" where
  "enc_lock_item x = [char_of_byte (of_bool (li_locked x))] @ be64 (li_lid x) @ enc_string (li_user x)
     @ enc_vector (\<lambda>ab. enc_string (fst ab) @ be64 (snd ab)) (li_info x)
     @ enc_vector enc_string (li_retry x) @ enc_vector enc_string (li_revoke x)"

interpretation lock_item_c: codec put_lock_item get_lock_item enc_lock_item
  by (rule codec_structI [OF codec_pairI [OF bool_c.codec_axioms codec_pairI [OF ull_c.codec_axioms
        codec_pairI [OF string_c.codec_axioms codec_pairI [OF codec.vector_codec [OF string_ull_pair.pair_codec]
        codec_pairI [OF string_c.vector_codec string_c.vector_codec]]]]],
      where tup = "\<lambda>x. (li_locked x, li_lid x, li_user x, li_info x, li_retry x, li_revoke x)"
        and of_tup = "\<lambda>(l, i, c, f, r, v). \<lparr>li_locked = l, li_lid = i, li_user = c, li_info = f, li_retry = r, li_revoke = v\<rparr>"])
    (simp_all add: put_lock_item_def get_lock_item_def enc_lock_item_def struct_defs)

interpretation lock_entry: codec_pair put_ull get_ull be64 put_lock_item get_lock_item enc_lock_item
  by unfold_locales

definition enc_lock_map :: "(lockid_t, lock_item) omap \<Rightarrow> string" where
  "enc_lock_map = enc_vector (\<lambda>ab. be64 (fst ab) @ enc_lock_item (snd ab))"

interpretation lock_map_c: codec "put_vector (put_pair put_ull put_lock_item)" "get_vector (get_pair get_ull get_lock_item)" enc_lock_map
  unfolding enc_lock_map_def by (rule codec.vector_codec [OF lock_entry.pair_codec])

definition lsr_wf :: "lock_rsm \<Rightarrow> bool" where
  "lsr_wf s = (om_wf (lr_map s) \<and> (\<forall>x \<in> snd ` set (lr_map s). om_wf (li_info x)))"

text \<open>The state fits the buffers of the marshaller and the mutex is free.\<close>

definition lsr_sendable :: "lock_rsm \<Rightarrow> bool" where
  "lsr_sendable s = (lsr_wf s \<and> \<not> lr_held s \<and> length (enc_lock_map (lr_map s)) < 2 ^ 31 - RPC_HEADER_SZ)"

lemma build_item_wf: "om_wf (li_info x) \<Longrightarrow> build_item x = x"
  using foldl_om_put [of "[]" "li_info x"] by (simp add: build_item_def)

lemma build_items:
  assumes "om_wf m" and "\<forall>x \<in> snd ` set m. om_wf (li_info x)"
  shows "foldl (\<lambda>d (k, x). om_put k (build_item x) d) [] m = m"
proof -
  have "foldl (\<lambda>d (k, x). om_put k (build_item x) d) d xs = foldl (\<lambda>d (k, x). om_put k x d) d xs"
    if "\<forall>x \<in> snd ` set xs. om_wf (li_info x)" for d xs
    using that by (induction xs arbitrary: d) (auto simp: build_item_wf)
  from this [OF assms(2)] show ?thesis
    using foldl_om_put [of "[]" m] assms(1) by simp
qed

lemma lock_state_restored:
  assumes "lsr_sendable s" and "\<not> lr_held t"
  shows "\<exists>w. marshal_state s = Returns w \<and> unmarshal_state w t = Returns (t\<lparr>lr_map := lr_map s, lr_clears := lr_clears t + 1\<rparr>)"
proof -
  obtain w u where "get_content (put_vector (put_pair put_ull put_lock_item) marshall_new (lr_map s)) = Some w"
      "get_vector (get_pair get_ull get_lock_item) (take_content [] w) = (lr_map s, u)"
    using lock_map_c.roundtrip [of "lr_map s" "[]"] assms(1) by (auto simp: lsr_sendable_def)
  then show ?thesis
    using assms build_items [of "lr_map s"]
    by (auto simp: marshal_state_def unmarshal_state_def m_str_def lsr_sendable_def lsr_wf_def)
qed

interpretation lsr_st: state_transfer marshal_state unmarshal_state lr_map lsr_sendable "\<lambda>t. \<not> lr_held t"
  using lock_state_restored by unfold_locales fastforce

section \<open>Sequences of events\<close>

datatype lsr_ev =
  Acquire lockid_t string u64
| Release u32 lockid_t string u64
| Stat lockid_t
| Revoke bool
| Deq bool
| Retry item_ptr
| Unmarshal string

text \<open>What an event does, and whether it grants a lock; \<open>Aborts\<close> also if a thread finds its queue empty.\<close>

fun lsr_do :: "lsr_ev \<Rightarrow> lock_rsm \<Rightarrow> (bool \<times> lock_rsm) outcome" where
  "lsr_do (Acquire lid c xid) s = obind (lsr_acquire lid c xid s) (\<lambda>(st, r, s). Returns (st = lock_status_code L_OK \<and> r = acq_code Acq_OK, s))"
| "lsr_do (Release r lid c xid) s = obind (lsr_release r lid c xid s) (\<lambda>(st, r, s). Returns (False, s))"
| "lsr_do (Stat lid) s = obind (lsr_stat lid s) (\<lambda>(st, r, s). Returns (False, s))"
| "lsr_do (Revoke primary) s = (case revoker_turn primary s of None \<Rightarrow> Aborts | Some x \<Rightarrow> obind x (\<lambda>(call, s). Returns (False, s)))"
| "lsr_do (Deq primary) s = (case retryer_deq primary s of None \<Rightarrow> Aborts | Some (q, s) \<Rightarrow> Returns (False, s))"
| "lsr_do (Retry q) s = obind (retryer_turn q s) (\<lambda>(call, s). Returns (False, s))"
| "lsr_do (Unmarshal w) s = obind (unmarshal_state w s) (\<lambda>s. Returns (False, s))"

fun lsr_run :: "lsr_ev list \<Rightarrow> lock_rsm \<Rightarrow> (bool list \<times> lock_rsm) outcome" where
  "lsr_run [] s = Returns ([], s)"
| "lsr_run (e # es) s = obind (lsr_do e s) (\<lambda>(b, s). obind (lsr_run es s) (\<lambda>(bs, s). Returns (b # bs, s)))"

definition holds :: "lockid_t \<Rightarrow> string \<Rightarrow> lock_rsm \<Rightarrow> bool" where
  "holds lid c s = (\<exists>x. map_of (lr_map s) lid = Some x \<and> li_locked x \<and> li_user x = c)"

text \<open>The pointers to a lock among those of a queue that do not dangle.\<close>

definition ptrs_ok :: "lock_rsm \<Rightarrow> bool" where
  "ptrs_ok s =
     ((\<forall>q \<in> set (lr_revoke s) \<union> set (lr_retry s). fst q = lr_clears s \<and> map_of (lr_map s) (snd q) \<noteq> None)
      \<and> (\<forall>lid x. map_of (lr_map s) lid = Some x \<longrightarrow> length (filter (\<lambda>q. snd q = lid) (lr_revoke s)) \<le> length (li_revoke x)))"

subsection \<open>Lemmas\<close>

lemma lookup_put_item [simp]:
  "map_of (lr_map (put_item_at lid x s)) = (map_of (lr_map s))(lid \<mapsto> x)"
  by (simp add: put_item_at_def map_of_om_put)

lemma put_item_simps [simp]:
  "lr_held (put_item_at lid x s) = lr_held s" "lr_clears (put_item_at lid x s) = lr_clears s"
  "lr_retry (put_item_at lid x s) = lr_retry s" "lr_revoke (put_item_at lid x s) = lr_revoke s"
  by (simp_all add: put_item_at_def)

lemma touch_info_simps [simp]:
  "li_locked (touch_info c x) = li_locked x" "li_user (touch_info c x) = li_user x" "li_retry (touch_info c x) = li_retry x"
  "li_revoke (touch_info c x) = li_revoke x" "li_lid (touch_info c x) = li_lid x"
  by (simp_all add: touch_info_def)

lemma lsr_do_cases:
  assumes "lsr_do e s = Returns (b, t)"
  obtains
    (acquire) lid c xid x where "e = Acquire lid c xid" "x = touch_info c (item_at lid s)"
      "(\<not> li_locked x \<and> b \<and> t = put_item_at lid (x\<lparr>li_locked := True, li_info := om_put c xid (li_info x), li_user := c, li_lid := lid\<rparr>) s)
       \<or> (li_locked x \<and> \<not> b \<and> t = (put_item_at lid (x\<lparr>li_retry := li_retry x @ [c], li_revoke := li_revoke x @ [li_user x]\<rparr>) s)
            \<lparr>lr_revoke := lr_revoke s @ [(lr_clears s, lid)]\<rparr>)
       \<or> (\<not> b \<and> t = put_item_at lid x s)"
  | (unknown) r lid c xid where "e = Release r lid c xid" "\<not> b" "t = s\<lparr>lr_held := True\<rparr>"
  | (release) r lid c xid x where "e = Release r lid c xid" "\<not> b" "map_of (lr_map s) lid = Some x"
      "t = put_item_at lid (touch_info c x) s
       \<or> t = (put_item_at lid (if li_user x = c then (touch_info c x)\<lparr>li_locked := False\<rparr> else touch_info c x) s)\<lparr>lr_retry := lr_retry s @ [(lr_clears s, lid)]\<rparr>"
  | (stat) lid where "e = Stat lid" "\<not> b" "t = s"
  | (revoke_skip) primary q qs where "e = Revoke primary" "\<not> b" "lr_revoke s = q # qs" "t = s\<lparr>lr_revoke := qs\<rparr>"
  | (revoke) primary q qs x c cs where "e = Revoke primary" "\<not> b" "lr_revoke s = q # qs" "map_of (lr_map s) (snd q) = Some x" "li_revoke x = c # cs"
      "t = put_item_at (snd q) ((touch_info c x)\<lparr>li_revoke := cs\<rparr>) (s\<lparr>lr_revoke := qs\<rparr>)"
  | (deq) primary q qs where "e = Deq primary" "\<not> b" "lr_retry s = q # qs" "t = s\<lparr>lr_retry := qs\<rparr>"
  | (retry_none) q where "e = Retry q" "\<not> b" "t = s"
  | (retry) q x c cs where "e = Retry q" "\<not> b" "map_of (lr_map s) (snd q) = Some x" "li_retry x = c # cs"
      "t = put_item_at (snd q) ((touch_info c x)\<lparr>li_retry := cs\<rparr>) s"
  | (unmarshal) w xs where "e = Unmarshal w" "\<not> b" "t = s\<lparr>lr_map := foldl (\<lambda>d (k, x). om_put k (build_item x) d) [] xs, lr_clears := lr_clears s + 1\<rparr>"
proof (cases e)
  case (Acquire lid c xid)
  then show ?thesis
    using assms by (intro that(1) [of lid c xid "touch_info c (item_at lid s)"])
      (auto simp: lsr_acquire_def obind_Returns_iff Let_def split: if_splits)
next
  case (Release r lid c xid)
  show ?thesis
  proof (cases "map_of (lr_map s) lid")
    case None
    then show ?thesis
      using assms Release that(2) by (auto simp: lsr_release_def obind_Returns_iff Let_def split: if_splits)
  next
    case (Some x)
    then have "item_at lid s = x"
      by (simp add: item_at_def)
    then show ?thesis
      using assms Release Some by (intro that(3) [of r lid c xid x])
        (auto simp: lsr_release_def obind_Returns_iff Let_def split: if_splits)
  qed
next
  case (Stat lid)
  then show ?thesis
    using assms that(4) by (simp add: lsr_stat_def)
next
  case (Revoke primary)
  then obtain q qs where q: "lr_revoke s = q # qs"
    using assms by (cases "lr_revoke s") (auto simp: revoker_turn_def)
  then show ?thesis
    using assms Revoke that(5) [of primary q qs] that(6) [of primary q qs]
    by (auto simp: revoker_turn_def deref_def obind_Returns_iff Let_def split: if_splits option.splits list.splits)
next
  case (Deq primary)
  then obtain q qs where q: "lr_retry s = q # qs"
    using assms by (cases "lr_retry s") (auto simp: retryer_deq_def)
  then show ?thesis
    using assms Deq that(7) [of primary q qs] by (auto simp: retryer_deq_def)
next
  case (Retry q)
  then show ?thesis
    using assms that(8) [of q] that(9) [of q]
    by (auto simp: retryer_turn_def deref_def obind_Returns_iff split: if_splits option.splits list.splits)
next
  case (Unmarshal w)
  then show ?thesis
    using assms that(10) [of w] by (auto simp: unmarshal_state_def obind_Returns_iff split: if_splits prod.splits)
qed

lemma item_at_holds: "holds lid c s \<Longrightarrow> li_locked (item_at lid s) \<and> li_user (item_at lid s) = c"
  by (auto simp: holds_def item_at_def)

lemma holds_put: "holds lid c (put_item_at lid' x s) = (if lid' = lid then li_locked x \<and> li_user x = c else holds lid c s)"
  by (auto simp: holds_def)

lemma holds_queues [simp]:
  "holds lid c (s\<lparr>lr_revoke := q\<rparr>) = holds lid c s" "holds lid c (s\<lparr>lr_retry := q\<rparr>) = holds lid c s" "holds lid c (s\<lparr>lr_held := h\<rparr>) = holds lid c s"
  by (simp_all add: holds_def)

lemma grant_holds: "lsr_do (Acquire lid c xid) s = Returns (True, t) \<Longrightarrow> holds lid c t"
  by (erule lsr_do_cases) (auto simp: holds_put)

text \<open>A lock stays with its holder until the holder releases it.\<close>

lemma holds_step:
  assumes "lsr_do e s = Returns (b, t)" and "holds lid c s" and "\<forall>r xid. e \<noteq> Release r lid c xid" and "\<forall>w. e \<noteq> Unmarshal w"
  shows "holds lid c t" and "\<forall>c' xid. e = Acquire lid c' xid \<longrightarrow> \<not> b"
proof -
  have x: "holds lid c s \<Longrightarrow> map_of (lr_map s) lid = Some x \<Longrightarrow> li_locked x \<and> li_user x = c" for x
    by (auto simp: holds_def)
  show "holds lid c t"
    using assms(1)
  proof (cases rule: lsr_do_cases)
    case (acquire lid' c' xid x)
    then show ?thesis
      using assms(2) item_at_holds [OF assms(2)] by (cases "lid' = lid") (auto simp: holds_put)
  next
    case (release r lid' c' xid x)
    then show ?thesis
      using assms(2,3) x [OF assms(2), of x] by (cases "lid' = lid") (auto simp: holds_put)
  next
    case (revoke primary q qs x c' cs)
    then show ?thesis
      using assms(2) x [OF assms(2), of x] by (auto simp: holds_put)
  next
    case (retry q x c' cs)
    then show ?thesis
      using assms(2) x [OF assms(2), of x] by (auto simp: holds_put)
  qed (use assms in auto)
  show "\<forall>c' xid. e = Acquire lid c' xid \<longrightarrow> \<not> b"
    using assms(1)
  proof (cases rule: lsr_do_cases)
    case (acquire lid' c' xid x)
    then show ?thesis
      using item_at_holds [OF assms(2)] by auto
  qed auto
qed

lemma lsr_run_append:
  "lsr_run (es @ fs) s = obind (lsr_run es s) (\<lambda>(bs, s). obind (lsr_run fs s) (\<lambda>(cs, s). Returns (bs @ cs, s)))"
proof (induction es arbitrary: s)
  case Nil
  then show ?case
    by (cases "lsr_run fs s") auto
next
  case (Cons e es)
  show ?case
  proof (cases "lsr_do e s")
    case (Returns x)
    obtain b t where x: "x = (b, t)"
      by fastforce
    show ?thesis
    proof (cases "lsr_run es t")
      case (Returns y)
      obtain bs u where "y = (bs, u)"
        by fastforce
      then show ?thesis
        using Cons.IH [of t] \<open>lsr_do e s = Returns x\<close> x Returns by (cases "lsr_run fs u") auto
    qed (use Cons.IH [of t] Returns x in simp)
  qed simp
qed

lemma lsr_run_length: "lsr_run es s = Returns (bs, t) \<Longrightarrow> length bs = length es"
  by (induction es arbitrary: s bs) (auto simp: obind_Returns_iff)

lemma holds_run:
  assumes "lsr_run es s = Returns (bs, t)" and "holds lid c s" and "j < length es" and "es ! j = Acquire lid c' xid'" and "bs ! j"
    and "\<forall>w. Unmarshal w \<notin> set es"
  shows "\<exists>k r xid. k < j \<and> es ! k = Release r lid c xid"
  using assms
proof (induction es arbitrary: s bs j)
  case (Cons e es)
  obtain b u cs where u: "lsr_do e s = Returns (b, u)" "lsr_run es u = Returns (cs, t)" "bs = b # cs"
    using Cons.prems(1) by (auto simp: obind_Returns_iff)
  show ?case
  proof (cases "\<exists>r xid. e = Release r lid c xid")
    case True
    then show ?thesis
      using Cons.prems(4) by (cases j) auto
  next
    case False
    then have n: "\<forall>r xid. e \<noteq> Release r lid c xid" "\<forall>w. e \<noteq> Unmarshal w"
      using Cons.prems(6) by auto
    note h = holds_step [OF u(1) Cons.prems(2) n]
    obtain i where i: "j = Suc i"
      using Cons.prems(4,5) u(3) h(2) by (cases j) auto
    then obtain k r xid where "k < i" "es ! k = Release r lid c xid"
      using Cons.IH [OF u(2) h(1), of i] Cons.prems u(3) by auto
    then show ?thesis
      using i by (intro exI [of _ "Suc k"]) auto
  qed
qed simp

lemma grants_separated:
  assumes "lsr_run es s = Returns (bs, t)" and "\<forall>w. Unmarshal w \<notin> set es" and "i < j" and "j < length es"
    and "es ! i = Acquire lid c xid" and "bs ! i" and "es ! j = Acquire lid c' xid'" and "bs ! j"
  shows "\<exists>k r xid. i < k \<and> k < j \<and> es ! k = Release r lid c xid"
proof -
  have es: "es = take i es @ Acquire lid c xid # drop (Suc i) es"
    using assms(3-5) id_take_nth_drop [of i es] by simp
  obtain as u b v cs where r: "lsr_run (take i es) s = Returns (as, u)" "lsr_do (Acquire lid c xid) u = Returns (b, v)"
      "lsr_run (drop (Suc i) es) v = Returns (cs, t)" "bs = as @ b # cs"
    using assms(1) by (subst (asm) es) (auto simp: lsr_run_append obind_Returns_iff)
  have "length as = i"
    using lsr_run_length [OF r(1)] assms(3,4) by simp
  then have b: "b" "cs ! (j - Suc i)"
    using r(4) assms(3,6,8) by (simp_all add: nth_append)
  have "holds lid c v"
    using grant_holds r(2) b(1) by simp
  moreover have "\<forall>w. Unmarshal w \<notin> set (drop (Suc i) es)"
    using assms(2) by (meson in_set_dropD)
  moreover have "j - Suc i < length (drop (Suc i) es)" "drop (Suc i) es ! (j - Suc i) = Acquire lid c' xid'"
    using assms(3,4,7) by simp_all
  ultimately obtain k r xid where "k < j - Suc i" "drop (Suc i) es ! k = Release r lid c xid"
    using holds_run [OF r(3)] b(2) by blast
  then show ?thesis
    using assms(3,4) by (intro exI [of _ "Suc i + k"]) auto
qed

lemma set_om_put_subset: "set (om_put k v m) \<subseteq> insert (k, v) (set m)"
  by (induction k v m rule: om_put.induct) auto

lemma lsr_wf_put:
  assumes "lsr_wf s" and "om_wf (li_info x)"
  shows "lsr_wf (put_item_at lid x s)"
  using assms set_om_put_subset [of lid x "lr_map s"] by (fastforce simp: lsr_wf_def put_item_at_def)

lemma lsr_wf_item: "lsr_wf s \<Longrightarrow> om_wf (li_info (item_at lid s))"
  by (auto simp: lsr_wf_def item_at_def lock_item_new_def split: option.splits dest!: map_of_SomeD)

lemma lsr_wf_lookup: "lsr_wf s \<Longrightarrow> map_of (lr_map s) lid = Some x \<Longrightarrow> om_wf (li_info x)"
  by (force simp: lsr_wf_def dest: map_of_SomeD)

lemma touch_info_wf: "om_wf (li_info x) \<Longrightarrow> om_wf (li_info (touch_info c x))"
  by (simp add: touch_info_def)

lemma foldl_om_put_wf: "om_wf d \<Longrightarrow> om_wf (foldl (\<lambda>d (k, v). om_put k v d) d ys)"
  by (induction ys arbitrary: d) (simp_all add: split_beta)

lemma build_item_info: "li_info (build_item x) = foldl (\<lambda>d (k, v). om_put k v d) [] (li_info x)"
  by (simp add: build_item_def)

lemma build_item_info_wf: "om_wf (li_info (build_item x))"
  unfolding build_item_info by (rule foldl_om_put_wf) (rule om_wf_Nil)

lemma build_map_wf:
  assumes "om_wf m" and "\<forall>x \<in> snd ` set m. om_wf (li_info x)"
  shows "om_wf (foldl (\<lambda>d (k, x). om_put k (build_item x) d) m xs)
    \<and> (\<forall>x \<in> snd ` set (foldl (\<lambda>d (k, x). om_put k (build_item x) d) m xs). om_wf (li_info x))"
  using assms
proof (induction xs arbitrary: m)
  case (Cons e xs)
  obtain k x where e: "e = (k, x)"
    by (cases e)
  have "om_wf (li_info y)" if y: "y \<in> snd ` set (om_put k (build_item x) m)" for y
  proof -
    have "y = build_item x \<or> y \<in> snd ` set m"
      using y set_om_put_subset [of k "build_item x" m] by auto
    then show ?thesis
      using Cons.prems(2) build_item_info_wf [of x] by (elim disjE) auto
  qed
  then have "\<forall>y \<in> snd ` set (om_put k (build_item x) m). om_wf (li_info y)"
    by blast
  from Cons.IH [OF om_wf_put [OF Cons.prems(1)] this] show ?case
    unfolding e foldl_Cons prod.case .
qed simp

lemma lsr_wf_queues [simp]:
  "lsr_wf (s\<lparr>lr_revoke := q\<rparr>) = lsr_wf s" "lsr_wf (s\<lparr>lr_retry := q\<rparr>) = lsr_wf s" "lsr_wf (s\<lparr>lr_held := h\<rparr>) = lsr_wf s"
  by (simp_all add: lsr_wf_def)

lemma lsr_do_wf:
  assumes "lsr_do e s = Returns (b, t)" and "lsr_wf s"
  shows "lsr_wf t"
  using assms(1)
proof (cases rule: lsr_do_cases)
  case (acquire lid c xid x)
  have "om_wf (li_info x)"
    unfolding acquire(2) by (intro touch_info_wf lsr_wf_item assms(2))
  then show ?thesis
    using acquire(3) assms(2) by (auto intro!: lsr_wf_put)
next
  case (release r lid c xid x)
  have "om_wf (li_info (touch_info c x))"
    by (intro touch_info_wf lsr_wf_lookup [OF assms(2) release(3)])
  then show ?thesis
    using release(4) assms(2) by (auto intro!: lsr_wf_put)
next
  case (revoke primary q qs x c cs)
  have "om_wf (li_info (touch_info c x))"
    by (intro touch_info_wf lsr_wf_lookup [OF assms(2) revoke(4)])
  then show ?thesis
    using revoke(6) assms(2) by (auto intro!: lsr_wf_put)
next
  case (retry q x c cs)
  have "om_wf (li_info (touch_info c x))"
    by (intro touch_info_wf lsr_wf_lookup [OF assms(2) retry(3)])
  then show ?thesis
    using retry(5) assms(2) by (auto intro!: lsr_wf_put)
next
  case (unmarshal w xs)
  then show ?thesis
    using build_map_wf [of "[]" xs] by (simp add: lsr_wf_def)
qed (use assms(2) in auto)

lemma ptrs_okD:
  assumes "ptrs_ok s" and "q \<in> set (lr_revoke s) \<union> set (lr_retry s)"
  shows "fst q = lr_clears s" and "\<exists>x. map_of (lr_map s) (snd q) = Some x"
  using assms unfolding ptrs_ok_def by blast+

lemma ptrs_ok_put:
  assumes "ptrs_ok s" and "length (filter (\<lambda>q. snd q = lid) (lr_revoke s)) \<le> length (li_revoke x)"
  shows "ptrs_ok (put_item_at lid x s)"
  using assms by (auto simp: ptrs_ok_def)

lemma ptrs_ok_shrink:
  assumes "ptrs_ok s" and "lr_revoke s = q # qs"
  shows "ptrs_ok (s\<lparr>lr_revoke := qs\<rparr>)"
proof -
  note p = assms(1) [unfolded ptrs_ok_def]
  have "fst r = lr_clears s \<and> map_of (lr_map s) (snd r) \<noteq> None" if "r \<in> set qs \<union> set (lr_retry s)" for r
    using p [THEN conjunct1] that assms(2) by (metis UnCI UnE list.set_intros(2))
  moreover have "length (filter (\<lambda>p. snd p = lid) qs) \<le> length (li_revoke x)" if "map_of (lr_map s) lid = Some x" for lid x
  proof -
    have "length (filter (\<lambda>p. snd p = lid) qs) \<le> length (filter (\<lambda>p. snd p = lid) (lr_revoke s))"
      using assms(2) by simp
    also have "\<dots> \<le> length (li_revoke x)"
      using p [THEN conjunct2, rule_format, OF that] .
    finally show ?thesis .
  qed
  ultimately show ?thesis
    by (simp add: ptrs_ok_def)
qed

lemma ptrs_ok_count:
  "ptrs_ok s \<Longrightarrow> map_of (lr_map s) lid = Some x \<Longrightarrow> length (filter (\<lambda>q. snd q = lid) (lr_revoke s)) \<le> length (li_revoke x)"
  by (simp add: ptrs_ok_def)

lemma ptrs_ok_item:
  assumes "ptrs_ok s"
  shows "length (filter (\<lambda>q. snd q = lid) (lr_revoke s)) \<le> length (li_revoke (item_at lid s))"
proof (cases "map_of (lr_map s) lid")
  case None
  then have "filter (\<lambda>q. snd q = lid) (lr_revoke s) = []"
    using ptrs_okD(2) [OF assms] by (fastforce simp: filter_empty_conv)
  then show ?thesis
    by simp
next
  case (Some x)
  then show ?thesis
    using ptrs_ok_count [OF assms] by (simp add: item_at_def)
qed

lemma lsr_do_ptrs:
  assumes "lsr_do e s = Returns (b, t)" and "ptrs_ok s" and "\<forall>w. e \<noteq> Unmarshal w"
  shows "ptrs_ok t"
  using assms(1)
proof (cases rule: lsr_do_cases)
  case (acquire lid c xid x)
  note le = ptrs_ok_item [OF assms(2), of lid]
  from acquire(3) show ?thesis
  proof (elim disjE conjE)
    assume t: "t = (put_item_at lid (x\<lparr>li_retry := li_retry x @ [c], li_revoke := li_revoke x @ [li_user x]\<rparr>) s)\<lparr>lr_revoke := lr_revoke s @ [(lr_clears s, lid)]\<rparr>"
    show ?thesis
      using assms(2) le unfolding t by (auto simp: ptrs_ok_def acquire(2))
  qed (use assms(2) le acquire(2) in \<open>auto intro!: ptrs_ok_put\<close>)
next
  case (release r lid c xid x)
  note le = ptrs_ok_count [OF assms(2) release(3)]
  have p: "ptrs_ok (put_item_at lid (touch_info c x) s)"
    "ptrs_ok (put_item_at lid (if li_user x = c then (touch_info c x)\<lparr>li_locked := False\<rparr> else touch_info c x) s)"
    using assms(2) le by (auto intro!: ptrs_ok_put)
  from release(4) show ?thesis
  proof
    assume t: "t = (put_item_at lid (if li_user x = c then (touch_info c x)\<lparr>li_locked := False\<rparr> else touch_info c x) s)\<lparr>lr_retry := lr_retry s @ [(lr_clears s, lid)]\<rparr>"
    show ?thesis
      using p(2) unfolding t by (auto simp: ptrs_ok_def)
  qed (use p(1) in simp)
next
  case (revoke primary q qs x c cs)
  have "length (filter (\<lambda>p. snd p = snd q) qs) \<le> length cs"
    using ptrs_ok_count [OF assms(2) revoke(4)] revoke(3,5) by simp
  then show ?thesis
    using ptrs_ok_put [OF ptrs_ok_shrink [OF assms(2) revoke(3)], of "snd q"] revoke(6) by simp
next
  case (revoke_skip primary q qs)
  then show ?thesis
    using ptrs_ok_shrink [OF assms(2)] by simp
next
  case (deq primary q qs)
  then show ?thesis
    using assms(2) by (auto simp: ptrs_ok_def)
next
  case (retry q x c cs)
  then show ?thesis
    using ptrs_ok_count [OF assms(2) retry(3)] assms(2) by (auto intro!: ptrs_ok_put)
next
  case (unknown r lid c xid)
  then show ?thesis
    using assms(2) by (simp add: ptrs_ok_def)
qed (use assms in auto)

lemma lsr_run_induct:
  assumes "lsr_run es s = Returns (bs, t)" and "P s" and "\<And>e s b t. e \<in> set es \<Longrightarrow> lsr_do e s = Returns (b, t) \<Longrightarrow> P s \<Longrightarrow> P t"
  shows "P t"
  using assms
proof (induction es arbitrary: s bs)
  case (Cons e es)
  then obtain b u cs where "lsr_do e s = Returns (b, u)" "lsr_run es u = Returns (cs, t)"
    by (auto simp: obind_Returns_iff)
  then show ?case
    using Cons.IH [of u cs] Cons.prems(2,3) by (meson list.set_intros)
qed simp

section \<open>Requests of clients\<close>

text \<open>Lock requests as the call template of \<open>rsm_client\<close> sends them.\<close>

fun lock_req :: "lsr_ev \<Rightarrow> u32 \<times> string" where
  "lock_req (Acquire lid c xid) = (proc_acquire, m_str (put_ull (put_string (put_ull marshall_new lid) c) xid))"
| "lock_req (Release r lid c xid) = (proc_release, m_str (put_ull (put_string (put_ull marshall_new lid) c) xid))"
| "lock_req _ = (0, [])"

fun lock_ev :: "u32 \<Rightarrow> lsr_ev \<Rightarrow> bool" where
  "lock_ev r (Acquire lid c xid) = (length c < 2 ^ 30)"
| "lock_ev r (Release r' lid c xid) = (r' = r \<and> length c < 2 ^ 30)"
| "lock_ev r _ = False"

text \<open>The reply that grants a lock: return code \<open>OK\<close> with the result \<open>AcqRet::OK\<close>.\<close>

definition granted :: string where
  "granted = reply_of (lock_status_code L_OK) (m_str (put_int marshall_new (acq_code Acq_OK)))"

lemma m_str_int: "m_str (put_int marshall_new x) = be32 x"
  by (rule m_str_written) (simp add: int_c.put_written m_wf_new m_written_new)

lemma reply_int_inj:
  "reply_of a (m_str (put_int marshall_new x)) = reply_of b (m_str (put_int marshall_new y)) \<longleftrightarrow> a = b \<and> x = y"
proof
  assume "reply_of a (m_str (put_int marshall_new x)) = reply_of b (m_str (put_int marshall_new y))"
  then have eq: "be32 a @ enc_string (be32 x) = be32 b @ enc_string (be32 y)"
    by (simp add: reply_of_eq m_str_int)
  have inj: "u = v" if "be32 u = be32 v" for u v
    using int_c.roundtrip [of u "[]"] int_c.get_enc_only [of "take_content [] (be32 u)" u] int_c.get_enc_only [of "take_content [] (be32 u)" v] that
    by (simp add: take_content_simps RPC_HEADER_SZ_def sizeof_rpc_sz_def)
  have "be32 a = be32 b" "enc_string (be32 x) = enc_string (be32 y)"
    using eq by simp_all
  then show "a = b \<and> x = y"
    using inj by (simp add: enc_string_def)
qed simp

lemma acquire_exec:
  assumes "length c < 2 ^ 30"
  shows "rsm_exec (lsr_procs r) proc_acquire (snd (lock_req (Acquire lid c xid))) s
    = obind (lsr_acquire lid c xid s) (\<lambda>(st, x, s). Returns (reply_of st (m_str (put_int marshall_new x)), s))"
proof -
  have "lsr_procs r proc_acquire = Some (rsm_fn3 get_ull get_string get_ull put_int lsr_acquire)"
    by (simp add: lsr_procs_def proc_acquire_def proc_release_def proc_stat_def)
  then show ?thesis
    using rsm_exec_fn3 [where meth = lsr_acquire and pR = put_int and procs = "lsr_procs r" and procno = proc_acquire,
        OF ull_c.codec_axioms string_c.codec_axioms ull_c.codec_axioms, of lid c xid s] assms
    by (simp add: enc_string_def RPC_HEADER_SZ_def sizeof_rpc_sz_def)
qed

lemma release_exec:
  assumes "length c < 2 ^ 30"
  shows "rsm_exec (lsr_procs r) proc_release (snd (lock_req (Release r lid c xid))) s
    = obind (lsr_release r lid c xid s) (\<lambda>(st, x, s). Returns (reply_of st (m_str (put_int marshall_new x)), s))"
proof -
  have "lsr_procs r proc_release = Some (rsm_fn3 get_ull get_string get_ull put_int (lsr_release r))"
    by (simp add: lsr_procs_def proc_acquire_def proc_release_def proc_stat_def)
  then show ?thesis
    using rsm_exec_fn3 [where meth = "lsr_release r" and pR = put_int and procs = "lsr_procs r" and procno = proc_release,
        OF ull_c.codec_axioms string_c.codec_axioms ull_c.codec_axioms, of lid c xid s] assms
    by (simp add: enc_string_def RPC_HEADER_SZ_def sizeof_rpc_sz_def)
qed

text \<open>A replica that executes lock requests makes the steps of the lock server, and its replies tell the grants.\<close>

lemma run_log_locks:
  assumes "run_log (lsr_procs r) (map lock_req es) s = Some (rs, t)" and "\<forall>e \<in> set es. lock_ev r e"
  shows "\<exists>bs. lsr_run es s = Returns (bs, t) \<and> (\<forall>i < length es. \<forall>lid c xid. es ! i = Acquire lid c xid \<longrightarrow> (bs ! i \<longleftrightarrow> rs ! i = granted))"
  using assms
proof (induction es arbitrary: s rs)
  case (Cons e es)
  have "\<exists>procno req. lock_req e = (procno, req) \<and> (\<exists>x u b ws. rsm_exec (lsr_procs r) procno req s = Returns (x, u) \<and> lsr_do e s = Returns (b, u)
      \<and> run_log (lsr_procs r) (map lock_req es) u = Some (ws, t) \<and> rs = x # ws \<and> (\<forall>lid c xid. e = Acquire lid c xid \<longrightarrow> (b \<longleftrightarrow> x = granted)))"
  proof (cases e)
    case (Acquire lid c xid)
    then show ?thesis
      using Cons.prems acquire_exec [of c r lid xid s]
      by (auto simp: granted_def reply_int_inj obind_Returns_iff split: outcome.splits option.splits)
  next
    case (Release r' lid c xid)
    then show ?thesis
      using Cons.prems release_exec [of c r lid xid s] by (auto simp: obind_Returns_iff split: outcome.splits option.splits)
  qed (use Cons.prems(2) in auto)
  then obtain x u b ws where u: "lsr_do e s = Returns (b, u)" "run_log (lsr_procs r) (map lock_req es) u = Some (ws, t)" "rs = x # ws"
      "\<forall>lid c xid. e = Acquire lid c xid \<longrightarrow> (b \<longleftrightarrow> x = granted)"
    by blast
  from Cons.IH [OF u(2)] Cons.prems(2) obtain bs where "lsr_run es u = Returns (bs, t)"
      "\<forall>i < length es. \<forall>lid c xid. es ! i = Acquire lid c xid \<longrightarrow> (bs ! i \<longleftrightarrow> ws ! i = granted)"
    by auto
  then show ?case
    using u by (intro exI [of _ "b # bs"]) (auto simp: nth_Cons split: nat.splits)
qed simp

section \<open>Example\<close>

text \<open>A takes lock 5, B asks for it, A is told to give it up and does so, B is told to try again and gets it.\<close>

definition ex_locking :: "lsr_ev list" where
  "ex_locking = [Acquire 5 ''A'' 1, Acquire 5 ''B'' 2, Revoke True, Release 0 5 ''A'' 1, Deq True, Acquire 5 ''B'' 3]"

lemmas lsr_eval = lsr_acquire_def lsr_release_def revoker_turn_def retryer_deq_def deref_def item_at_def put_item_at_def touch_info_def info_at_def
  lock_item_new_def Let_def

lemma ex_locking_run: "\<exists>t. lsr_run ex_locking lock_rsm_new = Returns ([True, False, False, False, False, True], t)"
  by (simp add: ex_locking_def lock_rsm_new_def lsr_eval)

text \<open>A node of a group of lock servers, in view 1 with primary A.\<close>

definition ex_lock_node :: "string list \<Rightarrow> lock_rsm \<Rightarrow> viewstamp \<Rightarrow> string \<Rightarrow> lock_rsm rsm" where
  "ex_lock_node ms sm vs m =
     \<lparr>rm_procs = lsr_procs 0, rm_cfg = ex_view_config ms m, rm_stf = Some (marshal_state, unmarshal_state), rm_sm = sm,
      rm_myvs = \<lparr>vs_vid = 1, vs_seqno = 1\<rparr>, rm_last_myvs = vs, rm_primary = ''A'', rm_insync = (m = ''A''), rm_inviewchange = False,
      rm_vid_commit = 1, rm_vid_insync = 1, rm_backups = filter (\<lambda>x. x \<noteq> ''A'') ms, rm_partitioned = False, rm_dopartition = False,
      rm_break1 = False, rm_break2 = False, rm_reachable = True, rm_set_reachable = []\<rparr>"

text \<open>A backup and the primary are about to synchronise for a view.\<close>

definition sync_ready :: "string \<Rightarrow> string \<Rightarrow> u32 \<Rightarrow> lock_rsm group \<Rightarrow> bool" where
  "sync_ready p m vid g =
     (rm_stf (gr_rsm g m) = Some (marshal_state, unmarshal_state) \<and> rm_stf (gr_rsm g p) = Some (marshal_state, unmarshal_state) \<and> m \<noteq> p
      \<and> lsr_sendable (rm_sm (gr_rsm g p)) \<and> \<not> lr_held (rm_sm (gr_rsm g m)) \<and> p \<notin> set (gr_down g) \<and> rm_reachable (gr_rsm g p)
      \<and> rm_insync (gr_rsm g p) \<and> rm_vid_insync (gr_rsm g p) = vid \<and> rm_vid_insync (gr_rsm g m) = vid \<and> rm_vid_commit (gr_rsm g m) = vid
      \<and> rm_primary (gr_rsm g m) = p \<and> myaddr (gr_rsm g m) = m)"

section \<open>Properties\<close>

text \<open>C10: Grants are exclusive: however acquire, release and stat requests of any clients and the turns of the revoker
  and retryer threads follow each other, between two grants of a lock the client that got it first has
  asked for its release.\<close>

theorem lock_grants_exclusive:
  assumes "lsr_run es s = Returns (bs, t)" and "\<forall>w. Unmarshal w \<notin> set es" and "i < j" and "j < length es"
    and "es ! i = Acquire lid c xid" and "bs ! i" and "es ! j = Acquire lid c' xid'" and "bs ! j"
  shows "\<exists>k r xid. i < k \<and> k < j \<and> es ! k = Release r lid c xid"
  using grants_separated [OF assms] .

theorem lock_grants_exclusive_witness:
  "\<exists>bs t. lsr_run ex_locking lock_rsm_new = Returns (bs, t) \<and> bs = [True, False, False, False, False, True]
    \<and> (\<exists>k r xid. 0 < k \<and> k < 5 \<and> ex_locking ! k = Release r 5 ''A'' xid)"
proof -
  obtain t where t: "lsr_run ex_locking lock_rsm_new = Returns ([True, False, False, False, False, True], t)"
    using ex_locking_run by blast
  then show ?thesis
    using lock_grants_exclusive [OF t, of 0 5 5 "''A''" 1 "''B''" 3] by (simp add: ex_locking_def)
qed



text \<open>C13: The threads are memory safe as long as no state is transferred: a queued pointer leads to an item of the map, and
  the revoker finds a client there to send its call to.\<close>

theorem lock_threads_safe:
  assumes "lsr_run es lock_rsm_new = Returns (bs, s)" and "\<forall>w. Unmarshal w \<notin> set es" and "\<not> lr_held s"
  shows "revoker_turn primary s \<noteq> Some Aborts
    \<and> (\<forall>q t. retryer_deq primary s = Some (Some q, t) \<longrightarrow> retryer_turn q t \<noteq> Aborts)"
proof -
  have p: "ptrs_ok s"
  proof (rule lsr_run_induct [OF assms(1)])
    show "ptrs_ok lock_rsm_new"
      by (simp add: ptrs_ok_def lock_rsm_new_def)
  qed (use lsr_do_ptrs assms(2) in blast)
  have "revoker_turn primary s \<noteq> Some Aborts"
  proof (cases "lr_revoke s")
    case (Cons q qs)
    then obtain x where x: "fst q = lr_clears s" "map_of (lr_map s) (snd q) = Some x"
      using ptrs_okD [OF p, of q] by auto
    have "li_revoke x \<noteq> []"
      using ptrs_ok_count [OF p x(2)] Cons by auto
    then show ?thesis
      using Cons x assms(3) by (auto simp: revoker_turn_def deref_def Let_def split: list.splits)
  qed (simp add: revoker_turn_def)
  moreover have "retryer_turn q t \<noteq> Aborts" if "retryer_deq primary s = Some (Some q, t)" for q t
  proof -
    have q: "q \<in> set (lr_retry s)" "lr_map t = lr_map s" "lr_clears t = lr_clears s" "lr_held t = lr_held s"
      using that by (auto simp: retryer_deq_def split: list.splits if_splits)
    then show ?thesis
      using ptrs_okD [OF p, of q] assms(3) by (auto simp: retryer_turn_def deref_def split: list.splits)
  qed
  ultimately show ?thesis
    by blast
qed

theorem lock_threads_safe_witness:
  "\<exists>bs s. lsr_run [Acquire 5 ''A'' 1, Acquire 5 ''B'' 2] lock_rsm_new = Returns (bs, s) \<and> lr_revoke s = [(0, 5)]
    \<and> revoker_turn True s \<noteq> Some Aborts"
proof -
  obtain bs s where s: "lsr_run [Acquire 5 ''A'' 1, Acquire 5 ''B'' 2] lock_rsm_new = Returns (bs, s)" "lr_revoke s = [(0, 5)]" "\<not> lr_held s"
    by (simp add: lock_rsm_new_def lsr_eval)
  then show ?thesis
    using lock_threads_safe [OF s(1) _ s(3), of True] by auto
qed

text \<open>A state transfer leaves dangling pointers: it frees the items of the old map, and a revoke that is still queued
  makes the revoker of the primary follow a pointer to one of them.\<close>

theorem transfer_leaves_dangling:
  assumes "ptrs_ok s" and "lr_revoke s \<noteq> []" and "unmarshal_state w s = Returns t"
  shows "revoker_turn True t = Some Aborts"
proof -
  obtain q qs where q: "lr_revoke s = q # qs"
    using assms(2) by (cases "lr_revoke s") auto
  then have "lr_revoke t = q # qs" "lr_clears t = lr_clears s + 1" "fst q = lr_clears s"
    using assms(3) ptrs_okD(1) [OF assms(1), of q] by (auto simp: unmarshal_state_def split: if_splits prod.splits)
  then show ?thesis
    by (simp add: revoker_turn_def deref_def Let_def)
qed

theorem transfer_leaves_dangling_witness:
  "\<exists>bs s t. lsr_run [Acquire 5 ''A'' 1, Acquire 5 ''B'' 2] lock_rsm_new = Returns (bs, s) \<and> unmarshal_state [] s = Returns t
    \<and> revoker_turn True t = Some Aborts"
proof -
  obtain bs s where s: "lsr_run [Acquire 5 ''A'' 1, Acquire 5 ''B'' 2] lock_rsm_new = Returns (bs, s)" "lr_revoke s = [(0, 5)]" "\<not> lr_held s"
    by (simp add: lock_rsm_new_def lsr_eval)
  have p: "ptrs_ok s"
    using s(1) by (auto simp: lock_rsm_new_def lsr_eval ptrs_ok_def)
  obtain t where t: "unmarshal_state [] s = Returns t"
    using s(3) by (auto simp: unmarshal_state_def split_beta)
  show ?thesis
    using s t transfer_leaves_dangling [OF p _ t] by auto
qed

text \<open>Releasing a lock that no client ever asked for blocks the server for good: \<open>release\<close> returns with the mutex held,
  and no later acquire, release or state transfer returns.\<close>

theorem release_unknown_blocks:
  assumes "\<not> lr_held s" and "map_of (lr_map s) lid = None"
  shows "\<exists>t. lsr_release r lid c xid s = Returns (0, r, t) \<and> lsr_acquire lid' c' xid' t = Aborts \<and> lsr_release r' lid' c' xid' t = Aborts
    \<and> marshal_state t = Aborts \<and> unmarshal_state w t = Aborts"
  using assms by (simp add: lsr_release_def lsr_acquire_def marshal_state_def unmarshal_state_def)

theorem release_unknown_blocks_witness:
  "\<exists>t. lsr_release 0 5 ''A'' 1 lock_rsm_new = Returns (0, 0, t) \<and> lsr_acquire 6 ''B'' 2 t = Aborts"
  using release_unknown_blocks [of lock_rsm_new 5 0 "''A''" 1 6 "''B''" 2] by (auto simp: lock_rsm_new_def)



end
