(* ===== verification/Lock_Client_Rsm.thy ===== *)
theory Lock_Client_Rsm
  imports Lock_Rsm
begin

text \<open>
  The caching lock client of the replicated lock server (lock_client_cache_rsm.cc, lock_client_cache_rsm.h).

  \<^item> The operations are split where they give up \<open>lock_map_mutex_\<close>: around the call of \<open>SendAcqToSvr\<close>, at the waits of
    \<open>acquire\<close>, and around the call of \<open>releaser\<close>. \<open>acquire_turn_rsm\<close> is what a thread does between two waits.
  \<^item> A pointer in the release queue is the identifier of its lock, since items are never freed.
  \<^item> \<open>lk_do\<close> is the interleaving of the threads of several clients with the lock server; the calls through
    \<open>rsm_client\<close> are calls of the server's handlers, as the results on groups justify.
\<close>

section \<open>Client\<close>

record client_item =
  ci_retried :: bool
  ci_revoked :: bool
  ci_finished :: bool
  ci_status :: lock_state
  ci_lid :: lockid_t
  ci_xid :: u64

definition client_item_new :: client_item where
  "client_item_new = \<lparr>ci_retried = False, ci_revoked = False, ci_finished = False, ci_status = NONE, ci_lid = 0, ci_xid = 0\<rparr>"

record lock_client_rsm =
  lk_xid :: u64
  lk_map :: "lockid_t \<Rightarrow> client_item"
  lk_queue :: "lockid_t list"

definition lock_client_rsm_new :: lock_client_rsm where
  "lock_client_rsm_new = \<lparr>lk_xid = 0, lk_map = (\<lambda>_. client_item_new), lk_queue = []\<rparr>"

definition set_item :: "lockid_t \<Rightarrow> client_item \<Rightarrow> lock_client_rsm \<Rightarrow> lock_client_rsm" where
  "set_item lid x k = k\<lparr>lk_map := (lk_map k)(lid := x)\<rparr>"

text \<open>The item, and whether it is put into the release queue.\<close>

definition deal_release :: "client_item \<Rightarrow> client_item \<times> bool" where
  "deal_release x =
     (if ci_status x = NONE then (x, False)
      else if ci_revoked x then (x\<lparr>ci_status := RELEASING\<rparr>, True)
      else (x\<lparr>ci_status := FREE, ci_finished := True\<rparr>, False))"

definition put_released :: "lockid_t \<Rightarrow> client_item \<times> bool \<Rightarrow> lock_client_rsm \<Rightarrow> lock_client_rsm" where
  "put_released lid y k = (set_item lid (fst y) k)\<lparr>lk_queue := lk_queue k @ (if snd y then [lid] else [])\<rparr>"

definition release_rsm :: "lockid_t \<Rightarrow> lock_client_rsm \<Rightarrow> lock_client_rsm" where
  "release_rsm lid k = put_released lid (deal_release (lk_map k lid)) k"

text \<open>\<open>SendAcqToSvr\<close> before and after its call; the call is made with the \<open>xid\<close> that the client has by then.\<close>

definition send_begin :: "lockid_t \<Rightarrow> lock_client_rsm \<Rightarrow> lock_client_rsm" where
  "send_begin lid k =
     (let k = k\<lparr>lk_xid := lk_xid k + 1\<rparr> in set_item lid ((lk_map k lid)\<lparr>ci_retried := False, ci_xid := lk_xid k\<rparr>) k)"

definition send_end :: "u32 \<Rightarrow> u32 \<Rightarrow> lockid_t \<Rightarrow> lock_client_rsm \<Rightarrow> lock_client_rsm" where
  "send_end ret r lid k =
     (if ret \<noteq> lock_status_code L_OK then k
      else if r = acq_code Acq_OK then set_item lid ((lk_map k lid)\<lparr>ci_status := FREE\<rparr>) k
      else if r = acq_code Acq_RETRY then set_item lid ((lk_map k lid)\<lparr>ci_status := ACQING\<rparr>) k
      else k)"

definition deal_free :: "client_item \<Rightarrow> client_item" where
  "deal_free x = x\<lparr>ci_finished := False, ci_status := LOCK\<rparr>"

datatype turn_rsm = T_send | T_wait_free | T_wait_acq | T_got

text \<open>
  What a thread in \<open>acquire\<close> does when it has the mutex, by the status of the item. After the call of \<open>SendAcqToSvr\<close> and after a
  wait it looks at the item again, which is its next turn.
\<close>

definition deal_none :: "lockid_t \<Rightarrow> lock_client_rsm \<Rightarrow> turn_rsm \<times> lock_client_rsm" where
  "deal_none lid k = (T_send, send_begin lid k)"

definition deal_lock :: "lockid_t \<Rightarrow> lock_client_rsm \<Rightarrow> turn_rsm \<times> lock_client_rsm" where
  "deal_lock lid k = (T_wait_free, k)"

definition deal_acq :: "lockid_t \<Rightarrow> lock_client_rsm \<Rightarrow> turn_rsm \<times> lock_client_rsm" where
  "deal_acq lid k = (if ci_retried (lk_map k lid) then (T_send, send_begin lid k) else (T_wait_acq, k))"

definition acquire_turn_rsm :: "lockid_t \<Rightarrow> lock_client_rsm \<Rightarrow> turn_rsm \<times> lock_client_rsm" where
  "acquire_turn_rsm lid k =
     (let x = (lk_map k lid)\<lparr>ci_lid := lid\<rparr>; k = set_item lid x k
      in case ci_status x of
           NONE \<Rightarrow> deal_none lid k
         | FREE \<Rightarrow> (T_got, set_item lid (deal_free x) k)
         | LOCK \<Rightarrow> deal_lock lid k
         | ACQING \<Rightarrow> deal_acq lid k
         | RELEASING \<Rightarrow> (T_wait_free, k))"

text \<open>The timed wait of \<open>DealWithStatusACQ\<close> runs out.\<close>

definition acq_timeout :: "lockid_t \<Rightarrow> lock_client_rsm \<Rightarrow> lock_client_rsm" where
  "acq_timeout lid k = set_item lid ((lk_map k lid)\<lparr>ci_retried := True\<rparr>) k"

text \<open>\<open>releaser\<close>: the lock and transaction of its release call; \<open>dorelease\<close> is called before it.\<close>

definition releaser_begin :: "lock_client_rsm \<Rightarrow> ((lockid_t \<times> u64) \<times> lock_client_rsm) option" where
  "releaser_begin k =
     (case lk_queue k of
        [] \<Rightarrow> None
      | q # qs \<Rightarrow> Some ((ci_lid (lk_map k q), ci_xid (lk_map k q)), k\<lparr>lk_queue := qs\<rparr>))"

definition releaser_end :: "lockid_t \<Rightarrow> u32 \<Rightarrow> lock_client_rsm \<Rightarrow> lock_client_rsm outcome" where
  "releaser_end q ret k =
     VERIFY (ret = lock_status_code L_OK)
       (Returns (set_item q ((lk_map k q)\<lparr>ci_finished := False, ci_revoked := False, ci_status := NONE\<rparr>) k))"

definition revoke_handler_rsm :: "lockid_t \<Rightarrow> u64 \<Rightarrow> lock_client_rsm \<Rightarrow> lock_client_rsm" where
  "revoke_handler_rsm lid xid k =
     (let x = lk_map k lid
      in if ci_xid x = xid
         then let x = x\<lparr>ci_revoked := True\<rparr> in if ci_finished x then put_released lid (deal_release x) k else set_item lid x k
         else if ci_xid x > xid
         then if ci_status x = ACQING \<or> ci_status x = NONE then k\<lparr>lk_queue := lk_queue k @ [lid]\<rparr>
              else set_item lid (x\<lparr>ci_revoked := True\<rparr>) k
         else k)"

definition retry_handler_rsm :: "lockid_t \<Rightarrow> u64 \<Rightarrow> lock_client_rsm \<Rightarrow> lock_client_rsm" where
  "retry_handler_rsm lid xid k =
     (if ci_xid (lk_map k lid) \<le> xid then set_item lid ((lk_map k lid)\<lparr>ci_retried := True\<rparr>) k else k)"

section \<open>Clients and server\<close>

text \<open>
  A thread is named by its client and a number. \<open>ly_sent\<close> holds the threads inside \<open>SendAcqToSvr\<close>, with the reply
  once the call has been made; \<open>ly_wait\<close> the threads in the timed wait of \<open>DealWithStatusACQ\<close>; \<open>ly_releasing\<close> the clients whose releaser is in its call; \<open>ly_in\<close> the threads
  whose \<open>acquire\<close> has returned and that have not called \<open>release\<close>.
\<close>

record lk_sys =
  ly_srv :: lock_rsm
  ly_cl :: "string \<Rightarrow> lock_client_rsm"
  ly_sent :: "(string \<times> nat \<times> lockid_t \<times> (u32 \<times> u32) option) list"
  ly_wait :: "(string \<times> nat \<times> lockid_t) list"
  ly_releasing :: "(string \<times> lockid_t \<times> u64 \<times> u32 option) list"
  ly_in :: "(string \<times> nat \<times> lockid_t) list"

definition lk_init :: lk_sys where
  "lk_init = \<lparr>ly_srv = lock_rsm_new, ly_cl = (\<lambda>_. lock_client_rsm_new), ly_sent = [], ly_wait = [], ly_releasing = [], ly_in = []\<rparr>"

datatype lk_act =
  Turn string nat lockid_t
| Send_call string nat lockid_t
| Send_end string nat lockid_t "u32 \<times> u32"
| Release_lock string nat lockid_t
| Timeout string nat lockid_t
| Releaser_begin string
| Releaser_call string lockid_t u64
| Releaser_end string lockid_t u64 u32
| Revoker
| Retryer

definition put_cl :: "string \<Rightarrow> lock_client_rsm \<Rightarrow> lk_sys \<Rightarrow> lk_sys" where
  "put_cl c k s = s\<lparr>ly_cl := (ly_cl s)(c := k)\<rparr>"

text \<open>\<open>Some\<close> the next state, if the action is possible and returns. A retry is taken from the queue and sent to one client.\<close>

fun lk_do :: "lk_act \<Rightarrow> lk_sys \<Rightarrow> lk_sys option" where
  "lk_do (Turn c n lid) s =
     (if (c, n, lid) \<in> set (ly_in s) \<or> (\<exists>r \<in> set (ly_sent s). fst r = c \<and> fst (snd r) = n) then None
      else let s = s\<lparr>ly_wait := removeAll (c, n, lid) (ly_wait s)\<rparr>
           in case acquire_turn_rsm lid (ly_cl s c) of
                (T_send, k) \<Rightarrow> Some ((put_cl c k s)\<lparr>ly_sent := (c, n, lid, None) # ly_sent s\<rparr>)
              | (T_got, k) \<Rightarrow> Some ((put_cl c k s)\<lparr>ly_in := (c, n, lid) # ly_in s\<rparr>)
              | (T_wait_acq, k) \<Rightarrow> Some ((put_cl c k s)\<lparr>ly_wait := (c, n, lid) # ly_wait s\<rparr>)
              | (T_wait_free, k) \<Rightarrow> Some (put_cl c k s))"
| "lk_do (Send_call c n lid) s =
     (if (c, n, lid, None) \<notin> set (ly_sent s) then None
      else case lsr_acquire lid c (lk_xid (ly_cl s c)) (ly_srv s) of
             Aborts \<Rightarrow> None
           | Returns (ret, r, v) \<Rightarrow> Some (s\<lparr>ly_srv := v, ly_sent := (c, n, lid, Some (ret, r)) # remove1 (c, n, lid, None) (ly_sent s)\<rparr>))"
| "lk_do (Send_end c n lid y) s =
     (if (c, n, lid, Some y) \<notin> set (ly_sent s) then None
      else Some ((put_cl c (send_end (fst y) (snd y) lid (ly_cl s c)) s)\<lparr>ly_sent := remove1 (c, n, lid, Some y) (ly_sent s)\<rparr>))"
| "lk_do (Release_lock c n lid) s =
     (if (c, n, lid) \<notin> set (ly_in s) then None
      else Some ((put_cl c (release_rsm lid (ly_cl s c)) s)\<lparr>ly_in := remove1 (c, n, lid) (ly_in s)\<rparr>))"
| "lk_do (Timeout c n lid) s =
     (if (c, n, lid) \<notin> set (ly_wait s) then None else Some (put_cl c (acq_timeout lid (ly_cl s c)) s))"
| "lk_do (Releaser_begin c) s =
     (if c \<in> fst ` set (ly_releasing s) then None
      else case releaser_begin (ly_cl s c) of
             None \<Rightarrow> None
           | Some ((lid, xid), k) \<Rightarrow> Some ((put_cl c k s)\<lparr>ly_releasing := (c, lid, xid, None) # ly_releasing s\<rparr>))"
| "lk_do (Releaser_call c lid xid) s =
     (if (c, lid, xid, None) \<notin> set (ly_releasing s) then None
      else case lsr_release 0 lid c xid (ly_srv s) of
             Aborts \<Rightarrow> None
           | Returns (ret, r, v) \<Rightarrow> Some (s\<lparr>ly_srv := v, ly_releasing := (c, lid, xid, Some ret) # remove1 (c, lid, xid, None) (ly_releasing s)\<rparr>))"
| "lk_do (Releaser_end c lid xid ret) s =
     (if (c, lid, xid, Some ret) \<notin> set (ly_releasing s) then None
      else case releaser_end lid ret (ly_cl s c) of
             Aborts \<Rightarrow> None
           | Returns k \<Rightarrow> Some ((put_cl c k s)\<lparr>ly_releasing := remove1 (c, lid, xid, Some ret) (ly_releasing s)\<rparr>))"
| "lk_do Revoker s =
     (case revoker_turn True (ly_srv s) of
        Some (Returns (Some (c, lid, xid), v)) \<Rightarrow> Some (put_cl c (revoke_handler_rsm lid xid (ly_cl s c)) (s\<lparr>ly_srv := v\<rparr>))
      | _ \<Rightarrow> None)"
| "lk_do Retryer s =
     (case retryer_deq True (ly_srv s) of
        Some (Some q, v) \<Rightarrow>
          (case retryer_turn q v of
             Returns (Some (c, lid, xid), v) \<Rightarrow> Some (put_cl c (retry_handler_rsm lid xid (ly_cl s c)) (s\<lparr>ly_srv := v\<rparr>))
           | Returns (None, v) \<Rightarrow> Some (s\<lparr>ly_srv := v\<rparr>)
           | Aborts \<Rightarrow> None)
      | _ \<Rightarrow> None)"

fun lk_run :: "lk_act list \<Rightarrow> lk_sys \<Rightarrow> lk_sys option" where
  "lk_run [] s = Some s"
| "lk_run (a # as) s = (case lk_do a s of None \<Rightarrow> None | Some s \<Rightarrow> lk_run as s)"

lemmas lk_eval = acquire_turn_rsm_def deal_none_def deal_lock_def deal_acq_def send_begin_def send_end_def set_item_def put_cl_def deal_free_def deal_release_def put_released_def release_rsm_def
  releaser_begin_def releaser_end_def revoke_handler_rsm_def retry_handler_rsm_def acq_timeout_def client_item_new_def lock_client_rsm_new_def
  retryer_turn_def lsr_eval

section \<open>Two threads of one client\<close>

text \<open>Thread 1 gets the lock; thread 2 had sent its own request before the reply to thread 1 was looked at.\<close>

definition ex_two_threads :: "lk_act list" where
  "ex_two_threads =
     [Turn ''c'' 1 5, Send_call ''c'' 1 5, Turn ''c'' 2 5, Send_call ''c'' 2 5, Send_end ''c'' 1 5 (0, 0), Turn ''c'' 1 5,
      Send_end ''c'' 2 5 (0, 1), Revoker, Releaser_begin ''c'', Releaser_call ''c'' 5 2, Releaser_end ''c'' 5 2 0,
      Turn ''c'' 2 5, Send_call ''c'' 2 5, Send_end ''c'' 2 5 (0, 0), Turn ''c'' 2 5]"

lemma ex_two_threads_run: "\<exists>s. lk_run ex_two_threads lk_init = Some s \<and> ly_in s = [(''c'', 2, 5), (''c'', 1, 5)]"
  by (simp add: ex_two_threads_def lk_init_def lock_rsm_new_def lk_eval)

section \<open>A late revoke\<close>

text \<open>
  Both y and z ask for the lock that x holds, so two revokes are queued. The second one is sent when x has given the
  lock back and has begun to ask for it again: it names an older transaction, and x queues the release
  of a lock that it is just being granted.
\<close>

definition ex_late_revoke :: "lk_act list" where
  "ex_late_revoke =
     [Turn ''x'' 1 5, Send_call ''x'' 1 5, Send_end ''x'' 1 5 (0, 0), Turn ''x'' 1 5,
      Turn ''y'' 1 5, Send_call ''y'' 1 5, Send_end ''y'' 1 5 (0, 1), Turn ''z'' 1 5, Send_call ''z'' 1 5, Send_end ''z'' 1 5 (0, 1),
      Revoker, Release_lock ''x'' 1 5, Releaser_begin ''x'', Releaser_call ''x'' 5 1, Releaser_end ''x'' 5 1 0,
      Turn ''x'' 1 5, Revoker, Send_call ''x'' 1 5, Send_end ''x'' 1 5 (0, 0), Turn ''x'' 1 5,
      Releaser_begin ''x'', Releaser_call ''x'' 5 2, Turn ''y'' 1 5, Timeout ''y'' 1 5, Turn ''y'' 1 5, Send_call ''y'' 1 5, Send_end ''y'' 1 5 (0, 0), Turn ''y'' 1 5]"

lemma ex_late_revoke_run: "\<exists>s. lk_run ex_late_revoke lk_init = Some s \<and> ly_in s = [(''y'', 1, 5), (''x'', 1, 5)]"
  by (simp add: ex_late_revoke_def lk_init_def lock_rsm_new_def lk_eval)

section \<open>The life of a cached lock\<close>

text \<open>A thread of a client that does not have the lock, which is free at the server.\<close>

definition lock_free :: "string \<Rightarrow> nat \<Rightarrow> lockid_t \<Rightarrow> lk_sys \<Rightarrow> bool" where
  "lock_free c n lid s =
     (ly_sent s = [] \<and> ly_releasing s = [] \<and> ly_in s = [] \<and> lk_queue (ly_cl s c) = [] \<and> ci_status (lk_map (ly_cl s c) lid) = NONE
      \<and> \<not> ci_revoked (lk_map (ly_cl s c) lid) \<and> \<not> lr_held (ly_srv s) \<and> \<not> li_locked (item_at lid (ly_srv s))
      \<and> info_at c (item_at lid (ly_srv s)) < lk_xid (ly_cl s c) + 1)"

definition acquire_acts :: "string \<Rightarrow> nat \<Rightarrow> lockid_t \<Rightarrow> lk_act list" where
  "acquire_acts c n lid = [Turn c n lid, Send_call c n lid, Send_end c n lid (0, 0), Turn c n lid]"

lemma item_at_put: "item_at lid (put_item_at lid x s) = x"
  by (simp add: item_at_def)

lemma info_touch [simp]: "info_at c (touch_info c x) = info_at c x"
  by (simp add: touch_info_def info_at_def)

lemma info_granted [simp]: "info_at c (x\<lparr>li_locked := b, li_info := om_put c n i, li_user := d, li_lid := l\<rparr>) = n"
  by (simp add: info_at_def)

lemma lone_acquire:
  assumes "lock_free c n lid s"
  shows "\<exists>t. lk_run (acquire_acts c n lid) s = Some t \<and> ly_in t = [(c, n, lid)] \<and> ly_sent t = [] \<and> ly_releasing t = []
    \<and> lk_queue (ly_cl t c) = [] \<and> ci_status (lk_map (ly_cl t c) lid) = LOCK \<and> \<not> ci_revoked (lk_map (ly_cl t c) lid)
    \<and> ci_lid (lk_map (ly_cl t c) lid) = lid \<and> ci_xid (lk_map (ly_cl t c) lid) = lk_xid (ly_cl s c) + 1
    \<and> holds lid c (ly_srv t) \<and> \<not> lr_held (ly_srv t) \<and> info_at c (item_at lid (ly_srv t)) = lk_xid (ly_cl s c) + 1"
  using assms
  by (simp add: lock_free_def acquire_acts_def acquire_turn_rsm_def deal_none_def send_begin_def send_end_def set_item_def put_cl_def deal_free_def
      lsr_acquire_def Let_def item_at_put holds_put)

section \<open>Properties\<close>

text \<open>C14: The life of a cached lock: a thread acquires a lock that is free at the server in one exchange; releasing it keeps it
  at the client, where the next acquire takes it without the server; and once it is released a revoke
  for its transaction makes the releaser give it back, so that nobody holds it.\<close>

theorem cached_lock_cycle:
  assumes "lock_free c n lid s"
  shows "\<exists>t u v. lk_run (acquire_acts c n lid) s = Some t \<and> holds lid c (ly_srv t) \<and> ly_in t = [(c, n, lid)]
    \<and> lk_run [Release_lock c n lid, Turn c n lid, Release_lock c n lid] t = Some u \<and> ly_srv u = ly_srv t \<and> ly_in u = []
    \<and> (let xid = lk_xid (ly_cl s c) + 1; w = put_cl c (revoke_handler_rsm lid xid (ly_cl u c)) u
       in lk_run [Releaser_begin c, Releaser_call c lid xid, Releaser_end c lid xid 0] w = Some v
          \<and> \<not> li_locked (item_at lid (ly_srv v)) \<and> ci_status (lk_map (ly_cl v c) lid) = NONE)"
proof -
  let ?xid = "lk_xid (ly_cl s c) + 1"
  obtain t where t: "lk_run (acquire_acts c n lid) s = Some t" "ly_in t = [(c, n, lid)]" "ly_sent t = []" "ly_releasing t = []"
      "lk_queue (ly_cl t c) = []" "ci_status (lk_map (ly_cl t c) lid) = LOCK" "\<not> ci_revoked (lk_map (ly_cl t c) lid)"
      "ci_lid (lk_map (ly_cl t c) lid) = lid" "ci_xid (lk_map (ly_cl t c) lid) = ?xid"
      "holds lid c (ly_srv t)" "\<not> lr_held (ly_srv t)" "info_at c (item_at lid (ly_srv t)) = ?xid"
    using lone_acquire [OF assms] by blast
  obtain u where u: "lk_run [Release_lock c n lid, Turn c n lid, Release_lock c n lid] t = Some u" "ly_srv u = ly_srv t" "ly_in u = []"
      "ly_sent u = []" "ly_releasing u = []" "lk_queue (ly_cl u c) = []" "ci_status (lk_map (ly_cl u c) lid) = FREE"
      "ci_finished (lk_map (ly_cl u c) lid)" "ci_lid (lk_map (ly_cl u c) lid) = lid" "ci_xid (lk_map (ly_cl u c) lid) = ?xid"
    using t(2-9) by (simp add: release_rsm_def put_released_def deal_release_def acquire_turn_rsm_def set_item_def put_cl_def deal_free_def Let_def)
  obtain y where y: "map_of (lr_map (ly_srv t)) lid = Some y" "li_locked y" "li_user y = c"
    using t(10) by (auto simp: holds_def)
  have i: "item_at lid (ly_srv t) = y" "info_at c y = ?xid"
    using y(1) t(12) by (simp_all add: item_at_def)
  have "\<exists>v. lk_run [Releaser_begin c, Releaser_call c lid ?xid, Releaser_end c lid ?xid 0] (put_cl c (revoke_handler_rsm lid ?xid (ly_cl u c)) u) = Some v
      \<and> \<not> li_locked (item_at lid (ly_srv v)) \<and> ci_status (lk_map (ly_cl v c) lid) = NONE"
    using u(2-10) t(11) y i by (simp add: revoke_handler_rsm_def put_released_def deal_release_def releaser_begin_def releaser_end_def set_item_def put_cl_def
        lsr_release_def Let_def) (simp add: item_at_def)
  then show ?thesis
    using t(1,2,10) u(1-3) unfolding Let_def by blast
qed

theorem cached_lock_cycle_witness:
  "\<exists>t. lk_run (acquire_acts ''x'' 1 5) lk_init = Some t \<and> holds 5 ''x'' (ly_srv t)"
proof -
  have "lock_free ''x'' 1 5 lk_init"
    by (simp add: lock_free_def lk_init_def lock_rsm_new_def lock_client_rsm_new_def client_item_new_def item_at_def lock_item_new_def info_at_def)
  from cached_lock_cycle [OF this] show ?thesis
    by blast
qed

text \<open>C15: The locks of the replicated lock client are not exclusive: there is a schedule in which two clients, with one thread
  each, are between acquire and release of one lock at the same time, and one in which two threads of
  one client are.\<close>

theorem rsm_locks_not_exclusive:
  "(\<exists>as s. lk_run as lk_init = Some s \<and> (''x'', 1, 5) \<in> set (ly_in s) \<and> (''y'', 1, 5) \<in> set (ly_in s))
   \<and> (\<exists>as s. lk_run as lk_init = Some s \<and> (''c'', 1, 5) \<in> set (ly_in s) \<and> (''c'', 2, 5) \<in> set (ly_in s))"
proof -
  obtain s t where "lk_run ex_late_revoke lk_init = Some s" "ly_in s = [(''y'', 1, 5), (''x'', 1, 5)]"
      "lk_run ex_two_threads lk_init = Some t" "ly_in t = [(''c'', 2, 5), (''c'', 1, 5)]"
    using ex_late_revoke_run ex_two_threads_run by blast
  then show ?thesis
    by (intro conjI exI [of _ ex_late_revoke] exI [of _ ex_two_threads] exI [of _ s] exI [of _ t]) simp_all
qed

end
