(* ===== verification/Base64.thy ===== *)
theory Base64
  imports Prelude
begin

unbundle bit_operations_syntax

text \<open>
  Base 64 (base_64.h). The pointer and the number of bytes are a string; \<open>Decode\<close> also reads the terminating zero of its
  C string. Characters are signed, so that indices are computed on integers and may be negative: an
  access outside a table is the outcome \<open>Aborts\<close>, as is the construction of a string from \<open>NULL\<close>.
  On strings of seven-bit characters \<open>Decode\<close> inverts \<open>Encode\<close>.
\<close>

section \<open>Encode\<close>

definition schar :: "char \<Rightarrow> int" where
  "schar c = sint (byte_of_char c)"

definition base64_table :: string where
  "base64_table = ''ABCDEFGHIJKLMNOPQRSTUVWXYZabcdefghijklmnopqrstuvwxyz0123456789+/''"

definition b64_char :: "int \<Rightarrow> char outcome" where
  "b64_char i = (if 0 \<le> i \<and> i < 64 then Returns (base64_table ! nat i) else Aborts)"

fun b64_chars :: "int list \<Rightarrow> string outcome" where
  "b64_chars [] = Returns []"
| "b64_chars (i # is) = obind (b64_char i) (\<lambda>c. obind (b64_chars is) (\<lambda>cs. Returns (c # cs)))"

fun Encode :: "string \<Rightarrow> string outcome" where
  "Encode (a # b # c # s) =
     obind (b64_chars [drop_bit 2 (schar a), push_bit 4 (schar a AND 3) + drop_bit 4 (schar b),
                       push_bit 2 (schar b AND 0xf) + drop_bit 6 (schar c), schar c AND 0x3f])
       (\<lambda>w. obind (Encode s) (\<lambda>ws. Returns (w @ ws)))"
| "Encode [a, b] =
     obind (b64_chars [drop_bit 2 (schar a), push_bit 4 (schar a AND 3) + drop_bit 4 (schar b), push_bit 2 (schar b AND 0xf)])
       (\<lambda>w. Returns (w @ ''=''))"
| "Encode [a] = obind (b64_chars [drop_bit 2 (schar a), push_bit 4 (schar a AND 3)]) (\<lambda>w. Returns (w @ ''==''))"
| "Encode [] = Returns []"

section \<open>Decode\<close>

definition DecodeTable :: "int list" where
  "DecodeTable =
    [- 2, - 2, - 2, - 2, - 2, - 2, - 2, - 2, - 2, - 1, - 1, - 2, - 2, - 1, - 2, - 2,
     - 2, - 2, - 2, - 2, - 2, - 2, - 2, - 2, - 2, - 2, - 2, - 2, - 2, - 2, - 2, - 2,
     - 1, - 2, - 2, - 2, - 2, - 2, - 2, - 2, - 2, - 2, - 2, 62, - 2, - 2, - 2, 63,
     52, 53, 54, 55, 56, 57, 58, 59, 60, 61, - 2, - 2, - 2, - 2, - 2, - 2,
     - 2, 0, 1, 2, 3, 4, 5, 6, 7, 8, 9, 10, 11, 12, 13, 14,
     15, 16, 17, 18, 19, 20, 21, 22, 23, 24, 25, - 2, - 2, - 2, - 2, - 2,
     - 2, 26, 27, 28, 29, 30, 31, 32, 33, 34, 35, 36, 37, 38, 39, 40,
     41, 42, 43, 44, 45, 46, 47, 48, 49, 50, 51, - 2, - 2, - 2, - 2, - 2]
    @ replicate 128 (- 2)"

definition peek :: "string \<Rightarrow> char" where
  "peek s = (case s of [] \<Rightarrow> CHR 0x00 | c # _ \<Rightarrow> c)"

text \<open>\<open>_decode_result += bin\<close>: the integer is converted to a character.\<close>

definition int_char :: "int \<Rightarrow> char" where
  "int_char n = char_of_byte (word_of_int n)"

fun decode_loop :: "string \<Rightarrow> nat \<Rightarrow> nat \<Rightarrow> int \<Rightarrow> string \<Rightarrow> string outcome" where
  "decode_loop [] len i bin res = Returns res"
| "decode_loop (ch # s) len i bin res =
     (if ch = CHR 0x00 \<or> len = 0 then Returns res
      else if ch = CHR ''=''
      then if peek s \<noteq> CHR ''='' \<and> i mod 4 = 1 then Aborts else decode_loop s (len - 1) i bin res
      else if schar ch < 0 then Aborts
      else let v = DecodeTable ! nat (schar ch)
           in if v < 0 then decode_loop s (len - 1) i bin res
              else if i mod 4 = 0 then decode_loop s (len - 1) (i + 1) (push_bit 2 v) res
              else if i mod 4 = 1 then decode_loop s (len - 1) (i + 1) (push_bit 4 (v AND 0xf)) (res @ [int_char (bin OR drop_bit 4 v)])
              else if i mod 4 = 2 then decode_loop s (len - 1) (i + 1) (push_bit 6 (v AND 3)) (res @ [int_char (bin OR drop_bit 2 v)])
              else decode_loop s (len - 1) (i + 1) (bin OR v) (res @ [int_char (bin OR v)]))"

definition Decode :: "string \<Rightarrow> nat \<Rightarrow> string outcome" where
  "Decode s len = decode_loop s len 0 0 []"

section \<open>The tables\<close>

lemma table_cases:
  assumes "(0::int) \<le> i" and "i < 64"
  shows "i \<in> set (map int [0..<64])"
  using assms by (auto simp: image_iff intro: bexI [of _ "nat i"])

lemma table_inverse_all: "list_all (\<lambda>i. let c = base64_table ! nat i in c \<noteq> CHR 0x00 \<and> c \<noteq> CHR ''='' \<and> 0 \<le> schar c \<and> DecodeTable ! nat (schar c) = i) (map int [0..<64])"
  by code_simp

lemma table_inverse:
  assumes "0 \<le> i" and "i < 64"
  shows "base64_table ! nat i \<noteq> CHR 0x00" "base64_table ! nat i \<noteq> CHR ''=''" "\<not> schar (base64_table ! nat i) < 0"
    "DecodeTable ! nat (schar (base64_table ! nat i)) = i"
  using table_inverse_all table_cases [OF assms] unfolding list_all_iff Let_def by auto

text \<open>Decoding a character of the table.\<close>

lemma decode_step:
  assumes "0 \<le> v" and "v < 64" and "0 < len"
  shows "decode_loop (base64_table ! nat v # s) len i bin res =
     (if i mod 4 = 0 then decode_loop s (len - 1) (i + 1) (push_bit 2 v) res
      else if i mod 4 = 1 then decode_loop s (len - 1) (i + 1) (push_bit 4 (v AND 0xf)) (res @ [int_char (bin OR drop_bit 4 v)])
      else if i mod 4 = 2 then decode_loop s (len - 1) (i + 1) (push_bit 6 (v AND 3)) (res @ [int_char (bin OR drop_bit 2 v)])
      else decode_loop s (len - 1) (i + 1) (bin OR v) (res @ [int_char (bin OR v)]))"
  using table_inverse [OF assms(1,2)] assms by (simp add: Let_def)

section \<open>Bits\<close>

definition seven_bit :: "char \<Rightarrow> bool" where
  "seven_bit c = (of_char c < (128::nat))"

lemma schar_seven:
  assumes "seven_bit c"
  shows "0 \<le> schar c" and "schar c < 128" and "int_char (schar c) = c"
proof -
  have e: "schar c = int (of_char c)"
  proof -
    have "uint (byte_of_char c) = int (of_char c)"
      using assms by (simp add: byte_of_char_def seven_bit_def uint_nat unat_of_nat)
    then show ?thesis
      using assms by (simp add: schar_def seven_bit_def sint_uint signed_take_bit_eq_if_positive bit_iff_odd take_bit_int_eq_self)
  qed
  show "0 \<le> schar c" "schar c < 128"
    using assms by (simp_all add: e seven_bit_def)
  have "word_of_int (schar c) = byte_of_char c"
    by (simp add: schar_def)
  then show "int_char (schar c) = c"
    by (simp add: int_char_def)
qed

lemma or_add:
  fixes x y :: int
  assumes "0 \<le> y" and "y < 2 ^ n"
  shows "(x * 2 ^ n) OR y = x * 2 ^ n + y"
proof -
  have "(x * 2 ^ n) AND y = push_bit n x AND take_bit n y"
    using assms by (simp add: push_bit_eq_mult take_bit_int_eq_self)
  also have "\<dots> = 0"
    by (rule bit_eqI) (auto simp: bit_simps)
  finally show ?thesis
    using plus_and_or [of "x * 2 ^ n" y] by simp
qed

text \<open>The four indices of a group, and that reading them back gives its bytes.\<close>

definition ix0 :: "int \<Rightarrow> int" where
  "ix0 a = drop_bit 2 a"

definition ix1 :: "int \<Rightarrow> int \<Rightarrow> int" where
  "ix1 a b = push_bit 4 (a AND 3) + drop_bit 4 b"

definition ix2 :: "int \<Rightarrow> int \<Rightarrow> int" where
  "ix2 b c = push_bit 2 (b AND 0xf) + drop_bit 6 c"

definition ix3 :: "int \<Rightarrow> int" where
  "ix3 c = (c AND 0x3f)"

lemma and_masks:
  fixes x :: int
  shows "x AND 3 = x mod 4" "x AND 0xf = x mod 16" "x AND 0x3f = x mod 64"
  using take_bit_eq_mask [of 2 x] take_bit_eq_mask [of 4 x] take_bit_eq_mask [of 6 x]
  by (simp_all add: mask_eq_exp_minus_1 take_bit_eq_mod)

lemmas ix_defs = ix0_def ix1_def ix2_def ix3_def and_masks push_bit_eq_mult drop_bit_eq_div

lemma ix_range:
  assumes "0 \<le> a" "a < 256" "0 \<le> b" "b < 256" "0 \<le> c" "c < 256"
  shows "0 \<le> ix0 a" "ix0 a < 64" "0 \<le> ix1 a b" "ix1 a b < 64" "0 \<le> ix2 b c" "ix2 b c < 64" "0 \<le> ix3 c" "ix3 c < 64"
  using assms unfolding ix_defs by simp_all

lemma glue:
  fixes m q k :: int
  assumes "0 \<le> q" and "q < k"
  shows "(m * k + q) div k = m" and "(m * k + q) mod k = q"
  using assms by (simp_all add: div_mult_self3)

lemma ix_joined:
  assumes "0 \<le> a" "a < 256" "0 \<le> b" "b < 256" "0 \<le> c" "c < 256"
  shows "push_bit 2 (ix0 a) OR drop_bit 4 (ix1 a b) = a"
    and "push_bit 4 (ix1 a b AND 0xf) OR drop_bit 2 (ix2 b c) = b"
    and "push_bit 6 (ix2 b c AND 3) OR ix3 c = c"
proof -
  have b16: "0 \<le> b div 16" "b div 16 < 16" and c64: "0 \<le> c div 64" "c div 64 < 4"
    using assms by simp_all
  have i1: "drop_bit 4 (ix1 a b) = a mod 4" "ix1 a b AND 0xf = b div 16"
    using glue [OF b16, of "a mod 4"] unfolding ix_defs by simp_all
  have i2: "drop_bit 2 (ix2 b c) = b mod 16" "ix2 b c AND 3 = c div 64"
    using glue [OF c64, of "b mod 16"] unfolding ix_defs by simp_all
  show "push_bit 2 (ix0 a) OR drop_bit 4 (ix1 a b) = a"
    using or_add [of "a mod 4" 2 "a div 4"] unfolding i1 unfolding ix_defs by simp
  show "push_bit 4 (ix1 a b AND 0xf) OR drop_bit 2 (ix2 b c) = b"
    using or_add [of "b mod 16" 4 "b div 16"] unfolding i1 i2 unfolding ix_defs by simp
  show "push_bit 6 (ix2 b c AND 3) OR ix3 c = c"
    using or_add [of "c mod 64" 6 "c div 64"] unfolding i2 unfolding ix_defs by simp
qed

section \<open>Round trip\<close>

lemma b64_char_ix: "0 \<le> i \<Longrightarrow> i < 64 \<Longrightarrow> b64_char i = Returns (base64_table ! nat i)"
  by (simp add: b64_char_def)

text \<open>What \<open>Encode\<close> does with one group, and what \<open>Decode\<close> makes of it.\<close>

definition b64_at :: "int \<Rightarrow> char" where
  "b64_at i = base64_table ! nat i"

lemma b64_chars_ix: "list_all (\<lambda>i. 0 \<le> i \<and> i < 64) is \<Longrightarrow> b64_chars is = Returns (map b64_at is)"
  by (induction "is") (simp_all add: b64_char_ix b64_at_def)

lemma decode_at:
  assumes "0 \<le> v" and "v < 64" and "0 < len"
  shows "i mod 4 = 0 \<Longrightarrow> decode_loop (b64_at v # s) len i bin res = decode_loop s (len - 1) (i + 1) (push_bit 2 v) res"
    and "i mod 4 = 1 \<Longrightarrow> decode_loop (b64_at v # s) len i bin res =
           decode_loop s (len - 1) (i + 1) (push_bit 4 (v AND 0xf)) (res @ [int_char (bin OR drop_bit 4 v)])"
    and "i mod 4 = 2 \<Longrightarrow> decode_loop (b64_at v # s) len i bin res =
           decode_loop s (len - 1) (i + 1) (push_bit 6 (v AND 3)) (res @ [int_char (bin OR drop_bit 2 v)])"
    and "i mod 4 = 3 \<Longrightarrow> decode_loop (b64_at v # s) len i bin res =
           decode_loop s (len - 1) (i + 1) (bin OR v) (res @ [int_char (bin OR v)])"
  unfolding b64_at_def decode_step [OF assms] by simp_all

lemma decode_group:
  assumes "0 \<le> a" "a < 256" "0 \<le> b" "b < 256" "0 \<le> c" "c < 256" and "4 \<le> len" and "i mod 4 = 0"
  shows "decode_loop (b64_at (ix0 a) # b64_at (ix1 a b) # b64_at (ix2 b c) # b64_at (ix3 c) # s) len i bin res =
         decode_loop s (len - 4) (i + 4) c (res @ [int_char a, int_char b, int_char c])"
proof -
  note r = ix_range [OF assms(1-6)] and j = ix_joined [OF assms(1-6)]
  have m: "(i + 1) mod 4 = 1" "(i + 1 + 1) mod 4 = 2" "(i + 1 + 1 + 1) mod 4 = 3"
    using assms(8) by presburger+
  have l: "0 < len" "0 < len - 1" "0 < len - 1 - 1" "0 < len - 1 - 1 - 1"
    using assms(7) by simp_all
  have e: "len - 1 - 1 - 1 - 1 = len - 4" "i + 1 + 1 + 1 + 1 = i + 4"
    by simp_all
  show ?thesis
    unfolding decode_at(1) [OF r(1,2) l(1) assms(8)] decode_at(2) [OF r(3,4) l(2) m(1)] decode_at(3) [OF r(5,6) l(3) m(2)]
      decode_at(4) [OF r(7,8) l(4) m(3)] j e append_assoc append.simps ..
qed

lemma decode_tail2:
  assumes "0 \<le> a" "a < 256" "0 \<le> b" "b < 256" and "4 \<le> len" and "i mod 4 = 0"
  shows "decode_loop [b64_at (ix0 a), b64_at (ix1 a b), b64_at (ix2 b 0), CHR ''=''] len i bin res = Returns (res @ [int_char a, int_char b])"
proof -
  have z: "(0::int) \<le> 0" "(0::int) < 256"
    by simp_all
  note r = ix_range [OF assms(1-4) z] and j = ix_joined [OF assms(1-4) z]
  have m: "(i + 1) mod 4 = 1" "(i + 1 + 1) mod 4 = 2"
    using assms(6) by presburger+
  have l: "0 < len" "0 < len - 1" "0 < len - 1 - 1"
    using assms(5) by simp_all
  have "(i + 1 + 1 + 1) mod 4 \<noteq> 1" "\<not> len - 1 - 1 - 1 = 0"
    using assms(5,6) by presburger+
  then show ?thesis
    unfolding decode_at(1) [OF r(1,2) l(1) assms(6)] decode_at(2) [OF r(3,4) l(2) m(1)] decode_at(3) [OF r(5,6) l(3) m(2)]
      j append_assoc append.simps by simp
qed

lemma decode_tail1:
  assumes "0 \<le> a" "a < 256" and "4 \<le> len" and "i mod 4 = 0"
  shows "decode_loop [b64_at (ix0 a), b64_at (ix1 a 0), CHR ''='', CHR ''=''] len i bin res = Returns (res @ [int_char a])"
proof -
  have z: "(0::int) \<le> 0" "(0::int) < 256"
    by simp_all
  note r = ix_range [OF assms(1,2) z z] and j = ix_joined [OF assms(1,2) z z]
  have m: "(i + 1) mod 4 = 1"
    using assms(4) by presburger
  have l: "0 < len" "0 < len - 1"
    using assms(3) by simp_all
  have "(i + 1 + 1) mod 4 \<noteq> 1" "\<not> len - 1 - 1 = 0" "\<not> len - 1 - 1 - 1 = 0"
    using assms(3,4) by presburger+
  then show ?thesis
    unfolding decode_at(1) [OF r(1,2) l(1) assms(4)] decode_at(2) [OF r(3,4) l(2) m] j append_assoc append.simps by (simp add: peek_def)
qed

text \<open>The reference encoding: the indices of the groups, looked up in the table.\<close>

fun groups :: "int list \<Rightarrow> string" where
  "groups (a # b # c # s) = b64_at (ix0 a) # b64_at (ix1 a b) # b64_at (ix2 b c) # b64_at (ix3 c) # groups s"
| "groups [a, b] = [b64_at (ix0 a), b64_at (ix1 a b), b64_at (ix2 b 0), CHR ''='']"
| "groups [a] = [b64_at (ix0 a), b64_at (ix1 a 0), CHR ''='', CHR ''='']"
| "groups [] = []"

lemma length_groups: "length (groups xs) = 4 * ((length xs + 2) div 3)"
proof (induction xs rule: groups.induct)
  case (1 a b c s)
  have "(length (a # b # c # s) + 2) div 3 = Suc ((length s + 2) div 3)"
    by simp
  then show ?case
    using 1 by simp
qed simp_all

lemma decode_groups:
  "list_all (\<lambda>a. 0 \<le> a \<and> a < 256) xs \<Longrightarrow> i mod 4 = 0 \<Longrightarrow> length (groups xs) \<le> len \<Longrightarrow>
     decode_loop (groups xs) len i bin res = Returns (res @ map int_char xs)"
proof (induction xs arbitrary: len i bin res rule: groups.induct)
  case (1 a b c s)
  have "decode_loop (groups s) (len - 4) (i + 4) c (res @ [int_char a, int_char b, int_char c]) =
        Returns ((res @ [int_char a, int_char b, int_char c]) @ map int_char s)"
    using 1 by (intro "1.IH") simp_all
  then show ?case
    using 1 by (simp add: decode_group del: decode_loop.simps)
qed (simp_all add: decode_tail2 decode_tail1 del: decode_loop.simps(2))

lemma ix_zero: "ix1 a 0 = push_bit 4 (a AND 3)" "ix2 b 0 = push_bit 2 (b AND 0xf)"
  by (simp_all add: ix1_def ix2_def)

lemma chars_group:
  assumes "0 \<le> a" "a < 256" "0 \<le> b" "b < 256" "0 \<le> c" "c < 256"
  shows "b64_chars [ix0 a, ix1 a b, ix2 b c, ix3 c] = Returns [b64_at (ix0 a), b64_at (ix1 a b), b64_at (ix2 b c), b64_at (ix3 c)]"
    and "b64_chars [ix0 a, ix1 a b, ix2 b c] = Returns [b64_at (ix0 a), b64_at (ix1 a b), b64_at (ix2 b c)]"
    and "b64_chars [ix0 a, ix1 a b] = Returns [b64_at (ix0 a), b64_at (ix1 a b)]"
  using ix_range [OF assms] by (simp_all add: b64_chars_ix del: b64_chars.simps)

lemma encode_ix:
  "Encode (a # b # c # s) = obind (b64_chars [ix0 (schar a), ix1 (schar a) (schar b), ix2 (schar b) (schar c), ix3 (schar c)])
       (\<lambda>w. obind (Encode s) (\<lambda>ws. Returns (w @ ws)))"
  "Encode [a, b] = obind (b64_chars [ix0 (schar a), ix1 (schar a) (schar b), ix2 (schar b) 0]) (\<lambda>w. Returns (w @ ''=''))"
  "Encode [a] = obind (b64_chars [ix0 (schar a), ix1 (schar a) 0]) (\<lambda>w. Returns (w @ ''==''))"
  unfolding Encode.simps ix_zero unfolding ix0_def ix1_def ix2_def ix3_def by (rule refl)+

lemma encode_groups: "list_all seven_bit s \<Longrightarrow> Encode s = Returns (groups (map schar s))"
proof (induction s rule: Encode.induct)
  case (1 a b c s)
  then show ?case
    using schar_seven [of a] schar_seven [of b] schar_seven [of c]
    by (simp add: encode_ix chars_group(1) del: Encode.simps(1) b64_chars.simps)
next
  case (2 a b)
  then show ?case
    using schar_seven [of a] schar_seven [of b]
    by (simp add: encode_ix chars_group(2) del: Encode.simps(2) b64_chars.simps)
next
  case (3 a)
  then show ?case
    using schar_seven [of a] chars_group(3) [of "schar a" 0 0]
    by (simp add: encode_ix del: Encode.simps(3) b64_chars.simps)
qed simp

text \<open>
  C39: on a string of seven-bit characters, \<open>Encode\<close> returns a string of four characters for every three
  or part of three, and \<open>Decode\<close> of that string gives the original back, the padded cases included.
\<close>

theorem base64_roundtrip:
  assumes "list_all seven_bit s"
  shows "\<exists>w. Encode s = Returns w \<and> length w = 4 * ((length s + 2) div 3) \<and> Decode w (length w) = Returns s"
proof -
  have "list_all (\<lambda>a. 0 \<le> a \<and> a < 256) (map schar s)" and "map int_char (map schar s) = s"
    using assms schar_seven by (fastforce simp: list_all_iff, induction s) simp_all
  then show ?thesis
    using encode_groups [OF assms] decode_groups [of "map schar s" 0 _ 0 "[]"] by (simp add: Decode_def length_groups)
qed

lemma base64_roundtrip_witness:
  "list_all seven_bit ''yfs!'' \<and> Encode ''yfs!'' = Returns ''eWZzIQ=='' \<and> Decode ''eWZzIQ=='' 8 = Returns ''yfs!''"
proof -
  have s: "list_all seven_bit ''yfs!''" and e: "Encode ''yfs!'' = Returns ''eWZzIQ==''"
    by code_simp+
  obtain w where w: "Encode ''yfs!'' = Returns w" "Decode w (length w) = Returns ''yfs!''"
    using base64_roundtrip [OF s] by blast
  have "w = ''eWZzIQ==''"
    using w(1) unfolding e by (rule outcome.inject [THEN iffD1, THEN sym])
  moreover have "length ''eWZzIQ=='' = 8"
    by code_simp
  ultimately have "Decode ''eWZzIQ=='' 8 = Returns ''yfs!''"
    using w(2) by (simp only:)
  then show ?thesis
    using s e by blast
qed

text \<open>A character with its top bit set is negative, so encoding a string that starts with one indexes
  the table out of its bounds.
\<close>

theorem encode_high_bit:
  assumes "\<not> seven_bit c"
  shows "Encode (c # s) = Aborts"
proof -
  have r: "128 \<le> (of_char c :: nat)" "(of_char c :: nat) < 256"
    using assms nat_of_char_less_256 [of c] by (simp_all add: seven_bit_def)
  then have "(of_char c :: nat) div 128 = 1"
    using div_nat_eqI [of 128 1 "of_char c"] by simp
  then have "bit (of_char c :: nat) 7"
    by (simp add: bit_iff_odd)
  then have "schar c < 0"
    by (simp add: schar_def byte_of_char_def sint_uint uint_nat unat_of_nat signed_take_bit_negative_iff r bit_of_nat_iff_bit)
  then have i: "b64_char (ix0 (schar c)) = Aborts"
    by (simp add: b64_char_def ix0_def)
  consider "s = []" | b where "s = [b]" | b d t where "s = b # d # t"
    by (cases s rule: remdups_adj.cases) blast+
  then show ?thesis
    by cases (simp_all only: encode_ix b64_chars.simps i obind.simps)
qed

lemma encode_high_bit_witness: "\<not> seven_bit (CHR 0xE4) \<and> Encode [CHR 0xE4, CHR 0xB8, CHR 0xAD] = Aborts"
proof -
  have "\<not> seven_bit (CHR 0xE4)"
    by code_simp
  then show ?thesis
    using encode_high_bit [of "CHR 0xE4" "[CHR 0xB8, CHR 0xAD]"] by blast
qed

end
