(* ===== verification/Naming.thy ===== *)
theory Naming
  imports Paxos_Acceptor
begin

unbundle bit_operations_syntax

text \<open>
  Names: socket addresses made from the names of nodes (\<open>make_sockaddr\<close> of rpc/rpc.cc), and file names made from inode
  numbers (yfs_client.cc).

  \<^item> An address holds its fields in network byte order, as the struct does; the host is little endian.
  \<^item> \<open>inet_addr\<close> and \<open>gethostbyname\<close> are parameters, \<open>None\<close> being \<open>INADDR_NONE\<close> and a failed look-up. The outcome
    \<open>Aborts\<close> is \<open>exit(1)\<close>, or a host name that overflows its buffer of 200 characters.
  \<^item> \<open>atoi\<close> is \<open>strtol\<close> cut to an \<open>int\<close>; the cut is left to \<open>htons\<close>, which keeps 16 bits only.
\<close>

section \<open>Socket addresses\<close>

record sockaddr_in =
  sin_addr :: u32
  sin_port :: u16

definition sockaddr_lt :: "sockaddr_in \<Rightarrow> sockaddr_in \<Rightarrow> bool" where
  "sockaddr_lt a b = (sin_addr a < sin_addr b \<or> (sin_addr a = sin_addr b \<and> sin_port a < sin_port b))"

definition htons :: "u16 \<Rightarrow> u16" where
  "htons x = push_bit 8 x OR drop_bit 8 x"

definition strtol :: "string \<Rightarrow> int" where
  "strtol s =
     (let (neg, t) = strip_sign (dropWhile isspace s); n = int (read_nat (takeWhile isdigit t))
      in if neg then max (- (2 ^ 63)) (- n) else min (2 ^ 63 - 1) n)"

definition split_hostport :: "string \<Rightarrow> (string \<times> string) outcome" where
  "split_hostport hostandport =
     (case dropWhile (\<lambda>c. c \<noteq> CHR '':'') hostandport of
        [] \<Rightarrow> Returns (''127.0.0.1'', hostandport)
      | _ # port \<Rightarrow>
          let host = takeWhile (\<lambda>c. c \<noteq> CHR '':'') hostandport
          in if length host < 200 then Returns (host, port) else Aborts)"

definition make_sockaddr2 :: "(string \<Rightarrow> u32 option) \<Rightarrow> (string \<Rightarrow> u32 option) \<Rightarrow> string \<Rightarrow> string \<Rightarrow> sockaddr_in outcome" where
  "make_sockaddr2 inet_addr gethostbyname host port =
     (case (case inet_addr host of Some a \<Rightarrow> Some a | None \<Rightarrow> gethostbyname host) of
        None \<Rightarrow> Aborts
      | Some a \<Rightarrow> Returns \<lparr>sin_addr = a, sin_port = htons (word_of_int (strtol port))\<rparr>)"

definition make_sockaddr :: "(string \<Rightarrow> u32 option) \<Rightarrow> (string \<Rightarrow> u32 option) \<Rightarrow> string \<Rightarrow> sockaddr_in outcome" where
  "make_sockaddr inet_addr gethostbyname hostandport =
     obind (split_hostport (takeWhile (\<lambda>c. c \<noteq> CHR 0x00) hostandport)) (\<lambda>(host, port). make_sockaddr2 inet_addr gethostbyname host port)"

section \<open>File names\<close>

definition filename :: "u64 \<Rightarrow> string" where
  "filename inum = show_nat (unat inum)"

text \<open>\<open>finum\<close> is not initialised: its value before the extraction is an argument.\<close>

definition n2i :: "u64 \<Rightarrow> string \<Rightarrow> u64" where
  "n2i finum n =
     (let s = dropWhile isspace n; (neg, t) = strip_sign s; ds = takeWhile isdigit t
      in if s = [] then finum
         else if ds = [] then 0
         else if 2 ^ 64 \<le> read_nat ds then - 1
         else if neg then - of_nat (read_nat ds) else of_nat (read_nat ds))"

section \<open>Facts\<close>

text \<open>The operator is what \<open>std::map\<close> asks of the order of its keys.\<close>

lemma sockaddr_lt_order:
  "\<not> sockaddr_lt a a" "sockaddr_lt a b \<Longrightarrow> sockaddr_lt b c \<Longrightarrow> sockaddr_lt a c" "sockaddr_lt a b \<or> a = b \<or> sockaddr_lt b a"
  by (auto simp: sockaddr_lt_def intro: sockaddr_in.equality)

lemma htons_htons: "htons (htons x) = x"
  by (rule bit_word_eqI) (auto simp: htons_def bit_simps)

lemma htons_inject: "htons x = htons y \<longleftrightarrow> x = y"
  by (metis htons_htons)

lemma show_nat_plain:
  "dropWhile isspace (show_nat n) = show_nat n" "strip_sign (show_nat n) = (False, show_nat n)" "takeWhile isdigit (show_nat n) = show_nat n"
proof -
  obtain c cs where sn: "show_nat n = c # cs"
    using show_nat_nonempty [of n] by (cases "show_nat n") auto
  then have "isdigit c"
    using show_nat_digits [of n] by simp
  then show "dropWhile isspace (show_nat n) = show_nat n" "strip_sign (show_nat n) = (False, show_nat n)"
    using digit_not_space unfolding sn by (simp_all add: strip_sign_def)
  show "takeWhile isdigit (show_nat n) = show_nat n"
    using show_nat_digits [of n] by (simp add: takeWhile_eq_all_conv)
qed

lemma strtol_show:
  assumes "n < 65536"
  shows "strtol (show_nat n) = int n"
proof -
  have "int n < 65536"
    using assms by simp
  then show ?thesis
    by (simp add: strtol_def show_nat_plain read_show_nat)
qed

lemma digit_plain: "isdigit c \<Longrightarrow> c \<noteq> CHR '':'' \<and> c \<noteq> CHR 0x00"
  by (auto simp: isdigit_def)

lemma show_nat_no_colon: "\<forall>c \<in> set (show_nat n). c \<noteq> CHR '':'' \<and> c \<noteq> CHR 0x00"
  using show_nat_digits digit_plain by blast

lemma make_sockaddr_colon:
  assumes "\<forall>c \<in> set host. c \<noteq> CHR '':'' \<and> c \<noteq> CHR 0x00" and "length host < 200" and "p < 65536"
  shows "make_sockaddr ia gh (host @ CHR '':'' # show_nat p) =
    (case (case ia host of Some a \<Rightarrow> Some a | None \<Rightarrow> gh host) of
       None \<Rightarrow> Aborts | Some a \<Rightarrow> Returns \<lparr>sin_addr = a, sin_port = htons (of_nat p)\<rparr>)"
proof -
  have t: "takeWhile (\<lambda>c. c \<noteq> CHR 0x00) (host @ CHR '':'' # show_nat p) = host @ CHR '':'' # show_nat p"
    using assms(1) show_nat_no_colon [of p] by (auto simp: takeWhile_eq_all_conv)
  have d: "takeWhile (\<lambda>c. c \<noteq> CHR '':'') (host @ CHR '':'' # show_nat p) = host"
      "dropWhile (\<lambda>c. c \<noteq> CHR '':'') (host @ CHR '':'' # show_nat p) = CHR '':'' # show_nat p"
    using assms(1) takeWhile_all [of host "\<lambda>c. c \<noteq> CHR '':''" "CHR '':''"] by simp_all
  show ?thesis
    using assms(2) unfolding make_sockaddr_def t split_hostport_def d make_sockaddr2_def Let_def by (simp add: strtol_show [OF assms(3)] split: option.split)
qed

lemma make_sockaddr_port:
  assumes "p < 65536"
  shows "make_sockaddr ia gh (show_nat p) = make_sockaddr ia gh (''127.0.0.1'' @ CHR '':'' # show_nat p)"
proof -
  have t: "takeWhile (\<lambda>c. c \<noteq> CHR 0x00) (show_nat p) = show_nat p" "dropWhile (\<lambda>c. c \<noteq> CHR '':'') (show_nat p) = []"
    using show_nat_no_colon [of p] by (auto simp: takeWhile_eq_all_conv)
  have "make_sockaddr ia gh (show_nat p) = make_sockaddr2 ia gh ''127.0.0.1'' (show_nat p)"
    unfolding make_sockaddr_def split_hostport_def t by simp
  then show ?thesis
    using assms by (subst make_sockaddr_colon) (simp_all add: make_sockaddr2_def strtol_show split: option.split)
qed

text \<open>
  Nodes are told apart by their addresses: two names on hosts that resolve, each a host and a port or a port alone for the
  local host, give the same socket address exactly if the hosts have the same address and the ports are equal.
\<close>

lemma make_sockaddr_distinct:
  assumes "\<forall>c \<in> set host. c \<noteq> CHR '':'' \<and> c \<noteq> CHR 0x00" and "length host < 200" and "p < 65536" and "q < 65536"
    and "ia host = Some a" and "ia ''127.0.0.1'' = Some b"
  shows "make_sockaddr ia gh (host @ CHR '':'' # show_nat p) \<noteq> Aborts"
    and "make_sockaddr ia gh (host @ CHR '':'' # show_nat p) = make_sockaddr ia gh (show_nat q) \<longleftrightarrow> a = b \<and> p = q"
    and "make_sockaddr ia gh (host @ CHR '':'' # show_nat p) = make_sockaddr ia gh (host @ CHR '':'' # show_nat q) \<longleftrightarrow> p = q"
proof -
  have i: "htons (of_nat p) = htons (of_nat q) \<longleftrightarrow> p = q"
    using assms(3,4) by (simp add: htons_inject word_of_nat_eq_iff take_bit_nat_eq_self)
  show "make_sockaddr ia gh (host @ CHR '':'' # show_nat p) \<noteq> Aborts"
    using assms by (simp add: make_sockaddr_colon)
  show "make_sockaddr ia gh (host @ CHR '':'' # show_nat p) = make_sockaddr ia gh (show_nat q) \<longleftrightarrow> a = b \<and> p = q"
    using assms i make_sockaddr_colon [of "''127.0.0.1''" q ia gh] by (simp add: make_sockaddr_port make_sockaddr_colon)
  show "make_sockaddr ia gh (host @ CHR '':'' # show_nat p) = make_sockaddr ia gh (host @ CHR '':'' # show_nat q) \<longleftrightarrow> p = q"
    using assms i by (simp add: make_sockaddr_colon)
qed

text \<open>The file name of an inode is read back, whatever the variable held.\<close>

lemma n2i_filename: "n2i junk (filename i) = i"
proof -
  have "unat i < 2 ^ 64"
    using unsigned_less [of i, where ?'a = nat] by simp
  then show ?thesis
    using show_nat_nonempty [of "unat i"] by (simp add: n2i_def filename_def show_nat_plain read_show_nat Let_def)
qed

text \<open>A host name of 200 characters or more overflows the buffer.\<close>

lemma long_host_overflows:
  assumes "\<forall>c \<in> set host. c \<noteq> CHR '':'' \<and> c \<noteq> CHR 0x00" and "200 \<le> length host"
  shows "make_sockaddr ia gh (host @ CHR '':'' # port) = Aborts"
proof -
  have "takeWhile (\<lambda>c. c \<noteq> CHR 0x00) (host @ CHR '':'' # port) = host @ CHR '':'' # takeWhile (\<lambda>c. c \<noteq> CHR 0x00) port"
    using assms(1) by (induction host) simp_all
  moreover have "takeWhile (\<lambda>c. c \<noteq> CHR '':'') (host @ CHR '':'' # r) = host" "dropWhile (\<lambda>c. c \<noteq> CHR '':'') (host @ CHR '':'' # r) = CHR '':'' # r" for r
    using assms(1) takeWhile_all [of host "\<lambda>c. c \<noteq> CHR '':''" "CHR '':''" r] by simp_all
  ultimately show ?thesis
    using assms(2) by (simp add: make_sockaddr_def split_hostport_def)
qed

end
